(* ===== verification/Prelude.thy ===== *)
theory Prelude
  imports Main "HOL-Library.Word"
begin

text \<open>
  Shared vocabulary of the development: handles, pointers, exceptions, the linked lists
  that the library's awaiters form through their \<open>m_next\<close> fields, and the transition
  systems in which concurrent executions are described.

  A coroutine handle and the address of the awaiter object that lives in that coroutine's
  frame are both a \<^typ>\<open>nat\<close>; \<open>nullptr\<close> is \<^term>\<open>None\<close>.  The \<open>m_next\<close> fields of all
  awaiters are one function from addresses to pointers.
\<close>

section \<open>Vocabulary\<close>

named_theorems model_defs

type_synonym handle = nat
type_synonym addr = nat
type_synonym ptr = "nat option"
type_synonym heap = "nat \<Rightarrow> nat option"
type_synonym size_t = "64 word"
type_synonym int64_t = "64 word"

text \<open>
  The exceptions the library throws, those of a user's coroutine, and \<open>Diverges\<close> for a loop that
  does not end.
\<close>

datatype exn =
    Runtime_error string
  | Logic_error string
  | Bad_optional_access
  | User_exn nat
  | Diverges

type_synonym 'a result = "exn + 'a"

text \<open>
  \<open>compare_exchange\<close> on an atomic holding \<open>cur\<close>: the success flag, the new value of
  the expected argument and the new value of the atomic.  The flag \<open>spurious\<close> is the
  freedom of the weak form to fail although the values agree.
\<close>

definition compare_exchange :: "bool \<Rightarrow> 'a \<Rightarrow> 'a \<Rightarrow> 'a \<Rightarrow> bool \<times> 'a \<times> 'a" where
  "compare_exchange spurious cur expected desired =
     (if cur = expected \<and> \<not> spurious then (True, expected, desired) else (False, cur, cur))"

section \<open>Linked lists through next fields\<close>

primrec lst :: "heap \<Rightarrow> ptr \<Rightarrow> addr list \<Rightarrow> bool" where
  "lst h p [] = (p = None)"
| "lst h p (x # xs) = (p = Some x \<and> lst h (h x) xs)"

text \<open>
  The traversal that every waker performs: read \<open>m_next\<close> first, resume, move on.  The
  result is the sequence of awaiters in the order in which they are resumed.
\<close>

partial_function (option) resume_all :: "heap \<Rightarrow> ptr \<Rightarrow> addr list \<Rightarrow> addr list option" where
  "resume_all h p acc =
     (case p of
        None \<Rightarrow> Some acc
      | Some w \<Rightarrow> resume_all h (h w) (acc @ [w]))"

section \<open>Transition systems\<close>

inductive reach :: "('s \<Rightarrow> bool) \<Rightarrow> ('s \<Rightarrow> 's \<Rightarrow> bool) \<Rightarrow> 's \<Rightarrow> bool"
  for init :: "'s \<Rightarrow> bool" and step :: "'s \<Rightarrow> 's \<Rightarrow> bool" where
  reach_init: "init s \<Longrightarrow> reach init step s"
| reach_step: "reach init step s \<Longrightarrow> step s t \<Longrightarrow> reach init step t"

section \<open>Lemmas\<close>

lemma const_upd [simp]: "(\<lambda>_. c)(a := c) = (\<lambda>_. c)"
  by (rule ext) simp

lemma lst_None [simp]: "lst h None xs \<longleftrightarrow> xs = []"
  by (cases xs) auto

lemma lst_Some: "lst h (Some x) xs \<longleftrightarrow> (\<exists>ys. xs = x # ys \<and> lst h (h x) ys)"
  by (cases xs) auto

lemma lst_unique: "lst h p xs \<Longrightarrow> lst h p ys \<Longrightarrow> xs = ys"
  by (induction xs arbitrary: p ys) (auto simp: lst_Some)

lemma lst_upd [simp]: "a \<notin> set xs \<Longrightarrow> lst (h(a := q)) p xs = lst h p xs"
  by (induction xs arbitrary: p) auto

lemma lst_cong: "(\<And>x. x \<in> set xs \<Longrightarrow> h x = h' x) \<Longrightarrow> lst h p xs = lst h' p xs"
  by (induction xs arbitrary: p) auto

lemma lst_append: "lst h p (xs @ ys) \<Longrightarrow> \<exists>q. lst h q ys"
  by (induction xs arbitrary: p) auto

lemma lst_distinct: "lst h p xs \<Longrightarrow> distinct xs"
proof (induction xs arbitrary: p)
  case Nil
  then show ?case by simp
next
  case (Cons x xs)
  have "x \<notin> set xs"
  proof
    assume "x \<in> set xs"
    then obtain us vs where xs: "xs = us @ x # vs" by (auto simp: in_set_conv_decomp)
    from Cons.prems have all: "lst h (h x) xs" by simp
    with xs obtain q where "lst h q (x # vs)" using lst_append by blast
    then have "lst h (h x) vs" by simp
    with all have "xs = vs" by (rule lst_unique)
    with xs show False by simp
  qed
  with Cons show ?case by auto
qed

lemma lst_push: "lst h p xs \<Longrightarrow> e \<notin> set xs \<Longrightarrow> lst (h(e := p)) (Some e) (e # xs)"
  by simp

lemma lst_hd: "lst h p xs \<Longrightarrow> p = (case xs of [] \<Rightarrow> None | x # _ \<Rightarrow> Some x)"
  by (cases xs) auto

lemma lst_tl: "lst h (Some x) xs \<Longrightarrow> lst h (h x) (tl xs)"
  by (cases xs) auto

text \<open>The traversal visits exactly the nodes of the list, in order, and it ends.\<close>

lemma resume_all_acc: "lst h p xs \<Longrightarrow> resume_all h p acc = Some (acc @ xs)"
proof (induction xs arbitrary: p acc)
  case Nil
  then show ?case by (simp add: resume_all.simps)
next
  case (Cons x xs)
  then show ?case by (simp add: resume_all.simps [of h "Some x"])
qed

lemma resume_all_lst [simp]: "lst h p xs \<Longrightarrow> resume_all h p [] = Some xs"
  by (simp add: resume_all_acc)

lemma compare_exchange_strong_iff:
  "compare_exchange False cur expected desired =
     (if cur = expected then (True, expected, desired) else (False, cur, cur))"
  by (simp add: compare_exchange_def)

text \<open>The invariant rule, once for all systems.\<close>

locale invariant_system =
  fixes init :: "'s \<Rightarrow> bool"
    and step :: "'s \<Rightarrow> 's \<Rightarrow> bool"
    and inv :: "'s \<Rightarrow> bool"
  assumes inv_init: "init s \<Longrightarrow> inv s"
    and inv_step: "inv s \<Longrightarrow> step s t \<Longrightarrow> inv t"
begin

lemma inv_reach: "reach init step s \<Longrightarrow> inv s"
proof (induction rule: reach.induct)
  case (reach_init s)
  then show ?case by (rule inv_init)
next
  case (reach_step s t)
  then show ?case by (blast intro: inv_step)
qed

end

section \<open>Counting over coroutines and threads\<close>

text \<open>
  The sum of the weights of all coroutines, of which finitely many have one.
\<close>

definition tally :: "('p \<Rightarrow> nat) \<Rightarrow> (nat \<Rightarrow> 'p) \<Rightarrow> nat" where
  "tally g f = (\<Sum>c | g (f c) \<noteq> 0. g (f c))"

definition few :: "('p \<Rightarrow> nat) \<Rightarrow> (nat \<Rightarrow> 'p) \<Rightarrow> bool" where
  "few g f \<longleftrightarrow> finite {c. g (f c) \<noteq> 0}"

lemma tally_eq: "finite A \<Longrightarrow> (\<And>c. c \<notin> A \<Longrightarrow> g (f c) = 0) \<Longrightarrow> tally g f = (\<Sum>c\<in>A. g (f c))"
  unfolding tally_def by (rule sum.mono_neutral_left) (auto, metis less_irrefl)

lemma few_upd [simp]: "few g (f(t := x)) = few g f"
proof -
  have "{c. g ((f(t := x)) c) \<noteq> 0} - {t} = {c. g (f c) \<noteq> 0} - {t}" by auto
  then show ?thesis unfolding few_def by (metis finite_Diff_insert finite.emptyI finite_Diff_insert Diff_empty)
qed

lemma tally_upd_add: "few g f \<Longrightarrow> tally g (f(t := x)) + g (f t) = tally g f + g x"
proof -
  assume fin: "few g f"
  let ?A = "insert t {c. g (f c) \<noteq> 0}"
  have A: "finite ?A" using fin by (simp add: few_def)
  have "tally g f = (\<Sum>c\<in>?A. g (f c))" by (rule tally_eq) (use A in auto)
  moreover have "tally g (f(t := x)) = (\<Sum>c\<in>?A. g ((f(t := x)) c))" by (rule tally_eq) (use A in auto)
  moreover have "(\<Sum>c\<in>?A - {t}. g ((f(t := x)) c)) = (\<Sum>c\<in>?A - {t}. g (f c))" by (rule sum.cong) auto
  ultimately show ?thesis
    using sum.remove [OF A, of t "\<lambda>c. g (f c)"] sum.remove [OF A, of t "\<lambda>c. g ((f(t := x)) c)"] by simp
qed

lemma tally_ge: "few g f \<Longrightarrow> g (f t) \<le> tally g f"
  using tally_upd_add [of g f t "f t"] tally_upd_add [of g f t] sum_nonneg
  unfolding tally_def few_def by (cases "g (f t) = 0") (auto intro: member_le_sum)

lemma tally_upd [simp]: "few g f \<Longrightarrow> tally g (f(t := x)) = tally g f + g x - g (f t)"
  using tally_upd_add [of g f t x] by simp

lemma tally_const [simp]: "g c = 0 \<Longrightarrow> tally g (\<lambda>_. c) = 0" "g c = 0 \<Longrightarrow> few g (\<lambda>_. c)"
  by (simp_all add: tally_def few_def)

lemma tally_0: "few g f \<Longrightarrow> tally g f = 0 \<longleftrightarrow> (\<forall>c. g (f c) = 0)"
  by (auto simp: tally_def few_def)

text \<open>The same for a fixed number of threads.\<close>

definition wsum :: "('p \<Rightarrow> 'm::comm_monoid_add) \<Rightarrow> nat \<Rightarrow> (nat \<Rightarrow> 'p) \<Rightarrow> 'm" where
  "wsum g n f = (\<Sum>i<n. g (f i))"

lemma wsum_upd_add:
  assumes "w < n"
  shows "wsum g n (f(w := x)) + g (f w) = wsum g n f + g x"
proof -
  have "(\<Sum>i\<in>{..<n} - {w}. g ((f(w := x)) i)) = (\<Sum>i\<in>{..<n} - {w}. g (f i))" by (rule sum.cong) auto
  then show ?thesis
    using assms sum.remove [of "{..<n}" w "\<lambda>i. g (f i)"] sum.remove [of "{..<n}" w "\<lambda>i. g ((f(w := x)) i)"]
    by (simp add: wsum_def ac_simps)
qed

lemma wsum_upd [simp]:
  fixes g :: "'p \<Rightarrow> 'm::cancel_comm_monoid_add"
  shows "w < n \<Longrightarrow> wsum g n (f(w := x)) = wsum g n f + g x - g (f w)"
  using wsum_upd_add [of w n g f x] by (metis add_diff_cancel_right')

lemma wsum_ge: "w < n \<Longrightarrow> g (f w) \<le> wsum g n f" for g :: "'p \<Rightarrow> nat"
  unfolding wsum_def by (rule member_le_sum) auto

lemma wsum_cong: "(\<And>i. i < n \<Longrightarrow> g (f i) = g (f' i)) \<Longrightarrow> wsum g n f = wsum g n f'"
  by (simp add: wsum_def)

lemma wsum_const [simp]: "g c = 0 \<Longrightarrow> wsum g n (\<lambda>_. c) = 0"
  by (simp add: wsum_def)

lemma wsum_pos: "wsum g n f \<noteq> 0 \<Longrightarrow> \<exists>w<n. g (f w) \<noteq> 0" for g :: "'p \<Rightarrow> nat"
  by (auto simp: wsum_def)

end
