(* ===== verification/AwaiterList.thy ===== *)
theory AwaiterList
  imports Prelude
begin

text \<open>
  The intrusive, lock-free stack of awaiters of \<open>include/coro/detail/awaiter_list.hpp\<close>.

  Two descriptions are given.  The functions \<open>awaiter_list_push\<close>, \<open>awaiter_list_pop\<close>,
  \<open>awaiter_list_pop_all\<close> and \<open>awaiter_list_reverse\<close> are what a call does when no other
  thread interferes; the components built on the list use them.  The step function
  \<open>al_tstep\<close> breaks the same code at every access to shared memory (the load, the
  read or write of an \<open>m_next\<close> field, the compare-exchange, which may fail spuriously),
  and \<open>al_step\<close> interleaves any number of threads.  The lemmas relate both to an abstract
  stack, and show what happens when two threads pop at the same time.
\<close>

section \<open>A call without interference\<close>

text \<open>A list is its head pointer together with the next fields of all awaiters.\<close>

definition awaiter_list_push :: "ptr \<times> heap \<Rightarrow> addr \<Rightarrow> ptr \<times> heap" where
  "awaiter_list_push l to_enqueue = (case l of (current, h) \<Rightarrow> (Some to_enqueue, h(to_enqueue := current)))"

definition awaiter_list_pop :: "ptr \<times> heap \<Rightarrow> ptr \<times> ptr \<times> heap" where
  "awaiter_list_pop l =
     (case l of
        (None, h) \<Rightarrow> (None, None, h)
      | (Some waiter, h) \<Rightarrow> (Some waiter, h waiter, h))"

definition awaiter_list_pop_all :: "ptr \<times> heap \<Rightarrow> ptr \<times> ptr \<times> heap" where
  "awaiter_list_pop_all l =
     (case l of
        (None, h) \<Rightarrow> (None, None, h)
      | (Some head, h) \<Rightarrow> (Some head, None, h))"

partial_function (option) reverse_loop :: "heap \<Rightarrow> ptr \<Rightarrow> ptr \<Rightarrow> (ptr \<times> heap) option" where
  "reverse_loop h cur prev =
     (case cur of
        None \<Rightarrow> Some (prev, h)
      | Some c \<Rightarrow> reverse_loop (h(c := prev)) (h c) (Some c))"

definition awaiter_list_reverse :: "heap \<Rightarrow> ptr \<Rightarrow> (ptr \<times> heap) option" where
  "awaiter_list_reverse h cur =
     (case cur of
        None \<Rightarrow> Some (cur, h)
      | Some c \<Rightarrow> if h c = None then Some (cur, h) else reverse_loop h cur None)"

section \<open>The code, one shared access at a time\<close>

datatype al_pc =
    Push_load addr
  | Push_next addr ptr
  | Push_cas addr ptr
  | Pushed addr
  | Pop_load
  | Pop_next addr
  | Pop_cas addr ptr
  | Popped ptr
  | Pop_all_load
  | Pop_all_cas addr
  | Popped_all ptr

record al_shared =
  al_list :: ptr
  al_next :: heap

text \<open>The tests against \<open>nullptr\<close> touch no shared memory: they belong to the access before.\<close>

fun pop_test :: "ptr \<Rightarrow> al_pc" where
  "pop_test None = Popped None"
| "pop_test (Some w) = Pop_next w"

fun pop_all_test :: "ptr \<Rightarrow> al_pc" where
  "pop_all_test None = Popped_all None"
| "pop_all_test (Some w) = Pop_all_cas w"

fun al_tstep :: "bool \<Rightarrow> al_pc \<Rightarrow> al_shared \<Rightarrow> (al_pc \<times> al_shared) option" where
  "al_tstep spurious (Push_load e) s = Some (Push_next e (al_list s), s)"
| "al_tstep spurious (Push_next e current) s =
     Some (Push_cas e current, s\<lparr>al_next := (al_next s)(e := current)\<rparr>)"
| "al_tstep spurious (Push_cas e current) s =
     (case compare_exchange spurious (al_list s) current (Some e) of
        (ok, current', l) \<Rightarrow>
          Some (if ok then Pushed e else Push_next e current', s\<lparr>al_list := l\<rparr>))"
| "al_tstep spurious Pop_load s = Some (pop_test (al_list s), s)"
| "al_tstep spurious (Pop_next w) s = Some (Pop_cas w (al_next s w), s)"
| "al_tstep spurious (Pop_cas w n) s =
     (case compare_exchange spurious (al_list s) (Some w) n of
        (ok, waiter', l) \<Rightarrow>
          Some (if ok then Popped (Some w) else pop_test waiter', s\<lparr>al_list := l\<rparr>))"
| "al_tstep spurious Pop_all_load s = Some (pop_all_test (al_list s), s)"
| "al_tstep spurious (Pop_all_cas w) s =
     (case compare_exchange spurious (al_list s) (Some w) None of
        (ok, head', l) \<Rightarrow>
          Some (if ok then Popped_all (Some w) else pop_all_test head', s\<lparr>al_list := l\<rparr>))"
| "al_tstep spurious (Pushed e) s = None"
| "al_tstep spurious (Popped p) s = None"
| "al_tstep spurious (Popped_all p) s = None"

text \<open>Threads, each inside at most one call.\<close>

record al_sys =
  al_mem :: al_shared
  al_thr :: "nat \<Rightarrow> al_pc option"

fun pushing :: "al_pc option \<Rightarrow> addr option" where
  "pushing (Some (Push_load e)) = Some e"
| "pushing (Some (Push_next e c)) = Some e"
| "pushing (Some (Push_cas e c)) = Some e"
| "pushing pc = None"

fun popping :: "al_pc option \<Rightarrow> bool" where
  "popping (Some Pop_load) = True"
| "popping (Some (Pop_next w)) = True"
| "popping (Some (Pop_cas w n)) = True"
| "popping pc = False"

fun popping_all :: "al_pc option \<Rightarrow> bool" where
  "popping_all (Some Pop_all_load) = True"
| "popping_all (Some (Pop_all_cas w)) = True"
| "popping_all pc = False"

text \<open>
  The discipline of the callers.  An awaiter is pushed when it is in no list and nobody
  else is pushing it.  With \<open>excl\<close>, a thread starts to pop only while no other thread is
  popping; the mutex, the semaphore and the ring buffer keep it, because they pop
  while holding a lock.  The condition variable does not.
\<close>

inductive al_step :: "bool \<Rightarrow> nat \<Rightarrow> al_sys \<Rightarrow> al_sys \<Rightarrow> bool" for excl :: bool where
  al_run: "al_thr s t = Some pc \<Longrightarrow> al_tstep spurious pc (al_mem s) = Some (pc', m) \<Longrightarrow>
     al_step excl t s (s\<lparr>al_mem := m, al_thr := (al_thr s)(t := Some pc')\<rparr>)"
| al_return: "al_thr s t = Some pc \<Longrightarrow> al_tstep False pc (al_mem s) = None \<Longrightarrow>
     al_step excl t s (s\<lparr>al_thr := (al_thr s)(t := None)\<rparr>)"
| al_call_push: "al_thr s t = None \<Longrightarrow> lst (al_next (al_mem s)) (al_list (al_mem s)) xs \<Longrightarrow>
     e \<notin> set xs \<Longrightarrow> (\<forall>u. pushing (al_thr s u) \<noteq> Some e) \<Longrightarrow>
     al_step excl t s (s\<lparr>al_thr := (al_thr s)(t := Some (Push_load e))\<rparr>)"
| al_call_pop: "al_thr s t = None \<Longrightarrow>
     (excl \<longrightarrow> (\<forall>u. \<not> popping (al_thr s u) \<and> \<not> popping_all (al_thr s u))) \<Longrightarrow>
     al_step excl t s (s\<lparr>al_thr := (al_thr s)(t := Some Pop_load)\<rparr>)"
| al_call_pop_all: "al_thr s t = None \<Longrightarrow> (excl \<longrightarrow> (\<forall>u. \<not> popping (al_thr s u))) \<Longrightarrow>
     al_step excl t s (s\<lparr>al_thr := (al_thr s)(t := Some Pop_all_load)\<rparr>)"

text \<open>A list at rest: no thread is inside a call and the pointers form the list \<open>xs\<close>.\<close>

definition al_rest :: "al_sys \<Rightarrow> addr list \<Rightarrow> bool" where
  "al_rest s xs \<longleftrightarrow> lst (al_next (al_mem s)) (al_list (al_mem s)) xs \<and> (\<forall>t. al_thr s t = None)"

section \<open>The abstract stack\<close>

datatype stack_event = EPush addr | EPop addr | EPop_empty | EPop_all "addr list" | ESkip

fun stack_spec :: "addr list \<Rightarrow> stack_event \<Rightarrow> addr list \<Rightarrow> bool" where
  "stack_spec xs (EPush e) ys = (e \<notin> set xs \<and> ys = e # xs)"
| "stack_spec xs (EPop e) ys = (xs = e # ys)"
| "stack_spec xs EPop_empty ys = (xs = [] \<and> ys = [])"
| "stack_spec xs (EPop_all zs) ys = (zs = xs \<and> ys = [])"
| "stack_spec xs ESkip ys = (ys = xs)"

fun stack_run :: "addr list \<Rightarrow> stack_event list \<Rightarrow> addr list \<Rightarrow> bool" where
  "stack_run xs [] ys = (ys = xs)"
| "stack_run xs (e # es) ys = (\<exists>zs. stack_spec xs e zs \<and> stack_run zs es ys)"

text \<open>
  What the step of a thread amounts to is read off the point the thread has reached: the
  successful compare-exchange, or the load that saw an empty list.
\<close>

definition al_event :: "heap \<Rightarrow> al_pc option \<Rightarrow> stack_event" where
  "al_event h pc' =
     (case pc' of
        Some (Pushed e) \<Rightarrow> EPush e
      | Some (Popped (Some w)) \<Rightarrow> EPop w
      | Some (Popped None) \<Rightarrow> EPop_empty
      | Some (Popped_all p) \<Rightarrow> (case resume_all h p [] of Some zs \<Rightarrow> EPop_all zs | None \<Rightarrow> ESkip)
      | _ \<Rightarrow> ESkip)"

inductive al_trace :: "bool \<Rightarrow> al_sys \<Rightarrow> stack_event list \<Rightarrow> al_sys \<Rightarrow> bool" for excl :: bool where
  al_trace_nil: "al_trace excl s [] s"
| al_trace_cons: "al_step excl t s s' \<Longrightarrow> al_trace excl s' evs s'' \<Longrightarrow>
     al_trace excl s (al_event (al_next (al_mem s')) (al_thr s' t) # evs) s''"

text \<open>The invariant that ties the shared memory and the threads to the abstract stack.\<close>

definition al_inv :: "al_sys \<Rightarrow> addr list \<Rightarrow> bool" where
  "al_inv s xs \<longleftrightarrow>
     lst (al_next (al_mem s)) (al_list (al_mem s)) xs \<and>
     (\<forall>t e. pushing (al_thr s t) = Some e \<longrightarrow> e \<notin> set xs) \<and>
     (\<forall>t u e. pushing (al_thr s t) = Some e \<longrightarrow> pushing (al_thr s u) = Some e \<longrightarrow> t = u) \<and>
     (\<forall>t e c. al_thr s t = Some (Push_cas e c) \<longrightarrow> al_next (al_mem s) e = c) \<and>
     (\<forall>t w. al_thr s t = Some (Pop_next w) \<longrightarrow> w \<in> set xs) \<and>
     (\<forall>t w n. al_thr s t = Some (Pop_cas w n) \<longrightarrow> w \<in> set xs \<and> al_next (al_mem s) w = n) \<and>
     (\<forall>t u. popping (al_thr s t) \<longrightarrow> popping (al_thr s u) \<or> popping_all (al_thr s u) \<longrightarrow> t = u)"

section \<open>Lemmas\<close>

lemma al_mem_same [simp]: "m\<lparr>al_list := al_list m\<rparr> = m" "s\<lparr>al_mem := al_mem s, al_thr := f\<rparr> = s\<lparr>al_thr := f\<rparr>"
  by (cases m; cases s; simp)+

lemma al_invD:
  assumes "al_inv s xs"
  shows "lst (al_next (al_mem s)) (al_list (al_mem s)) xs"
    and "pushing (al_thr s t) = Some e \<Longrightarrow> e \<notin> set xs"
    and "pushing (al_thr s t) = Some e \<Longrightarrow> pushing (al_thr s u) = Some e \<Longrightarrow> t = u"
    and "al_thr s t = Some (Push_cas e c) \<Longrightarrow> al_next (al_mem s) e = c"
    and "al_thr s t = Some (Pop_next w) \<Longrightarrow> w \<in> set xs"
    and "al_thr s t = Some (Pop_cas w n) \<Longrightarrow> w \<in> set xs \<and> al_next (al_mem s) w = n"
    and "popping (al_thr s t) \<Longrightarrow> popping (al_thr s u) \<or> popping_all (al_thr s u) \<Longrightarrow> t = u"
  using assms unfolding al_inv_def by blast+

lemma al_invI:
  assumes "lst (al_next (al_mem s)) (al_list (al_mem s)) xs"
    and "\<And>t e. pushing (al_thr s t) = Some e \<Longrightarrow> e \<notin> set xs"
    and "\<And>t u e. pushing (al_thr s t) = Some e \<Longrightarrow> pushing (al_thr s u) = Some e \<Longrightarrow> t = u"
    and "\<And>t e c. al_thr s t = Some (Push_cas e c) \<Longrightarrow> al_next (al_mem s) e = c"
    and "\<And>t w. al_thr s t = Some (Pop_next w) \<Longrightarrow> w \<in> set xs"
    and "\<And>t w n. al_thr s t = Some (Pop_cas w n) \<Longrightarrow> w \<in> set xs \<and> al_next (al_mem s) w = n"
    and "\<And>t u. popping (al_thr s t) \<Longrightarrow> popping (al_thr s u) \<or> popping_all (al_thr s u) \<Longrightarrow> t = u"
  shows "al_inv s xs"
  using assms unfolding al_inv_def by blast

text \<open>A step that changes one thread only.\<close>

lemma al_inv_thread:
  assumes "al_inv s xs"
    and "\<And>e. pushing pc' = Some e \<Longrightarrow> e \<notin> set xs \<and> (\<forall>u. u \<noteq> t \<longrightarrow> pushing (al_thr s u) \<noteq> Some e)"
    and "\<And>e c. pc' = Some (Push_cas e c) \<Longrightarrow> al_next (al_mem s) e = c"
    and "\<And>w. pc' = Some (Pop_next w) \<Longrightarrow> w \<in> set xs"
    and "\<And>w n. pc' = Some (Pop_cas w n) \<Longrightarrow> w \<in> set xs \<and> al_next (al_mem s) w = n"
    and "popping pc' \<Longrightarrow> \<forall>u. u \<noteq> t \<longrightarrow> \<not> popping (al_thr s u) \<and> \<not> popping_all (al_thr s u)"
    and "popping_all pc' \<Longrightarrow> \<forall>u. u \<noteq> t \<longrightarrow> \<not> popping (al_thr s u)"
  shows "al_inv (s\<lparr>al_thr := (al_thr s)(t := pc')\<rparr>) xs" (is "al_inv ?s xs")
proof (rule al_invI)
  show "lst (al_next (al_mem ?s)) (al_list (al_mem ?s)) xs" using al_invD(1) [OF assms(1)] by simp
next
  fix u e assume "pushing (al_thr ?s u) = Some e"
  then show "e \<notin> set xs" using assms(2) al_invD(2) [OF assms(1)] by (auto split: if_splits)
next
  fix u v e assume "pushing (al_thr ?s u) = Some e"
    "pushing (al_thr ?s v) = Some e"
  then show "u = v" using assms(2) [of e] al_invD(3) [OF assms(1), of u e v] by (auto split: if_splits)
next
  fix u e c assume "al_thr ?s u = Some (Push_cas e c)"
  then show "al_next (al_mem ?s) e = c" using assms(3) al_invD(4) [OF assms(1)] by (auto split: if_splits)
next
  fix u w assume "al_thr ?s u = Some (Pop_next w)"
  then show "w \<in> set xs" using assms(4) al_invD(5) [OF assms(1)] by (auto split: if_splits)
next
  fix u w n assume "al_thr ?s u = Some (Pop_cas w n)"
  then show "w \<in> set xs \<and> al_next (al_mem ?s) w = n"
    using assms(5) al_invD(6) [OF assms(1)] by (auto split: if_splits)
next
  fix u v assume "popping (al_thr ?s u)"
    "popping (al_thr ?s v) \<or> popping_all (al_thr ?s v)"
  then show "u = v"
    using assms(6,7) al_invD(7) [OF assms(1), of u v] by (auto split: if_splits)
qed

lemma al_inv_push_load:
  assumes "al_inv s xs" and "al_thr s t = Some (Push_load e)"
  shows "al_inv (s\<lparr>al_thr := (al_thr s)(t := Some (Push_next e c))\<rparr>) xs"
  using al_invD(2,3) [OF assms(1), of t e] assms by (intro al_inv_thread) auto

lemma al_inv_push_next:
  assumes inv: "al_inv s xs" and pc: "al_thr s t = Some (Push_next e c)"
  shows "al_inv (s\<lparr>al_mem := (al_mem s)\<lparr>al_next := (al_next (al_mem s))(e := c)\<rparr>,
     al_thr := (al_thr s)(t := Some (Push_cas e c))\<rparr>) xs"
proof -
  have e: "e \<notin> set xs" "pushing (al_thr s u) = Some e \<Longrightarrow> u = t" for u
    using al_invD(2) [OF inv, of t e] al_invD(3) [OF inv, of u e t] pc by auto
  have "al_thr s u \<noteq> Some (Push_cas e d)" if "u \<noteq> t" for u d
    using e(2) [of u] that by auto
  with e inv show ?thesis
    unfolding al_inv_def by (auto split: if_splits)
qed

lemma al_inv_push_cas_ok:
  assumes inv: "al_inv s xs" and pc: "al_thr s t = Some (Push_cas e (al_list (al_mem s)))"
  shows "al_inv (s\<lparr>al_mem := (al_mem s)\<lparr>al_list := Some e\<rparr>,
     al_thr := (al_thr s)(t := Some (Pushed e))\<rparr>) (e # xs)"
proof -
  have e: "e \<notin> set xs" "pushing (al_thr s u) = Some e \<Longrightarrow> u = t" for u
    using al_invD(2) [OF inv, of t e] al_invD(3) [OF inv, of u e t] pc by auto
  have "al_next (al_mem s) e = al_list (al_mem s)" by (rule al_invD(4) [OF inv pc])
  with e inv show ?thesis
    unfolding al_inv_def by (auto split: if_splits)
qed

lemma al_inv_push_cas_fail:
  assumes "al_inv s xs" and "al_thr s t = Some (Push_cas e c)"
  shows "al_inv (s\<lparr>al_thr := (al_thr s)(t := Some (Push_next e c'))\<rparr>) xs"
  using al_invD(2,3) [OF assms(1), of t e] assms by (intro al_inv_thread) auto

lemma al_inv_pop_test:
  assumes "al_inv s xs" and "popping (al_thr s t)"
  shows "al_inv (s\<lparr>al_thr := (al_thr s)(t := Some (pop_test (al_list (al_mem s))))\<rparr>) xs"
proof (cases xs)
  case Nil
  then have "al_list (al_mem s) = None" using al_invD(1) [OF assms(1)] by simp
  then show ?thesis using assms by (intro al_inv_thread) auto
next
  case (Cons w ws)
  then have "al_list (al_mem s) = Some w" using al_invD(1) [OF assms(1)] by simp
  then show ?thesis using assms al_invD(7) [OF assms] Cons by (intro al_inv_thread) auto
qed

lemma al_inv_pop_next:
  assumes "al_inv s xs" and "al_thr s t = Some (Pop_next w)"
  shows "al_inv (s\<lparr>al_thr := (al_thr s)(t := Some (Pop_cas w (al_next (al_mem s) w)))\<rparr>) xs"
  using assms al_invD(5,7) [OF assms(1), of t] by (intro al_inv_thread) auto

lemma al_inv_pop_cas_ok:
  assumes inv: "al_inv s xs" and pc: "al_thr s t = Some (Pop_cas w n)" and hd: "al_list (al_mem s) = Some w"
  shows "xs = w # tl xs \<and> al_inv (s\<lparr>al_mem := (al_mem s)\<lparr>al_list := n\<rparr>,
     al_thr := (al_thr s)(t := Some (Popped (Some w)))\<rparr>) (tl xs)"
proof -
  have "lst (al_next (al_mem s)) (Some w) xs" using al_invD(1) [OF inv] hd by simp
  then obtain ws where ws: "xs = w # ws" "lst (al_next (al_mem s)) (al_next (al_mem s) w) ws"
    by (auto simp: lst_Some)
  have n: "al_next (al_mem s) w = n" using al_invD(6) [OF inv pc] by simp
  have only: "popping (al_thr s u) \<Longrightarrow> u = t" for u
    using al_invD(7) [OF inv, of t u] pc by auto
  have others: "al_thr s u \<noteq> Some (Pop_next v)" "al_thr s u \<noteq> Some (Pop_cas v m)" if "u \<noteq> t" for u v m
    using only [of u] that by auto
  from inv ws n others show ?thesis
    unfolding al_inv_def by (auto split: if_splits)
qed

lemma al_inv_pop_all_test:
  assumes "al_inv s xs" and "popping_all (al_thr s t)"
  shows "al_inv (s\<lparr>al_thr := (al_thr s)(t := Some (pop_all_test p))\<rparr>) xs"
  using assms al_invD(7) [OF assms(1)] by (cases p) (auto intro!: al_inv_thread)

lemma al_inv_pop_all_ok:
  assumes inv: "al_inv s xs" and pc: "popping_all (al_thr s t)"
  shows "al_inv (s\<lparr>al_mem := (al_mem s)\<lparr>al_list := None\<rparr>,
     al_thr := (al_thr s)(t := Some (Popped_all p))\<rparr>) []"
proof -
  have "\<not> popping (al_thr s u)" for u
    using al_invD(7) [OF inv, of u t] pc by (cases "u = t") (auto elim: popping_all.elims)
  then have "al_thr s u \<noteq> Some (Pop_next v)" "al_thr s u \<noteq> Some (Pop_cas v m)" for u v m
    by (metis popping.simps)+
  with inv show ?thesis
    unfolding al_inv_def by (auto split: if_splits)
qed

text \<open>Every step of a call is a step of the abstract stack or leaves it alone.\<close>

lemma al_inv_run:
  assumes inv: "al_inv s xs" and pc: "al_thr s t = Some pc"
    and st: "al_tstep spurious pc (al_mem s) = Some (pc', m)"
  shows "\<exists>xs'. al_inv (s\<lparr>al_mem := m, al_thr := (al_thr s)(t := Some pc')\<rparr>) xs' \<and>
     stack_spec xs (al_event (al_next m) (Some pc')) xs'"
proof (cases pc)
  case (Push_load e)
  then show ?thesis
    using st al_inv_push_load [OF inv] pc by (auto simp: al_event_def)
next
  case (Push_next e c)
  then show ?thesis
    using st al_inv_push_next [OF inv] pc by (auto simp: al_event_def)
next
  case (Push_cas e c)
  show ?thesis
  proof (cases "al_list (al_mem s) = c \<and> \<not> spurious")
    case True
    then show ?thesis
      using st Push_cas al_inv_push_cas_ok [OF inv, of t e] pc al_invD(2) [OF inv, of t e]
      by (auto simp: al_event_def compare_exchange_def)
  next
    case False
    then have "m = al_mem s" "pc' = Push_next e (al_list (al_mem s))"
      using st Push_cas by (auto simp: compare_exchange_def)
    then show ?thesis
      using Push_cas al_inv_push_cas_fail [OF inv, of t e c] pc
      by (auto simp: al_event_def compare_exchange_def)
  qed
next
  case Pop_load
  then show ?thesis
    using st al_inv_pop_test [OF inv, of t] al_invD(1) [OF inv] pc
    by (cases xs) (auto simp: al_event_def)
next
  case (Pop_next w)
  then show ?thesis
    using st al_inv_pop_next [OF inv, of t w] pc by (auto simp: al_event_def)
next
  case (Pop_cas w n)
  show ?thesis
  proof (cases "al_list (al_mem s) = Some w \<and> \<not> spurious")
    case True
    then show ?thesis
      using st Pop_cas al_inv_pop_cas_ok [OF inv, of t w n] pc
      by (auto simp: al_event_def compare_exchange_def)
  next
    case False
    then have "m = al_mem s" "pc' = pop_test (al_list (al_mem s))"
      using st Pop_cas by (auto simp: compare_exchange_def)
    then show ?thesis
      using Pop_cas al_inv_pop_test [OF inv, of t] al_invD(1) [OF inv] pc
      by (cases xs) (auto simp: al_event_def compare_exchange_def)
  qed
next
  case Pop_all_load
  then show ?thesis
    using st al_inv_pop_all_test [OF inv, of t "al_list (al_mem s)"] al_invD(1) [OF inv] pc
    by (cases xs) (auto simp: al_event_def)
next
  case (Pop_all_cas w)
  show ?thesis
  proof (cases "al_list (al_mem s) = Some w \<and> \<not> spurious")
    case True
    then show ?thesis
      using st Pop_all_cas al_inv_pop_all_ok [OF inv, of t "Some w"] al_invD(1) [OF inv] pc
      by (auto simp: al_event_def compare_exchange_def)
  next
    case False
    then have "m = al_mem s" "pc' = pop_all_test (al_list (al_mem s))"
      using st Pop_all_cas by (auto simp: compare_exchange_def)
    then show ?thesis
      using Pop_all_cas al_inv_pop_all_test [OF inv, of t "al_list (al_mem s)"] al_invD(1) [OF inv] pc
      by (cases xs) (auto simp: al_event_def compare_exchange_def)
  qed
next
  case (Pushed e)
  with st show ?thesis by simp
next
  case (Popped p)
  with st show ?thesis by simp
next
  case (Popped_all p)
  with st show ?thesis by simp
qed

lemma al_inv_step:
  assumes inv: "al_inv s xs" and st: "al_step True t s s'"
  shows "\<exists>xs'. al_inv s' xs' \<and> stack_spec xs (al_event (al_next (al_mem s')) (al_thr s' t)) xs'"
  using st
proof (cases rule: al_step.cases)
  case (al_run pc spurious pc' m)
  then show ?thesis using al_inv_run [OF inv] by force
next
  case (al_return pc)
  then show ?thesis
    using al_inv_thread [OF inv, of None t] by (auto simp: al_event_def)
next
  case (al_call_push ys e)
  have "ys = xs" using lst_unique al_call_push al_invD(1) [OF inv] by blast
  with al_call_push show ?thesis
    using al_inv_thread [OF inv, of "Some (Push_load e)" t] by (auto simp: al_event_def)
next
  case al_call_pop
  then show ?thesis
    using al_inv_thread [OF inv, of "Some Pop_load" t] by (auto simp: al_event_def)
next
  case al_call_pop_all
  then show ?thesis
    using al_inv_thread [OF inv, of "Some Pop_all_load" t] by (auto simp: al_event_def)
qed

lemma al_inv_trace:
  assumes "al_trace True s evs s'" and "al_inv s xs"
  shows "\<exists>ys. stack_run xs evs ys \<and> al_inv s' ys"
  using assms
proof (induction arbitrary: xs rule: al_trace.induct)
  case (al_trace_nil s)
  then have "stack_run xs [] xs \<and> al_inv s xs" by simp
  then show ?case by blast
next
  case (al_trace_cons t s s' evs s'')
  from al_inv_step [OF al_trace_cons.prems al_trace_cons.hyps(1)]
  obtain xs' where xs': "al_inv s' xs'"
      "stack_spec xs (al_event (al_next (al_mem s')) (al_thr s' t)) xs'"
    by blast
  from al_trace_cons.IH [OF xs'(1)] obtain ys where "stack_run xs' evs ys \<and> al_inv s'' ys"
    by blast
  with xs'(2) show ?case by (metis stack_run.simps(2))
qed

lemma al_rest_inv: "al_rest s xs \<Longrightarrow> al_inv s xs"
  unfolding al_rest_def al_inv_def by simp

text \<open>C1: the lock-free list implements a stack.  Whatever the interleaving of any number
  of pushes with pops and with other pushes, and whichever weak compare-exchanges fail spuriously,
  as long as at most one thread pops at a time, every execution from a list at rest performs a
  legal sequence of stack operations, each taking effect at its successful compare-exchange (or at
  the load that finds the list empty), and the pointers always form the list of the abstract stack.\<close>

theorem awaiter_list_linearizable:
  assumes "al_rest s xs" and "al_trace True s evs s'"
  shows "\<exists>ys. stack_run xs evs ys \<and> lst (al_next (al_mem s')) (al_list (al_mem s')) ys"
proof -
  from al_inv_trace [OF assms(2) al_rest_inv [OF assms(1)]]
  obtain ys where "stack_run xs evs ys" "al_inv s' ys" by blast
  then show ?thesis using al_invD(1) [of s' ys] by blast
qed

subsection \<open>Calls that run without interference\<close>

fun al_exec :: "nat \<Rightarrow> al_pc \<Rightarrow> al_shared \<Rightarrow> al_pc \<times> al_shared" where
  "al_exec 0 pc m = (pc, m)"
| "al_exec (Suc n) pc m =
     (case al_tstep False pc m of None \<Rightarrow> (pc, m) | Some (pc', m') \<Rightarrow> al_exec n pc' m')"

lemma al_exec_push:
  "al_exec 3 (Push_load e) m =
     (Pushed e, case awaiter_list_push (al_list m, al_next m) e of (l, h) \<Rightarrow> m\<lparr>al_list := l, al_next := h\<rparr>)"
  by (cases m) (simp add: awaiter_list_push_def compare_exchange_def eval_nat_numeral)

lemma al_exec_pop:
  "al_exec 3 Pop_load m =
     (case awaiter_list_pop (al_list m, al_next m) of (w, l, h) \<Rightarrow>
        (Popped w, m\<lparr>al_list := l, al_next := h\<rparr>))"
  by (cases m; cases "al_list m")
    (simp_all add: awaiter_list_pop_def compare_exchange_def eval_nat_numeral)

lemma al_exec_pop_all:
  "al_exec 2 Pop_all_load m =
     (case awaiter_list_pop_all (al_list m, al_next m) of (w, l, h) \<Rightarrow>
        (Popped_all w, m\<lparr>al_list := l, al_next := h\<rparr>))"
  by (cases m; cases "al_list m")
    (simp_all add: awaiter_list_pop_all_def compare_exchange_def eval_nat_numeral)

subsection \<open>Reversal\<close>

lemma reverse_loop_lst:
  assumes "lst h cur xs" "lst h prev ys" "distinct (xs @ ys)"
  shows "\<exists>h' p. reverse_loop h cur prev = Some (p, h') \<and> lst h' p (rev xs @ ys) \<and>
     (\<forall>a. a \<notin> set xs \<longrightarrow> h' a = h a)"
  using assms
proof (induction xs arbitrary: h cur prev ys)
  case Nil
  then show ?case by (simp add: reverse_loop.simps)
next
  case (Cons x xs)
  from Cons.prems have "lst (h(x := prev)) (h x) xs" "lst (h(x := prev)) (Some x) (x # ys)"
      "distinct (xs @ x # ys)" by auto
  from Cons.IH [OF this] obtain h' p where
      "reverse_loop (h(x := prev)) (h x) (Some x) = Some (p, h')" "lst h' p (rev xs @ x # ys)"
      "\<forall>a. a \<notin> set xs \<longrightarrow> h' a = (h(x := prev)) a" by blast
  then show ?case using Cons.prems
    by (simp add: reverse_loop.simps [of h "Some x"])
qed

lemma awaiter_list_reverse_lst:
  assumes "lst h p xs"
  shows "\<exists>q h'. awaiter_list_reverse h p = Some (q, h') \<and> lst h' q (rev xs) \<and> (\<forall>a. a \<notin> set xs \<longrightarrow> h' a = h a)"
proof -
  have d: "distinct (xs @ [])" using lst_distinct [OF assms] by simp
  obtain q h' where rl: "reverse_loop h p None = Some (q, h')" "lst h' q (rev xs)" "\<forall>a. a \<notin> set xs \<longrightarrow> h' a = h a"
    using reverse_loop_lst [OF assms, of None "[]"] d by auto
  show ?thesis
  proof (cases p)
    case None
    then show ?thesis using assms by (simp add: awaiter_list_reverse_def)
  next
    case (Some c)
    then show ?thesis using assms rl
      by (cases "h c") (auto simp: awaiter_list_reverse_def lst_Some)
  qed
qed

subsection \<open>The interface of the stack\<close>

text \<open>
  What the components that own a list of awaiters rely on: \<open>contents l xs\<close> says that
  the list object \<open>l\<close> holds \<open>xs\<close>, most recent first.
\<close>

locale awaiter_stack =
  fixes contents :: "'l \<Rightarrow> addr list \<Rightarrow> bool"
    and push :: "'l \<Rightarrow> addr \<Rightarrow> 'l"
    and pop :: "'l \<Rightarrow> addr option \<times> 'l"
    and pop_all :: "'l \<Rightarrow> addr list \<times> 'l"
  assumes contents_push: "contents l xs \<Longrightarrow> e \<notin> set xs \<Longrightarrow> contents (push l e) (e # xs)"
    and contents_pop_empty: "contents l [] \<Longrightarrow> fst (pop l) = None \<and> contents (snd (pop l)) []"
    and contents_pop: "contents l (x # xs) \<Longrightarrow> fst (pop l) = Some x \<and> contents (snd (pop l)) xs"
    and contents_pop_all: "contents l xs \<Longrightarrow> fst (pop_all l) = xs \<and> contents (snd (pop_all l)) []"
begin

lemma push_many:
  "contents l xs \<Longrightarrow> distinct (es @ xs) \<Longrightarrow> contents (foldl push l es) (rev es @ xs)"
proof (induction es arbitrary: l xs)
  case Nil
  then show ?case by simp
next
  case (Cons e es)
  then have "contents (push l e) (e # xs)" by (intro contents_push) auto
  from Cons.IH [OF this] Cons.prems show ?case by simp
qed

text \<open>Waiters that arrive in the order \<open>es\<close> leave newest first.\<close>

lemma push_many_pop_all:
  "contents l [] \<Longrightarrow> distinct es \<Longrightarrow> fst (pop_all (foldl push l es)) = rev es"
  using push_many [of l "[]" es] contents_pop_all by auto

lemma pop_takes_newest:
  "contents l [] \<Longrightarrow> distinct (es @ [e]) \<Longrightarrow> fst (pop (foldl push l (es @ [e]))) = Some e"
  using push_many [of l "[]" "es @ [e]"] contents_pop [of _ e "rev es"] by auto

end

definition al_pop_all_list :: "ptr \<times> heap \<Rightarrow> addr list \<times> ptr \<times> heap" where
  "al_pop_all_list l =
     (case awaiter_list_pop_all l of (p, l') \<Rightarrow> (case resume_all (snd l) p [] of Some xs \<Rightarrow> (xs, l') | None \<Rightarrow> ([], l')))"

interpretation als: awaiter_stack "\<lambda>l. lst (snd l) (fst l)" awaiter_list_push awaiter_list_pop al_pop_all_list
proof
  fix l :: "ptr \<times> heap" and xs :: "addr list" and e :: addr
  assume "lst (snd l) (fst l) xs" "e \<notin> set xs"
  then show "lst (snd (awaiter_list_push l e)) (fst (awaiter_list_push l e)) (e # xs)"
    by (cases l) (simp add: awaiter_list_push_def)
next
  fix l :: "ptr \<times> heap"
  assume "lst (snd l) (fst l) []"
  then show "fst (awaiter_list_pop l) = None \<and> lst (snd (snd (awaiter_list_pop l))) (fst (snd (awaiter_list_pop l))) []"
    by (cases l) (simp add: awaiter_list_pop_def)
next
  fix l :: "ptr \<times> heap" and x xs
  assume "lst (snd l) (fst l) (x # xs)"
  then show "fst (awaiter_list_pop l) = Some x \<and> lst (snd (snd (awaiter_list_pop l))) (fst (snd (awaiter_list_pop l))) xs"
    by (cases l) (simp add: awaiter_list_pop_def)
next
  fix l :: "ptr \<times> heap" and xs
  assume "lst (snd l) (fst l) xs"
  then show "fst (al_pop_all_list l) = xs \<and> lst (snd (snd (al_pop_all_list l))) (fst (snd (al_pop_all_list l))) []"
    by (cases l; cases "fst l") (auto simp: al_pop_all_list_def awaiter_list_pop_all_def resume_all.simps [of _ None])
qed

subsection \<open>Two threads that pop\<close>

datatype al_act = Go bool | Call_push addr "addr list" | Call_pop

text \<open>A schedule is a list of threads and what each does next; \<open>Go True\<close> makes a weak compare-exchange fail.\<close>

fun al_act_step :: "al_sys \<Rightarrow> nat \<times> al_act \<Rightarrow> al_sys" where
  "al_act_step s (t, Go sp) =
     (case al_thr s t of
        None \<Rightarrow> s
      | Some pc \<Rightarrow>
          (case al_tstep sp pc (al_mem s) of
             None \<Rightarrow> s\<lparr>al_thr := (al_thr s)(t := None)\<rparr>
           | Some (pc', m) \<Rightarrow> s\<lparr>al_mem := m, al_thr := (al_thr s)(t := Some pc')\<rparr>))"
| "al_act_step s (t, Call_push e xs) = s\<lparr>al_thr := (al_thr s)(t := Some (Push_load e))\<rparr>"
| "al_act_step s (t, Call_pop) = s\<lparr>al_thr := (al_thr s)(t := Some Pop_load)\<rparr>"

fun al_act_ok :: "bool \<Rightarrow> al_sys \<Rightarrow> nat \<times> al_act \<Rightarrow> bool" where
  "al_act_ok excl s (t, Go sp) = (al_thr s t \<noteq> None)"
| "al_act_ok excl s (t, Call_push e xs) =
     (al_thr s t = None \<and> lst (al_next (al_mem s)) (al_list (al_mem s)) xs \<and> e \<notin> set xs \<and>
      (\<forall>u. pushing (al_thr s u) \<noteq> Some e))"
| "al_act_ok excl s (t, Call_pop) =
     (al_thr s t = None \<and> (excl \<longrightarrow> (\<forall>u. \<not> popping (al_thr s u) \<and> \<not> popping_all (al_thr s u))))"

primrec al_script :: "al_sys \<Rightarrow> (nat \<times> al_act) list \<Rightarrow> al_sys" where
  "al_script s [] = s"
| "al_script s (a # as) = al_script (al_act_step s a) as"

primrec al_script_ok :: "bool \<Rightarrow> al_sys \<Rightarrow> (nat \<times> al_act) list \<Rightarrow> bool" where
  "al_script_ok excl s [] = True"
| "al_script_ok excl s (a # as) = (al_act_ok excl s a \<and> al_script_ok excl (al_act_step s a) as)"

primrec al_script_events :: "al_sys \<Rightarrow> (nat \<times> al_act) list \<Rightarrow> stack_event list" where
  "al_script_events s [] = []"
| "al_script_events s (a # as) =
     (let s' = al_act_step s a
      in al_event (al_next (al_mem s')) (al_thr s' (fst a)) # al_script_events s' as)"

lemma al_tstep_None: "al_tstep sp pc m = None \<Longrightarrow> al_tstep False pc m = None"
  by (cases pc) (auto split: prod.splits)

lemma al_act_sound: "al_act_ok excl s a \<Longrightarrow> al_step excl (fst a) s (al_act_step s a)"
proof (cases a)
  case (Pair t act)
  assume ok: "al_act_ok excl s a"
  show ?thesis
  proof (cases act)
    case (Go sp)
    then show ?thesis using ok Pair
      by (auto split: option.splits intro: al_run al_return simp: al_tstep_None)
  qed (use ok Pair in \<open>auto intro!: al_call_pop intro: al_call_push\<close>)
qed

lemma al_script_sound: "al_script_ok excl s as \<Longrightarrow> al_trace excl s (al_script_events s as) (al_script s as)"
proof (induction as arbitrary: s)
  case Nil
  then show ?case by (simp add: al_trace_nil)
next
  case (Cons a as)
  then have "al_step excl (fst a) s (al_act_step s a)" by (simp add: al_act_sound)
  moreover have "al_trace excl (al_act_step s a) (al_script_events (al_act_step s a) as) (al_script (al_act_step s a) as)"
    using Cons by simp
  ultimately show ?case by (simp add: Let_def al_trace_cons)
qed

lemma al_script_events_step:
  "al_act_step s a = s' \<Longrightarrow> al_script_events s (a # as) =
     al_event (al_next (al_mem s')) (al_thr s' (fst a)) # al_script_events s' as"
  by (simp add: Let_def)

definition aba_start :: al_sys where
  "aba_start = \<lparr>al_mem = \<lparr>al_list = Some 1, al_next = (\<lambda>_. None)(1 := Some 2)\<rparr>, al_thr = \<lambda>_. None\<rparr>"

text \<open>
  Thread 0 loads the head 1 and its successor 2.  Thread 1 then pops 1, pops 2, and pushes 1
  again.  The compare-exchange of thread 0 succeeds and makes 2 the head, which
  thread 0 pops a second time.
\<close>

definition aba_script :: "(nat \<times> al_act) list" where
  "aba_script =
     [(0, Call_pop), (0, Go False), (0, Go False),
      (1, Call_pop), (1, Go False), (1, Go False), (1, Go False), (1, Go False),
      (1, Call_pop), (1, Go False), (1, Go False), (1, Go False), (1, Go False),
      (1, Call_push 1 []), (1, Go False), (1, Go False), (1, Go False), (1, Go False),
      (0, Go False), (0, Go False),
      (0, Call_pop), (0, Go False), (0, Go False), (0, Go False)]"

lemma aba_rest: "al_rest aba_start [1, 2]"
  by (simp add: al_rest_def aba_start_def)

lemma aba_script_ok: "al_script_ok False aba_start aba_script"
  unfolding aba_start_def aba_script_def
  by (simp add: compare_exchange_def)

lemma aba_events:
  "filter (\<lambda>e. e \<noteq> ESkip) (al_script_events aba_start aba_script) = [EPop 1, EPop 2, EPush 1, EPop 1, EPop 2]"
  unfolding aba_start_def aba_script_def
  by (simp add: compare_exchange_def al_event_def al_script_events_step del: al_script_events.simps(2))

lemma stack_run_skip: "stack_run xs (filter (\<lambda>e. e \<noteq> ESkip) es) ys = stack_run xs es ys"
  by (induction es arbitrary: xs) auto

text \<open>When two threads may pop the same list at the same time, the list is not a
  stack any more.  From a list holding the awaiters 1 and 2 there is an execution in which
  both are popped, 1 is pushed again, and then 1 and 2 are both popped: awaiter 2 is handed out
  twice although it was pushed once, and no run of the abstract stack has these events.\<close>

theorem awaiter_list_pop_aba:
  "\<exists>s evs s'. al_rest s [1, 2] \<and> al_trace False s evs s' \<and>
     filter (\<lambda>e. e \<noteq> ESkip) evs = [EPop 1, EPop 2, EPush 1, EPop 1, EPop 2] \<and>
     (\<forall>ys. \<not> stack_run [1, 2] evs ys)"
proof -
  have "\<not> stack_run [1, 2] (al_script_events aba_start aba_script) ys" for ys
    by (subst stack_run_skip [symmetric]) (simp add: aba_events)
  then show ?thesis
    using aba_rest al_script_sound [OF aba_script_ok] aba_events by blast
qed

definition lin_start :: al_sys where
  "lin_start = \<lparr>al_mem = \<lparr>al_list = Some 3, al_next = \<lambda>_. None\<rparr>, al_thr = \<lambda>_. None\<rparr>"

definition lin_script :: "(nat \<times> al_act) list" where
  "lin_script =
     [(0, Call_push 7 [3]), (0, Go False), (0, Go False),
      (1, Call_push 8 [3]), (1, Go False), (1, Go False), (1, Go True), (1, Go False), (1, Go False),
      (0, Go False), (2, Call_pop), (2, Go False), (0, Go False), (2, Go False), (0, Go False),
      (2, Go False), (2, Go False), (2, Go False)]"

theorem awaiter_list_linearizable_witness:
  "al_rest lin_start [3] \<and> al_script_ok True lin_start lin_script \<and>
   filter (\<lambda>e. e \<noteq> ESkip) (al_script_events lin_start lin_script) = [EPush 8, EPush 7, EPop 7] \<and>
   (\<exists>ys. stack_run [3] (al_script_events lin_start lin_script) ys \<and>
      lst (al_next (al_mem (al_script lin_start lin_script))) (al_list (al_mem (al_script lin_start lin_script))) ys)"
proof -
  have rest: "al_rest lin_start [3]" by (simp add: al_rest_def lin_start_def)
  have ok: "al_script_ok True lin_start lin_script"
    unfolding lin_start_def lin_script_def by (simp add: compare_exchange_def)
  have "filter (\<lambda>e. e \<noteq> ESkip) (al_script_events lin_start lin_script) = [EPush 8, EPush 7, EPop 7]"
    unfolding lin_start_def lin_script_def
    by (simp add: compare_exchange_def al_event_def al_script_events_step del: al_script_events.simps(2))
  with rest ok awaiter_list_linearizable [OF rest al_script_sound [OF ok]] show ?thesis by blast
qed

lemma push_many_frame: "a \<notin> set es \<Longrightarrow> snd (foldl awaiter_list_push l es) a = snd l a"
  by (induction es arbitrary: l) (auto simp: awaiter_list_push_def split: prod.splits)

text \<open>Arrival order is restored by \<open>awaiter_list_reverse\<close>.  When the awaiters \<open>es\<close> are pushed
  one after the other onto an empty list, taking the whole list with \<open>awaiter_list_pop_all\<close> leaves
  it empty, the reversal of what was taken always returns, the waker that walks the result meets
  exactly \<open>es\<close> in the order of arrival, and no \<open>m_next\<close> field of another awaiter has changed.\<close>

theorem awaiter_list_arrival_order:
  assumes "distinct es"
  shows "\<exists>p h' q h''. awaiter_list_pop_all (foldl awaiter_list_push (None, h) es) = (p, None, h') \<and>
     awaiter_list_reverse h' p = Some (q, h'') \<and> resume_all h'' q [] = Some es \<and>
     (\<forall>a. a \<notin> set es \<longrightarrow> h'' a = h a)"
proof -
  obtain p h' where ph: "foldl awaiter_list_push (None, h) es = (p, h')" by fastforce
  have "lst h' p (rev es)"
    using als.push_many [of "(None, h)" "[]" es] assms ph by simp
  moreover have "awaiter_list_pop_all (p, h') = (p, None, h')"
    by (cases p) (simp_all add: awaiter_list_pop_all_def)
  moreover have "a \<notin> set es \<Longrightarrow> h' a = h a" for a
    using push_many_frame [of a es "(None, h)"] ph by simp
  ultimately show ?thesis
    using awaiter_list_reverse_lst [of h' p "rev es"] ph by fastforce
qed

theorem awaiter_list_arrival_order_witness:
  "distinct [4, 9, 2 :: nat] \<and>
   (\<exists>p h' q h''. awaiter_list_pop_all (foldl awaiter_list_push (None, \<lambda>_. None) [4, 9, 2]) = (p, None, h') \<and>
     awaiter_list_reverse h' p = Some (q, h'') \<and> resume_all h'' q [] = Some [4, 9, 2] \<and>
     (\<forall>a. a \<notin> set [4, 9, 2] \<longrightarrow> h'' a = None))"
  using awaiter_list_arrival_order [of "[4, 9, 2]" "\<lambda>_. None"] by simp

end
