(* ===== verification/Mutex.thy ===== *)
theory Mutex
  imports AwaiterList
begin

text \<open>
  The mutex of \<open>include/coro/mutex.hpp\<close> and \<open>src/mutex.cpp\<close>.

  \<open>mx_tstep\<close> is the code of \<open>try_lock\<close>, \<open>lock_operation_base::await_ready\<close>, \<open>await_suspend\<close> and
  \<open>unlock\<close>, broken at every access to shared memory; \<open>mx_step\<close> interleaves any number of
  coroutines.  A coroutine and the \<open>lock_operation\<close> object in its frame have the same name.  A
  step that the language leaves undefined is the absence of a step.  The concrete system is shown
  to refine an abstract lock, and the sequential functions \<open>lock_await\<close> and \<open>unlock\<close> that the
  other components use are shown to be what the code does when it is not interrupted.
\<close>

section \<open>The mutex word\<close>

text \<open>
  \<open>m_state\<close> holds the address of the mutex itself when unlocked, \<open>nullptr\<close> when locked without
  waiters, and otherwise the newest waiter.
\<close>

datatype mword = Unlocked | Locked ptr

record mx_shared =
  m_state :: mword
  m_next :: heap
  m_awaiting_coroutine :: "addr \<Rightarrow> handle option"

section \<open>The code, one shared access at a time\<close>

datatype mx_pc =
    Idle
  | Try_lock
  | Await_ready
  | Susp_load
  | Susp_lock_cas
  | Susp_next ptr
  | Susp_cas ptr
  | Waiting
  | Holding
  | Unlock_load
  | Unlock_cas
  | Unlock_pop al_pc
  | Unlock_resume ptr
  | Threw exn

definition mutex_init :: mx_shared where
  "mutex_init = \<lparr>m_state = Unlocked, m_next = \<lambda>_. None, m_awaiting_coroutine = \<lambda>_. None\<rparr>"

text \<open>The branches on the value that was read last; they touch no shared memory.\<close>

fun susp_test :: "mword \<Rightarrow> mx_pc" where
  "susp_test Unlocked = Susp_lock_cas"
| "susp_test (Locked p) = Susp_next p"

fun unlock_test :: "mword \<Rightarrow> mx_pc" where
  "unlock_test Unlocked = Threw (Runtime_error ''coro::mutex is already unlocked'')"
| "unlock_test (Locked None) = Unlock_cas"
| "unlock_test (Locked (Some w)) = Unlock_pop Pop_load"

text \<open>
  A call of \<open>awaiter_list_pop\<close> on \<open>m_state\<close> seen as a list head.  On an unlocked mutex the head
  would be the mutex itself, whose \<open>m_next\<close> does not exist: no step.
\<close>

fun unlock_pop :: "bool \<Rightarrow> al_pc \<Rightarrow> mx_shared \<Rightarrow> (mx_pc \<times> mx_shared) option" where
  "unlock_pop spurious pc m =
     (case m_state m of
        Unlocked \<Rightarrow> None
      | Locked p \<Rightarrow>
          (case al_tstep spurious pc \<lparr>al_list = p, al_next = m_next m\<rparr> of
             None \<Rightarrow> None
           | Some (Popped w, l) \<Rightarrow> Some (Unlock_resume w, m\<lparr>m_state := Locked (al_list l), m_next := al_next l\<rparr>)
           | Some (pc', l) \<Rightarrow> Some (Unlock_pop pc', m\<lparr>m_state := Locked (al_list l), m_next := al_next l\<rparr>)))"

fun mx_tstep :: "bool \<Rightarrow> handle \<Rightarrow> mx_pc \<Rightarrow> mx_shared \<Rightarrow> (mx_pc \<times> mx_shared) option" where
  "mx_tstep spurious t Try_lock m =
     (case compare_exchange False (m_state m) Unlocked (Locked None) of
        (ok, _, v) \<Rightarrow> Some (if ok then Holding else Idle, m\<lparr>m_state := v\<rparr>))"
| "mx_tstep spurious t Await_ready m =
     (case compare_exchange False (m_state m) Unlocked (Locked None) of
        (ok, _, v) \<Rightarrow> Some (if ok then Holding else Susp_load, m\<lparr>m_state := v\<rparr>))"
| "mx_tstep spurious t Susp_load m =
     Some (susp_test (m_state m), m\<lparr>m_awaiting_coroutine := (m_awaiting_coroutine m)(t := Some t)\<rparr>)"
| "mx_tstep spurious t Susp_lock_cas m =
     (case compare_exchange spurious (m_state m) Unlocked (Locked None) of
        (ok, current, v) \<Rightarrow>
          if ok then Some (Holding, m\<lparr>m_state := v, m_awaiting_coroutine := (m_awaiting_coroutine m)(t := None)\<rparr>)
          else Some (susp_test current, m\<lparr>m_state := v\<rparr>))"
| "mx_tstep spurious t (Susp_next current) m =
     Some (Susp_cas current, m\<lparr>m_next := (m_next m)(t := current)\<rparr>)"
| "mx_tstep spurious t (Susp_cas current) m =
     (case compare_exchange spurious (m_state m) (Locked current) (Locked (Some t)) of
        (ok, current', v) \<Rightarrow> Some (if ok then Waiting else susp_test current', m\<lparr>m_state := v\<rparr>))"
| "mx_tstep spurious t Unlock_load m = Some (unlock_test (m_state m), m)"
| "mx_tstep spurious t Unlock_cas m =
     (case compare_exchange spurious (m_state m) (Locked None) Unlocked of
        (ok, current, v) \<Rightarrow> Some (if ok then Idle else unlock_test current, m\<lparr>m_state := v\<rparr>))"
| "mx_tstep spurious t (Unlock_pop pc) m = unlock_pop spurious pc m"
| "mx_tstep spurious t Idle m = None"
| "mx_tstep spurious t Waiting m = None"
| "mx_tstep spurious t Holding m = None"
| "mx_tstep spurious t (Unlock_resume p) m = None"
| "mx_tstep spurious t (Threw e) m = None"

record mx_sys =
  mx_mem :: mx_shared
  mx_thr :: "handle \<Rightarrow> mx_pc"

text \<open>
  Coroutines lock when they are idle and unlock what they hold; \<open>mx_wake\<close> is
  \<open>waiter->m_awaiting_coroutine.resume()\<close>.
\<close>

inductive mx_step :: "handle \<Rightarrow> mx_sys \<Rightarrow> mx_sys \<Rightarrow> bool" where
  mx_run: "mx_tstep spurious t (mx_thr s t) (mx_mem s) = Some (pc', m) \<Longrightarrow>
     mx_step t s (s\<lparr>mx_mem := m, mx_thr := (mx_thr s)(t := pc')\<rparr>)"
| mx_wake: "mx_thr s t = Unlock_resume (Some w) \<Longrightarrow> m_awaiting_coroutine (mx_mem s) w = Some c \<Longrightarrow>
     mx_thr s c = Waiting \<Longrightarrow> mx_step t s (s\<lparr>mx_thr := (mx_thr s)(t := Idle, c := Holding)\<rparr>)"
| mx_call_lock: "mx_thr s t = Idle \<Longrightarrow> mx_step t s (s\<lparr>mx_thr := (mx_thr s)(t := Await_ready)\<rparr>)"
| mx_call_try_lock: "mx_thr s t = Idle \<Longrightarrow> mx_step t s (s\<lparr>mx_thr := (mx_thr s)(t := Try_lock)\<rparr>)"
| mx_call_unlock: "mx_thr s t = Holding \<Longrightarrow> mx_step t s (s\<lparr>mx_thr := (mx_thr s)(t := Unlock_load)\<rparr>)"

definition mx_init :: "mx_sys \<Rightarrow> bool" where
  "mx_init s \<longleftrightarrow> s = \<lparr>mx_mem = mutex_init, mx_thr = \<lambda>_. Idle\<rparr>"

fun owns :: "mx_pc \<Rightarrow> bool" where
  "owns Holding = True"
| "owns Unlock_load = True"
| "owns Unlock_cas = True"
| "owns (Unlock_pop pc) = True"
| "owns (Unlock_resume p) = True"
| "owns pc = False"

section \<open>The invariant\<close>

fun pop_ok :: "heap \<Rightarrow> addr list \<Rightarrow> al_pc \<Rightarrow> bool" where
  "pop_ok h xs Pop_load = True"
| "pop_ok h xs (Pop_next w) = (w \<in> set xs)"
| "pop_ok h xs (Pop_cas w n) = (w \<in> set xs \<and> h w = n)"
| "pop_ok h xs pc = False"

fun mx_local :: "mx_sys \<Rightarrow> addr list \<Rightarrow> handle \<Rightarrow> mx_pc \<Rightarrow> bool" where
  "mx_local s xs t Waiting =
     (m_awaiting_coroutine (mx_mem s) t = Some t \<and> (t \<in> set xs \<or> (\<exists>u. mx_thr s u = Unlock_resume (Some t))))"
| "mx_local s xs t Susp_lock_cas = (t \<notin> set xs \<and> m_awaiting_coroutine (mx_mem s) t = Some t)"
| "mx_local s xs t (Susp_next c) = (t \<notin> set xs \<and> m_awaiting_coroutine (mx_mem s) t = Some t)"
| "mx_local s xs t (Susp_cas c) =
     (t \<notin> set xs \<and> m_awaiting_coroutine (mx_mem s) t = Some t \<and> m_next (mx_mem s) t = c)"
| "mx_local s xs t (Unlock_pop pc) = (t \<notin> set xs \<and> xs \<noteq> [] \<and> pop_ok (m_next (mx_mem s)) xs pc)"
| "mx_local s xs t (Unlock_resume p) = (t \<notin> set xs \<and> (\<exists>w. p = Some w \<and> w \<notin> set xs \<and> mx_thr s w = Waiting))"
| "mx_local s xs t (Threw e) = False"
| "mx_local s xs t pc = (t \<notin> set xs)"

definition mx_word_ok :: "mx_sys \<Rightarrow> addr list \<Rightarrow> bool" where
  "mx_word_ok s xs =
     (case m_state (mx_mem s) of
        Unlocked \<Rightarrow> xs = [] \<and> (\<forall>t. \<not> owns (mx_thr s t))
      | Locked p \<Rightarrow> lst (m_next (mx_mem s)) p xs \<and> (\<exists>t. owns (mx_thr s t)))"

definition mx_inv :: "mx_sys \<Rightarrow> addr list \<Rightarrow> bool" where
  "mx_inv s xs \<longleftrightarrow> mx_word_ok s xs \<and> (\<forall>t. mx_local s xs t (mx_thr s t)) \<and>
     (\<forall>t u. owns (mx_thr s t) \<longrightarrow> owns (mx_thr s u) \<longrightarrow> t = u)"

section \<open>The abstract lock\<close>

text \<open>Who owns the lock, and who waits for it, newest first.\<close>

datatype alock = Free | Held handle "handle list"

inductive alock_step :: "alock \<Rightarrow> alock \<Rightarrow> bool" where
  alock_skip: "alock_step a a"
| alock_acquire: "alock_step Free (Held t [])"
| alock_wait: "w \<noteq> t \<Longrightarrow> w \<notin> set ws \<Longrightarrow> alock_step (Held t ws) (Held t (w # ws))"
| alock_release: "alock_step (Held t []) Free"
| alock_handoff: "alock_step (Held t (w # ws)) (Held w ws)"

fun owner_is :: "mx_pc \<Rightarrow> handle \<Rightarrow> handle \<Rightarrow> bool" where
  "owner_is (Unlock_resume p) t ow = (p = Some ow)"
| "owner_is pc t ow = (owns pc \<and> ow = t)"

fun mx_abs :: "mx_sys \<Rightarrow> addr list \<Rightarrow> alock \<Rightarrow> bool" where
  "mx_abs s xs Free = (m_state (mx_mem s) = Unlocked)"
| "mx_abs s xs (Held ow ws) =
     (m_state (mx_mem s) \<noteq> Unlocked \<and> ws = xs \<and> (\<exists>t. owner_is (mx_thr s t) t ow))"

text \<open>The concrete state and the abstract lock it stands for.\<close>

definition mx_rel :: "mx_sys \<Rightarrow> alock \<Rightarrow> bool" where
  "mx_rel s a \<longleftrightarrow> (\<exists>xs. mx_inv s xs \<and> mx_abs s xs a)"

text \<open>
  The contract of a lock, which says nothing about the order of the waiters: it is taken when it is
  free, it becomes free only when nobody waits, and otherwise it passes to one of those who wait.
\<close>

datatype slock = Available | Taken handle "handle set"

inductive slock_step :: "slock \<Rightarrow> slock \<Rightarrow> bool" where
  slock_skip: "slock_step a a"
| slock_acquire: "slock_step Available (Taken t {})"
| slock_wait: "w \<noteq> t \<Longrightarrow> w \<notin> W \<Longrightarrow> slock_step (Taken t W) (Taken t (insert w W))"
| slock_release: "slock_step (Taken t {}) Available"
| slock_handoff: "w \<in> W \<Longrightarrow> slock_step (Taken t W) (Taken w (W - {w}))"

fun slock_of :: "alock \<Rightarrow> slock" where
  "slock_of Free = Available"
| "slock_of (Held t ws) = Taken t (set ws)"

definition mx_lock :: "mx_sys \<Rightarrow> slock \<Rightarrow> bool" where
  "mx_lock s l \<longleftrightarrow> (\<exists>a. mx_rel s a \<and> l = slock_of a)"

section \<open>A call without interference\<close>

text \<open>
  The mutex as its clients see it: unlocked, or locked with the waiting coroutines, newest first.
  \<open>lock_await\<close> is \<open>co_await m.lock()\<close>; its flag says whether the caller suspends.  \<open>unlock\<close>
  returns the coroutine that is resumed as the new owner, if there is one.
\<close>

datatype cmutex = CUnlocked | CLocked "handle list"

fun try_lock :: "cmutex \<Rightarrow> bool \<times> cmutex" where
  "try_lock CUnlocked = (True, CLocked [])"
| "try_lock (CLocked ws) = (False, CLocked ws)"

fun await_suspend :: "cmutex \<Rightarrow> handle \<Rightarrow> bool \<times> cmutex" where
  "await_suspend CUnlocked t = (False, CLocked [])"
| "await_suspend (CLocked ws) t = (True, CLocked (t # ws))"

definition lock_await :: "cmutex \<Rightarrow> handle \<Rightarrow> bool \<times> cmutex" where
  "lock_await c t = (case try_lock c of (True, c') \<Rightarrow> (False, c') | (False, c') \<Rightarrow> await_suspend c' t)"

fun unlock :: "cmutex \<Rightarrow> (handle option \<times> cmutex) result" where
  "unlock CUnlocked = Inl (Runtime_error ''coro::mutex is already unlocked'')"
| "unlock (CLocked []) = Inr (None, CUnlocked)"
| "unlock (CLocked (w # ws)) = Inr (Some w, CLocked ws)"

fun mx_view :: "mx_shared \<Rightarrow> cmutex \<Rightarrow> bool" where
  "mx_view m CUnlocked = (m_state m = Unlocked)"
| "mx_view m (CLocked ws) = (\<exists>p. m_state m = Locked p \<and> lst (m_next m) p ws)"

fun mx_exec :: "nat \<Rightarrow> handle \<Rightarrow> mx_pc \<Rightarrow> mx_shared \<Rightarrow> mx_pc \<times> mx_shared" where
  "mx_exec 0 t pc m = (pc, m)"
| "mx_exec (Suc n) t pc m =
     (case mx_tstep False t pc m of None \<Rightarrow> (pc, m) | Some (pc', m') \<Rightarrow> mx_exec n t pc' m')"

fun unlock_pc :: "(handle option \<times> cmutex) result \<Rightarrow> mx_pc" where
  "unlock_pc (Inl e) = Threw e"
| "unlock_pc (Inr (None, c)) = Idle"
| "unlock_pc (Inr (Some w, c)) = Unlock_resume (Some w)"

section \<open>The scoped lock\<close>

text \<open>Mutexes live at addresses; a scoped lock is the pointer \<open>m_mutex\<close>.\<close>

record scoped_lock =
  sl_mutex :: "addr option"

type_synonym mutexes = "addr \<Rightarrow> cmutex"

definition scoped_lock_new :: "addr \<Rightarrow> scoped_lock" where
  "scoped_lock_new m = \<lparr>sl_mutex = Some m\<rparr>"

definition scoped_lock_unlock :: "mutexes \<Rightarrow> scoped_lock \<Rightarrow> (handle option \<times> mutexes \<times> scoped_lock) result" where
  "scoped_lock_unlock ms l =
     (case sl_mutex l of
        None \<Rightarrow> Inr (None, ms, l)
      | Some m \<Rightarrow>
          (case unlock (ms m) of
             Inl e \<Rightarrow> Inl e
           | Inr (w, c) \<Rightarrow> Inr (w, ms(m := c), l\<lparr>sl_mutex := None\<rparr>)))"

definition scoped_lock_destroy :: "mutexes \<Rightarrow> scoped_lock \<Rightarrow> (handle option \<times> mutexes) result" where
  "scoped_lock_destroy ms l =
     (case scoped_lock_unlock ms l of Inl e \<Rightarrow> Inl e | Inr (w, ms', _) \<Rightarrow> Inr (w, ms'))"

text \<open>The new object and what is left of the argument.\<close>

definition scoped_lock_move :: "scoped_lock \<Rightarrow> scoped_lock \<times> scoped_lock" where
  "scoped_lock_move other = (\<lparr>sl_mutex = sl_mutex other\<rparr>, other\<lparr>sl_mutex := None\<rparr>)"

text \<open>Assignment between the scoped locks at the addresses \<open>this\<close> and \<open>other\<close>.\<close>

definition scoped_lock_move_assign :: "(addr \<Rightarrow> scoped_lock) \<Rightarrow> addr \<Rightarrow> addr \<Rightarrow> addr \<Rightarrow> scoped_lock" where
  "scoped_lock_move_assign ls this other =
     (if other \<noteq> this
      then ls(this := (ls this)\<lparr>sl_mutex := sl_mutex (ls other)\<rparr>, other := (ls other)\<lparr>sl_mutex := None\<rparr>)
      else ls)"

section \<open>Lemmas\<close>

lemma mx_same [simp]: "m\<lparr>m_state := m_state m\<rparr> = m" "s\<lparr>mx_mem := mx_mem s, mx_thr := f\<rparr> = s\<lparr>mx_thr := f\<rparr>"
  by (cases m; cases s; simp)+

lemma mx_invD:
  assumes "mx_inv s xs"
  shows "mx_word_ok s xs" and "mx_local s xs t (mx_thr s t)"
    and "owns (mx_thr s t) \<Longrightarrow> owns (mx_thr s u) \<Longrightarrow> t = u"
  using assms unfolding mx_inv_def by blast+

text \<open>What a step of \<open>t\<close> leaves of the other coroutines.\<close>

lemma mx_local_frame:
  assumes "mx_local s xs u pc" and "u \<noteq> t" and "xs' = xs \<or> xs' = t # xs"
    and "m_awaiting_coroutine m u = m_awaiting_coroutine (mx_mem s) u"
    and "m_next m u = m_next (mx_mem s) u" and "\<forall>w\<in>set xs. m_next m w = m_next (mx_mem s) w"
    and "mx_thr s t \<noteq> Waiting" and "\<forall>p. mx_thr s t \<noteq> Unlock_resume p"
  shows "mx_local (s\<lparr>mx_mem := m, mx_thr := (mx_thr s)(t := pc')\<rparr>) xs' u pc"
proof (cases pc)
  case (Unlock_pop apc)
  then show ?thesis using assms by (cases apc) auto
next
  case Waiting
  then show ?thesis using assms by auto
next
  case (Unlock_resume p)
  then show ?thesis using assms by auto
qed (use assms in auto)

lemma mx_inv_run:
  assumes inv: "mx_inv s xs" and xs': "xs' = xs \<or> xs' = t # xs"
    and frame: "\<forall>u. u \<noteq> t \<longrightarrow> m_awaiting_coroutine m u = m_awaiting_coroutine (mx_mem s) u \<and> m_next m u = m_next (mx_mem s) u"
    and pc: "mx_thr s t \<noteq> Waiting" "\<forall>p. mx_thr s t \<noteq> Unlock_resume p"
    and word: "mx_word_ok (s\<lparr>mx_mem := m, mx_thr := (mx_thr s)(t := pc')\<rparr>) xs'"
    and local: "mx_local (s\<lparr>mx_mem := m, mx_thr := (mx_thr s)(t := pc')\<rparr>) xs' t pc'"
    and own: "owns pc' \<Longrightarrow> owns (mx_thr s t) \<or> (\<forall>u. \<not> owns (mx_thr s u))"
    and tin: "t \<in> set xs \<Longrightarrow> m_next m t = m_next (mx_mem s) t"
  shows "mx_inv (s\<lparr>mx_mem := m, mx_thr := (mx_thr s)(t := pc')\<rparr>) xs'" (is "mx_inv ?s xs'")
proof -
  have "mx_local ?s xs' u (mx_thr ?s u)" for u
  proof (cases "u = t")
    case True
    then show ?thesis using local by simp
  next
    case False
    have "\<forall>w\<in>set xs. m_next m w = m_next (mx_mem s) w" using frame tin by metis
    with False show ?thesis
      using mx_local_frame [OF mx_invD(2) [OF inv, of u] False xs'] frame pc by simp
  qed
  moreover have "u = v" if "owns (mx_thr ?s u)" "owns (mx_thr ?s v)" for u v
    using that own mx_invD(3) [OF inv] by (auto split: if_splits)
  ultimately show ?thesis using word unfolding mx_inv_def by blast
qed

text \<open>A step that changes nothing but the program counter of \<open>t\<close>.\<close>

lemma mx_inv_pc:
  assumes inv: "mx_inv s xs"
    and pc: "mx_thr s t \<noteq> Waiting" "\<forall>p. mx_thr s t \<noteq> Unlock_resume p"
    and own: "owns pc' = owns (mx_thr s t)"
    and local: "mx_local (s\<lparr>mx_thr := (mx_thr s)(t := pc')\<rparr>) xs t pc'"
  shows "mx_inv (s\<lparr>mx_thr := (mx_thr s)(t := pc')\<rparr>) xs"
proof -
  have "mx_word_ok (s\<lparr>mx_thr := (mx_thr s)(t := pc')\<rparr>) xs"
    using mx_invD(1) [OF inv] own by (auto simp: mx_word_ok_def split: mword.splits if_splits)
  with assms show ?thesis
    using mx_inv_run [OF inv, of xs t "mx_mem s" pc'] by simp
qed

lemma mx_owner_locked: "mx_inv s xs \<Longrightarrow> owns (mx_thr s t) \<Longrightarrow> \<exists>p. m_state (mx_mem s) = Locked p \<and> lst (m_next (mx_mem s)) p xs"
  using mx_invD(1) [of s xs] by (auto simp: mx_word_ok_def split: mword.splits)

lemma owner_is_owns: "owner_is pc t ow \<Longrightarrow> owns pc"
  by (cases pc) auto

lemma owner_is_self: "owns pc \<Longrightarrow> (\<forall>p. pc \<noteq> Unlock_resume p) \<Longrightarrow> owner_is pc t ow = (ow = t)"
  by (cases pc) auto

lemma mx_abs_thread:
  assumes "mx_abs s xs a" and "m_state m = m_state (mx_mem s)"
    and "owns pc' = owns (mx_thr s t)" and "\<forall>p. mx_thr s t \<noteq> Unlock_resume p" "\<forall>p. pc' \<noteq> Unlock_resume p"
  shows "mx_abs (s\<lparr>mx_mem := m, mx_thr := (mx_thr s)(t := pc')\<rparr>) xs a"
proof (cases a)
  case Free
  then show ?thesis using assms by simp
next
  case (Held ow ws)
  with assms(1) obtain u where u: "owner_is (mx_thr s u) u ow" by auto
  have "owner_is (((mx_thr s)(t := pc')) u) u ow"
    using u assms owner_is_self [of pc' t ow] owner_is_self [of "mx_thr s t" t ow] owner_is_owns [OF u]
    by (cases "u = t") auto
  then have "\<exists>u. owner_is (((mx_thr s)(t := pc')) u) u ow" by blast
  then show ?thesis using assms Held by (simp del: fun_upd_apply)
qed

lemma mx_rel_pc:
  assumes "mx_inv s xs" and "mx_abs s xs a"
    and "mx_thr s t \<noteq> Waiting" "\<forall>p. mx_thr s t \<noteq> Unlock_resume p" "\<forall>p. pc' \<noteq> Unlock_resume p"
    and "owns pc' = owns (mx_thr s t)"
    and "mx_local (s\<lparr>mx_thr := (mx_thr s)(t := pc')\<rparr>) xs t pc'"
  shows "mx_rel (s\<lparr>mx_thr := (mx_thr s)(t := pc')\<rparr>) a"
  using mx_inv_pc [OF assms(1,3,4,6,7)] mx_abs_thread [OF assms(2), of "mx_mem s" pc' t] assms
  unfolding mx_rel_def by auto

text \<open>Taking a free lock.\<close>

lemma mx_rel_acquire:
  assumes inv: "mx_inv s xs" and abs: "mx_abs s xs a" and st: "m_state (mx_mem s) = Unlocked"
    and pc: "mx_thr s t \<in> {Try_lock, Await_ready, Susp_lock_cas}"
    and m: "m_state m = Locked None" "m_next m = m_next (mx_mem s)"
      "\<forall>u. u \<noteq> t \<longrightarrow> m_awaiting_coroutine m u = m_awaiting_coroutine (mx_mem s) u"
  shows "\<exists>a'. mx_rel (s\<lparr>mx_mem := m, mx_thr := (mx_thr s)(t := Holding)\<rparr>) a' \<and> alock_step a a'"
proof -
  let ?s = "s\<lparr>mx_mem := m, mx_thr := (mx_thr s)(t := Holding)\<rparr>"
  have free: "xs = []" "\<forall>u. \<not> owns (mx_thr s u)"
    using mx_invD(1) [OF inv] st by (auto simp: mx_word_ok_def)
  have "mx_word_ok ?s []" using m free by (auto simp: mx_word_ok_def)
  then have "mx_inv ?s []" using mx_inv_run [OF inv, of "[]" t m Holding] free m pc by auto
  moreover have "mx_abs ?s [] (Held t [])" using m by auto
  moreover have "a = Free" using abs st by (cases a) auto
  ultimately show ?thesis unfolding mx_rel_def using alock_acquire by blast
qed

text \<open>Entering the list of waiters.\<close>

lemma mx_rel_enqueue:
  assumes inv: "mx_inv s xs" and abs: "mx_abs s xs a"
    and pc: "mx_thr s t = Susp_cas c" and st: "m_state (mx_mem s) = Locked c"
  shows "\<exists>a'. mx_rel (s\<lparr>mx_mem := (mx_mem s)\<lparr>m_state := Locked (Some t)\<rparr>, mx_thr := (mx_thr s)(t := Waiting)\<rparr>) a' \<and>
     alock_step a a'"
proof -
  let ?s = "s\<lparr>mx_mem := (mx_mem s)\<lparr>m_state := Locked (Some t)\<rparr>, mx_thr := (mx_thr s)(t := Waiting)\<rparr>"
  have loc: "t \<notin> set xs" "m_awaiting_coroutine (mx_mem s) t = Some t" "m_next (mx_mem s) t = c"
    using mx_invD(2) [OF inv, of t] pc by auto
  have l: "lst (m_next (mx_mem s)) c xs" and "\<exists>u. owns (mx_thr s u)"
    using mx_invD(1) [OF inv] st by (auto simp: mx_word_ok_def)
  then obtain v where "owns (mx_thr s v)" "v \<noteq> t" using pc by fastforce
  then have "mx_word_ok ?s (t # xs)" using loc l by (auto simp: mx_word_ok_def)
  then have inv': "mx_inv ?s (t # xs)"
    using mx_inv_run [OF inv, of "t # xs" t _ Waiting] loc pc by auto
  obtain ow where a: "a = Held ow xs" and ow: "\<exists>u. owner_is (mx_thr s u) u ow"
    using abs st by (cases a) auto
  then obtain u where u: "owner_is (mx_thr s u) u ow" by blast
  have ut: "u \<noteq> t" using u pc by auto
  have "ow \<noteq> t"
  proof (cases "\<exists>p. mx_thr s u = Unlock_resume p")
    case True
    then have "mx_thr s ow = Waiting" using u mx_invD(2) [OF inv, of u] by auto
    then show ?thesis using pc by auto
  next
    case False
    then show ?thesis using u ut owner_is_self [OF owner_is_owns [OF u]] by simp
  qed
  then have "alock_step a (Held ow (t # xs))" using a loc alock_wait by auto
  moreover have "mx_abs ?s (t # xs) (Held ow (t # xs))" using u ut by auto
  ultimately show ?thesis using inv' unfolding mx_rel_def by blast
qed

text \<open>Releasing a lock that nobody waits for.\<close>

lemma mx_rel_release:
  assumes inv: "mx_inv s xs" and abs: "mx_abs s xs a"
    and pc: "mx_thr s t = Unlock_cas" and st: "m_state (mx_mem s) = Locked None"
  shows "\<exists>a'. mx_rel (s\<lparr>mx_mem := (mx_mem s)\<lparr>m_state := Unlocked\<rparr>, mx_thr := (mx_thr s)(t := Idle)\<rparr>) a' \<and>
     alock_step a a'"
proof -
  let ?s = "s\<lparr>mx_mem := (mx_mem s)\<lparr>m_state := Unlocked\<rparr>, mx_thr := (mx_thr s)(t := Idle)\<rparr>"
  have xs: "xs = []" using mx_owner_locked [OF inv, of t] pc st by auto
  have "u = t" if "owns (mx_thr s u)" for u using mx_invD(3) [OF inv that, of t] pc by simp
  then have "mx_word_ok ?s []" by (auto simp: mx_word_ok_def)
  then have "mx_inv ?s []" using mx_inv_run [OF inv, of "[]" t _ Idle] xs pc by auto
  moreover have "mx_abs ?s [] Free" by simp
  moreover obtain ow where "a = Held ow []" using abs st xs by (cases a) auto
  ultimately show ?thesis unfolding mx_rel_def using alock_release by blast
qed

text \<open>Handing the lock to the newest waiter.\<close>

lemma mx_rel_handoff:
  assumes inv: "mx_inv s xs" and abs: "mx_abs s xs a"
    and pc: "mx_thr s t = Unlock_pop (Pop_cas w n)" and st: "m_state (mx_mem s) = Locked (Some w)"
  shows "\<exists>a'. mx_rel (s\<lparr>mx_mem := (mx_mem s)\<lparr>m_state := Locked n\<rparr>, mx_thr := (mx_thr s)(t := Unlock_resume (Some w))\<rparr>) a' \<and>
     alock_step a a'"
proof -
  let ?s = "s\<lparr>mx_mem := (mx_mem s)\<lparr>m_state := Locked n\<rparr>, mx_thr := (mx_thr s)(t := Unlock_resume (Some w))\<rparr>"
  have l: "lst (m_next (mx_mem s)) (Some w) xs" using mx_owner_locked [OF inv, of t] pc st by auto
  have n: "m_next (mx_mem s) w = n" "t \<notin> set xs" using mx_invD(2) [OF inv, of t] pc by auto
  obtain ws where ws: "xs = w # ws" "lst (m_next (mx_mem s)) n ws" using l n by (auto simp: lst_Some)
  have w: "w \<notin> set ws" using lst_distinct [OF l] ws by simp
  have waits: "mx_thr s w = Waiting" using mx_invD(2) [OF inv, of w] ws by (cases "mx_thr s w") auto
  have only: "u = t" if "owns (mx_thr s u)" for u using mx_invD(3) [OF inv that, of t] pc by simp
  have "mx_word_ok ?s ws" using ws by (auto simp: mx_word_ok_def)
  moreover have "mx_local ?s ws u (mx_thr ?s u)" for u
  proof (cases "u = t")
    case True
    then show ?thesis using w waits n ws pc by auto
  next
    case False
    then have "\<not> owns (mx_thr s u)" using only by blast
    moreover have "mx_thr s v \<noteq> Unlock_resume p" for v p using only [of v] pc by auto
    ultimately show ?thesis using mx_invD(2) [OF inv, of u] False ws pc by (cases "mx_thr s u") auto
  qed
  moreover have "u = v" if "owns (mx_thr ?s u)" "owns (mx_thr ?s v)" for u v
    using that only by (auto split: if_splits)
  ultimately have "mx_inv ?s ws" unfolding mx_inv_def by blast
  moreover have "mx_abs ?s ws (Held w ws)" by auto
  moreover obtain ow where "a = Held ow (w # ws)" using abs st ws by (cases a) auto
  ultimately show ?thesis unfolding mx_rel_def using alock_handoff by blast
qed

lemma mx_rel_wake:
  assumes inv: "mx_inv s xs" and abs: "mx_abs s xs a"
    and pc: "mx_thr s t = Unlock_resume (Some w)" and c: "m_awaiting_coroutine (mx_mem s) w = Some c"
  shows "mx_rel (s\<lparr>mx_thr := (mx_thr s)(t := Idle, c := Holding)\<rparr>) a"
proof -
  let ?s = "s\<lparr>mx_thr := (mx_thr s)(t := Idle, c := Holding)\<rparr>"
  have w: "w \<notin> set xs" "mx_thr s w = Waiting" "t \<notin> set xs" using mx_invD(2) [OF inv, of t] pc by auto
  have cw: "c = w" "w \<noteq> t" using mx_invD(2) [OF inv, of w] w c pc by auto
  have only: "u = t" if "owns (mx_thr s u)" for u using mx_invD(3) [OF inv that, of t] pc by simp
  obtain p where p: "m_state (mx_mem s) = Locked p" "lst (m_next (mx_mem s)) p xs"
    using mx_owner_locked [OF inv, of t] pc by auto
  then have "mx_word_ok ?s xs" using cw by (auto simp: mx_word_ok_def)
  moreover have "mx_local ?s xs u (mx_thr ?s u)" for u
  proof (cases "u = t \<or> u = c")
    case True
    then show ?thesis using w cw by auto
  next
    case False
    then have "\<not> owns (mx_thr s u)" using only by blast
    moreover have "mx_thr s v \<noteq> Unlock_resume (Some u)" for v using only [of v] pc cw False by auto
    ultimately show ?thesis using mx_invD(2) [OF inv, of u] False cw by (cases "mx_thr s u") auto
  qed
  moreover have "u = v" if "owns (mx_thr ?s u)" "owns (mx_thr ?s v)" for u v
    using that only by (auto split: if_splits)
  ultimately have "mx_inv ?s xs" unfolding mx_inv_def by blast
  moreover have "mx_abs ?s xs a"
  proof (cases a)
    case Free
    then show ?thesis using abs by simp
  next
    case (Held ow ws)
    with abs obtain u where "owner_is (mx_thr s u) u ow" by auto
    then have "ow = w" using only [of u] owner_is_owns pc by auto
    then have "\<exists>u. owner_is (mx_thr ?s u) u ow" using cw by (intro exI [of _ w]) simp
    then show ?thesis using Held abs by simp
  qed
  ultimately show ?thesis unfolding mx_rel_def by blast
qed

lemma mx_rel_mem:
  assumes "mx_inv s xs" and "mx_abs s xs a"
    and "mx_thr s t \<noteq> Waiting" "\<not> owns (mx_thr s t)" "\<not> owns pc'"
    and "t \<notin> set xs" and "mx_local (s\<lparr>mx_mem := m, mx_thr := (mx_thr s)(t := pc')\<rparr>) xs t pc'"
    and "m_state m = m_state (mx_mem s)"
    and "\<forall>u. u \<noteq> t \<longrightarrow> m_awaiting_coroutine m u = m_awaiting_coroutine (mx_mem s) u \<and> m_next m u = m_next (mx_mem s) u"
  shows "mx_rel (s\<lparr>mx_mem := m, mx_thr := (mx_thr s)(t := pc')\<rparr>) a"
proof -
  have nr: "\<forall>p. mx_thr s t \<noteq> Unlock_resume p" "\<forall>p. pc' \<noteq> Unlock_resume p" using assms(4,5) by auto
  have own: "owns (((mx_thr s)(t := pc')) u) = owns (mx_thr s u)" for u using assms(4,5) by simp
  have "lst (m_next m) p xs = lst (m_next (mx_mem s)) p xs" for p
    using assms(6,9) by (intro lst_cong) auto
  then have "mx_word_ok (s\<lparr>mx_mem := m, mx_thr := (mx_thr s)(t := pc')\<rparr>) xs"
    using mx_invD(1) [OF assms(1)] assms(8) own
    by (auto simp: mx_word_ok_def simp del: fun_upd_apply split: mword.splits)
  then show ?thesis
    using mx_inv_run [OF assms(1), of xs t m pc'] mx_abs_thread [OF assms(2,8), of pc' t] assms nr
    unfolding mx_rel_def by auto
qed

lemma unlock_test_local:
  assumes "mx_inv s xs" and "owns (mx_thr s t)" "mx_local s xs t (mx_thr s t)"
  shows "owns (unlock_test (m_state (mx_mem s)))" and "\<forall>p. unlock_test (m_state (mx_mem s)) \<noteq> Unlock_resume p"
    and "t \<notin> set xs \<Longrightarrow> mx_local s' xs t (unlock_test (m_state (mx_mem s)))"
proof -
  obtain p where p: "m_state (mx_mem s) = Locked p" "lst (m_next (mx_mem s)) p xs"
    using mx_owner_locked [OF assms(1,2)] by blast
  then show "owns (unlock_test (m_state (mx_mem s)))" "\<forall>p. unlock_test (m_state (mx_mem s)) \<noteq> Unlock_resume p"
    "t \<notin> set xs \<Longrightarrow> mx_local s' xs t (unlock_test (m_state (mx_mem s)))"
    by (cases p; auto)+
qed

lemma susp_test_local:
  "\<not> owns (susp_test v)" "\<forall>p. susp_test v \<noteq> Unlock_resume p" "susp_test v \<noteq> Waiting"
  "t \<notin> set xs \<Longrightarrow> m_awaiting_coroutine (mx_mem s) t = Some t \<Longrightarrow> mx_local s xs t (susp_test v)"
  by (cases v; simp)+

text \<open>One step of \<open>awaiter_list_pop\<close> inside \<open>unlock\<close>.\<close>

lemma mx_sim_pop:
  assumes inv: "mx_inv s xs" and abs: "mx_abs s xs a" and pc: "mx_thr s t = Unlock_pop apc"
    and st: "unlock_pop spurious apc (mx_mem s) = Some (pc', m)"
  shows "\<exists>a'. mx_rel (s\<lparr>mx_mem := m, mx_thr := (mx_thr s)(t := pc')\<rparr>) a' \<and> alock_step a a'"
proof -
  obtain p where p: "m_state (mx_mem s) = Locked p" "lst (m_next (mx_mem s)) p xs"
    using mx_owner_locked [OF inv, of t] pc by auto
  have loc: "t \<notin> set xs" "xs \<noteq> []" "pop_ok (m_next (mx_mem s)) xs apc"
    using mx_invD(2) [OF inv, of t] pc by auto
  obtain x where x: "p = Some x" "x \<in> set xs" using p loc by (cases xs) auto
  have same: "(mx_mem s)\<lparr>m_state := Locked p, m_next := m_next (mx_mem s)\<rparr> = mx_mem s"
    using p by (cases "mx_mem s") simp
  have skip: "\<exists>a'. mx_rel (s\<lparr>mx_thr := (mx_thr s)(t := Unlock_pop apc')\<rparr>) a' \<and> alock_step a a'"
    if "pop_ok (m_next (mx_mem s)) xs apc'" for apc'
    using mx_rel_pc [OF inv abs, of t "Unlock_pop apc'"] pc loc that alock_skip by auto
  consider "apc = Pop_load" | w where "apc = Pop_next w" | w n where "apc = Pop_cas w n"
    using loc by (cases apc) auto
  then show ?thesis
  proof cases
    case 1
    then have "m = mx_mem s" "pc' = Unlock_pop (Pop_next x)" using st p x same by auto
    then show ?thesis using skip [of "Pop_next x"] x by simp
  next
    case 2
    then have "m = mx_mem s" "pc' = Unlock_pop (Pop_cas w (m_next (mx_mem s) w))" using st p same by auto
    then show ?thesis using skip [of "Pop_cas w (m_next (mx_mem s) w)"] loc 2 by simp
  next
    case (3 w n)
    show ?thesis
    proof (cases "p = Some w \<and> \<not> spurious")
      case True
      then have "pc' = Unlock_resume (Some w)" "m = (mx_mem s)\<lparr>m_state := Locked n\<rparr>"
        using st p 3 by (auto simp: compare_exchange_def)
      then show ?thesis using mx_rel_handoff [OF inv abs, of t w n] pc 3 p True by auto
    next
      case False
      then have "pc' = Unlock_pop (Pop_next x)" "m = mx_mem s"
        using st p x 3 same by (auto simp: compare_exchange_def)
      then show ?thesis using skip [of "Pop_next x"] x by simp
    qed
  qed
qed

text \<open>Every step of a coroutine inside a call is a step of the abstract lock.\<close>

lemma mx_sim_run:
  assumes inv: "mx_inv s xs" and abs: "mx_abs s xs a"
    and st: "mx_tstep spurious t (mx_thr s t) (mx_mem s) = Some (pc', m)"
  shows "\<exists>a'. mx_rel (s\<lparr>mx_mem := m, mx_thr := (mx_thr s)(t := pc')\<rparr>) a' \<and> alock_step a a'"
proof -
  note loc = mx_invD(2) [OF inv, of t]
  note skip = mx_rel_pc [OF inv abs, of t pc'] alock_skip
  note cas = compare_exchange_def if_splits
  note ut = unlock_test_local [OF inv, of t]
  show ?thesis
  proof (cases "mx_thr s t")
    case Try_lock
    show ?thesis
    proof (cases "m_state (mx_mem s) = Unlocked")
      case True
      then show ?thesis using st Try_lock mx_rel_acquire [OF inv abs, of t] by (auto simp: cas)
    next
      case False
      then have "m = mx_mem s" "pc' = Idle" using st Try_lock by (auto simp: cas)
      then show ?thesis using skip loc Try_lock by auto
    qed
  next
    case Await_ready
    show ?thesis
    proof (cases "m_state (mx_mem s) = Unlocked")
      case True
      then show ?thesis using st Await_ready mx_rel_acquire [OF inv abs, of t] by (auto simp: cas)
    next
      case False
      then have "m = mx_mem s" "pc' = Susp_load" using st Await_ready by (auto simp: cas)
      then show ?thesis using skip loc Await_ready by auto
    qed
  next
    case Susp_load
    then have pm: "pc' = susp_test (m_state (mx_mem s))"
        "m = (mx_mem s)\<lparr>m_awaiting_coroutine := (m_awaiting_coroutine (mx_mem s))(t := Some t)\<rparr>"
      using st by auto
    have "mx_rel (s\<lparr>mx_mem := m, mx_thr := (mx_thr s)(t := pc')\<rparr>) a"
      unfolding pm using Susp_load loc by (intro mx_rel_mem [OF inv abs]) (auto simp: susp_test_local)
    then show ?thesis using alock_skip by blast
  next
    case Susp_lock_cas
    show ?thesis
    proof (cases "m_state (mx_mem s) = Unlocked \<and> \<not> spurious")
      case True
      then show ?thesis using st Susp_lock_cas mx_rel_acquire [OF inv abs, of t] by (auto simp: cas)
    next
      case False
      then have "m = mx_mem s" "pc' = susp_test (m_state (mx_mem s))" using st Susp_lock_cas by (auto simp: cas)
      then show ?thesis using skip loc Susp_lock_cas by (auto simp: susp_test_local)
    qed
  next
    case (Susp_next c)
    then have pm: "pc' = Susp_cas c" "m = (mx_mem s)\<lparr>m_next := (m_next (mx_mem s))(t := c)\<rparr>"
      using st by auto
    have "mx_rel (s\<lparr>mx_mem := m, mx_thr := (mx_thr s)(t := pc')\<rparr>) a"
      unfolding pm using Susp_next loc by (intro mx_rel_mem [OF inv abs]) auto
    then show ?thesis using alock_skip by blast
  next
    case (Susp_cas c)
    show ?thesis
    proof (cases "m_state (mx_mem s) = Locked c \<and> \<not> spurious")
      case True
      then show ?thesis using st Susp_cas mx_rel_enqueue [OF inv abs, of t c] by (auto simp: cas)
    next
      case False
      then have "m = mx_mem s" "pc' = susp_test (m_state (mx_mem s))" using st Susp_cas by (auto simp: cas)
      then show ?thesis using skip loc Susp_cas by (auto simp: susp_test_local)
    qed
  next
    case Unlock_load
    then have "m = mx_mem s" "pc' = unlock_test (m_state (mx_mem s))" using st by auto
    then show ?thesis using skip loc Unlock_load ut by auto
  next
    case Unlock_cas
    show ?thesis
    proof (cases "m_state (mx_mem s) = Locked None \<and> \<not> spurious")
      case True
      then show ?thesis using st Unlock_cas mx_rel_release [OF inv abs, of t] by (auto simp: cas)
    next
      case False
      then have "m = mx_mem s" "pc' = unlock_test (m_state (mx_mem s))" using st Unlock_cas by (auto simp: cas)
      then show ?thesis using skip loc Unlock_cas ut by auto
    qed
  next
    case (Unlock_pop apc)
    then show ?thesis using st mx_sim_pop [OF inv abs, of t apc] by simp
  qed (use st in simp_all)
qed

lemma mx_sim_step:
  assumes rel: "mx_rel s a" and st: "mx_step t s s'"
  shows "\<exists>a'. mx_rel s' a' \<and> alock_step a a'"
proof -
  from rel obtain xs where inv: "mx_inv s xs" and abs: "mx_abs s xs a" by (auto simp: mx_rel_def)
  have call: "\<exists>a'. mx_rel (s\<lparr>mx_thr := (mx_thr s)(t := pc')\<rparr>) a' \<and> alock_step a a'"
    if "mx_thr s t = Idle \<and> (pc' = Await_ready \<or> pc' = Try_lock) \<or> mx_thr s t = Holding \<and> pc' = Unlock_load" for pc'
  proof -
    have "mx_rel (s\<lparr>mx_thr := (mx_thr s)(t := pc')\<rparr>) a"
      using that mx_invD(2) [OF inv, of t] by (intro mx_rel_pc [OF inv abs]) auto
    then show ?thesis using alock_skip by blast
  qed
  from st show ?thesis
  proof (cases rule: mx_step.cases)
    case (mx_run spurious pc' m)
    then show ?thesis using mx_sim_run [OF inv abs] by simp
  next
    case (mx_wake w c)
    then show ?thesis using mx_rel_wake [OF inv abs] alock_skip by blast
  next
    case mx_call_lock
    then show ?thesis using call by simp
  next
    case mx_call_try_lock
    then show ?thesis using call by simp
  next
    case mx_call_unlock
    then show ?thesis using call by simp
  qed
qed

lemma mx_rel_init: "mx_init s \<Longrightarrow> mx_rel s Free"
  unfolding mx_rel_def mx_init_def
  by (intro exI [of _ "[]"]) (simp add: mx_inv_def mx_word_ok_def mutex_init_def)

abbreviation mx_next :: "mx_sys \<Rightarrow> mx_sys \<Rightarrow> bool" where
  "mx_next s s' \<equiv> \<exists>t. mx_step t s s'"

lemma mx_rel_distinct: "mx_rel s (Held t ws) \<Longrightarrow> distinct ws"
  by (auto simp: mx_rel_def mx_inv_def mx_word_ok_def split: mword.splits dest: lst_distinct)

lemma slock_of_step:
  assumes "alock_step a a'" and "\<And>t ws. a = Held t ws \<Longrightarrow> distinct ws"
  shows "slock_step (slock_of a) (slock_of a')"
  using assms(1)
proof cases
  case (alock_handoff t w ws)
  then have "slock_of a' = Taken w (set (w # ws) - {w})" using assms(2) by auto
  then show ?thesis using alock_handoff slock_handoff [of w "set (w # ws)" t] by simp
qed (auto intro: slock_step.intros)

interpretation mxs: invariant_system mx_init mx_next "\<lambda>s. \<exists>a. mx_rel s a"
  by unfold_locales (use mx_rel_init mx_sim_step in blast)+

lemma mx_reach_inv:
  assumes "reach mx_init mx_next s"
  obtains xs where "mx_inv s xs"
  using mxs.inv_reach [OF assms] by (auto simp: mx_rel_def)

lemma mx_reach_owner_waits:
  assumes "mx_inv s xs" and "mx_thr s t = Waiting"
  shows "\<exists>u. u \<noteq> t \<and> owns (mx_thr s u) \<and>
     (mx_thr s u = Unlock_resume (Some t) \<or>
      (\<exists>p. m_state (mx_mem s) = Locked p \<and> lst (m_next (mx_mem s)) p xs \<and> t \<in> set xs))"
proof (cases "t \<in> set xs")
  case True
  then obtain p u where "m_state (mx_mem s) = Locked p" "lst (m_next (mx_mem s)) p xs" "owns (mx_thr s u)"
    using mx_invD(1) [OF assms(1)] by (auto simp: mx_word_ok_def split: mword.splits)
  moreover from this have "u \<noteq> t" using assms(2) by auto
  ultimately show ?thesis using True by blast
next
  case False
  then obtain u where "mx_thr s u = Unlock_resume (Some t)" using mx_invD(2) [OF assms(1), of t] assms(2) by auto
  then show ?thesis using assms(2) by (intro exI [of _ u]) auto
qed

lemma mx_can_step:
  assumes inv: "mx_inv s xs" and pc: "mx_thr s t \<notin> {Idle, Waiting, Holding}"
  shows "\<exists>s'. mx_step t s s'"
proof (cases "\<exists>p. mx_thr s t = Unlock_resume p")
  case True
  then obtain w where w: "mx_thr s t = Unlock_resume (Some w)" "mx_thr s w = Waiting"
    using mx_invD(2) [OF inv, of t] by auto
  then have "m_awaiting_coroutine (mx_mem s) w = Some w" using mx_invD(2) [OF inv, of w] by simp
  then show ?thesis using mx_wake w by blast
next
  case False
  have "mx_tstep False t (mx_thr s t) (mx_mem s) \<noteq> None"
  proof (cases "mx_thr s t")
    case (Unlock_pop apc)
    then obtain p where "m_state (mx_mem s) = Locked p" "pop_ok (m_next (mx_mem s)) xs apc"
      using mx_owner_locked [OF inv, of t] mx_invD(2) [OF inv, of t] by auto
    then show ?thesis using Unlock_pop
      by (cases apc) (auto simp: compare_exchange_def split: option.splits al_pc.splits)
  qed (use pc False mx_invD(2) [OF inv, of t] in \<open>auto split: prod.splits\<close>)
  then show ?thesis using mx_run by fast
qed

lemma mx_exec_lock:
  assumes "mx_view m c" and "\<forall>ws. c = CLocked ws \<longrightarrow> t \<notin> set ws"
  shows "\<exists>m'. mx_exec 4 t Await_ready m = (if fst (lock_await c t) then Waiting else Holding, m') \<and>
     mx_view m' (snd (lock_await c t))"
proof (cases c)
  case CUnlocked
  then show ?thesis using assms by (simp add: lock_await_def compare_exchange_def eval_nat_numeral)
next
  case (CLocked ws)
  then obtain p where "m_state m = Locked p" "lst (m_next m) p ws" "t \<notin> set ws" using assms by auto
  then show ?thesis using CLocked
    by (simp add: lock_await_def compare_exchange_def eval_nat_numeral)
qed

lemma mx_exec_unlock:
  assumes "mx_view m c"
  shows "\<exists>m'. mx_exec 4 t Unlock_load m = (unlock_pc (unlock c), m') \<and>
     (\<forall>w c'. unlock c = Inr (w, c') \<longrightarrow> mx_view m' c')"
proof (cases c rule: unlock.cases)
  case 1
  then show ?thesis using assms by (simp add: eval_nat_numeral)
next
  case 2
  then have "m_state m = Locked None" using assms by simp
  then show ?thesis using 2 by (simp add: compare_exchange_def eval_nat_numeral)
next
  case (3 w ws)
  then have "m_state m = Locked (Some w)" "lst (m_next m) (m_next m w) ws" using assms by auto
  then show ?thesis using 3 by (simp add: compare_exchange_def eval_nat_numeral)
qed

section \<open>Properties\<close>

text \<open>The order of the waiters: each step of each coroutine is a step of the lock that keeps its
  waiters newest first and passes directly to the newest.\<close>

lemma mutex_passes_to_newest:
  "(mx_init s \<longrightarrow> mx_rel s Free) \<and>
   (mx_rel s a \<and> mx_step t s s' \<longrightarrow> (\<exists>a'. mx_rel s' a' \<and> alock_step a a'))"
  using mx_rel_init mx_sim_step by blast

text \<open>C2: the mutex refines the abstract lock.  The concrete initial state stands for the
  available lock, and each step of each coroutine, under any interleaving and with spurious failures of
  the weak compare-exchanges, is a step of the abstract lock: taking it when it is available, joining the
  waiters when it is taken, making it available only when nobody waits, and passing it directly
  to one of the waiters otherwise.\<close>

theorem mutex_refines_lock:
  "(mx_init s \<longrightarrow> mx_lock s Available) \<and>
   (mx_lock s l \<and> mx_step t s s' \<longrightarrow> (\<exists>l'. mx_lock s' l' \<and> slock_step l l'))"
proof (intro conjI impI)
  show "mx_lock s Available" if "mx_init s" using mx_rel_init [OF that] unfolding mx_lock_def by force
next
  assume a: "mx_lock s l \<and> mx_step t s s'"
  then obtain a where a: "mx_rel s a" "l = slock_of a" "mx_step t s s'" by (auto simp: mx_lock_def)
  obtain a' where a': "mx_rel s' a'" "alock_step a a'" using mx_sim_step [OF a(1,3)] by blast
  have "slock_step l (slock_of a')" using slock_of_step [OF a'(2)] mx_rel_distinct a(1,2) by blast
  then show "\<exists>l'. mx_lock s' l' \<and> slock_step l l'" using a' by (auto simp: mx_lock_def)
qed

text \<open>C3: mutual exclusion and absence of errors.  In every reachable state at most one coroutine
  is between acquiring the lock and giving it away, and no \<open>unlock\<close> by the holder throws
  \<open>coro::mutex is already unlocked\<close>.\<close>

theorem mutex_mutual_exclusion:
  assumes "reach mx_init mx_next s"
  shows "(owns (mx_thr s t) \<and> owns (mx_thr s u) \<longrightarrow> t = u) \<and> mx_thr s t \<noteq> Threw e"
proof -
  obtain xs where inv: "mx_inv s xs" using mx_reach_inv [OF assms] .
  show ?thesis using mx_invD(3) [OF inv, of t u] mx_invD(2) [OF inv, of t] by auto
qed

text \<open>No waiter is lost.  In every reachable state a suspended coroutine is either in the
  list that \<open>m_state\<close> points to, with another coroutine owning the lock, or the coroutine that
  unlocks has already taken it from the list and is about to resume it.\<close>

theorem mutex_no_lost_waiter:
  assumes "reach mx_init mx_next s" and "mx_thr s t = Waiting"
  shows "\<exists>u. u \<noteq> t \<and> owns (mx_thr s u) \<and>
     (mx_thr s u = Unlock_resume (Some t) \<or>
      (\<exists>p xs. m_state (mx_mem s) = Locked p \<and> lst (m_next (mx_mem s)) p xs \<and> t \<in> set xs))"
proof -
  obtain xs where "mx_inv s xs" using mx_reach_inv [OF assms(1)] .
  from mx_reach_owner_waits [OF this assms(2)] show ?thesis by blast
qed

text \<open>C4: no coroutine gets stuck inside the mutex.  In every reachable state each coroutine
  that is executing \<open>lock\<close>, \<open>try_lock\<close> or \<open>unlock\<close> can take its next step; in particular
  \<open>unlock\<close> never resumes a null waiter and never pops from an unlocked mutex.\<close>

theorem mutex_progress:
  assumes "reach mx_init mx_next s" and "mx_thr s t \<notin> {Idle, Waiting, Holding}"
  shows "\<exists>s'. mx_step t s s'"
proof -
  obtain xs where "mx_inv s xs" using mx_reach_inv [OF assms(1)] .
  from mx_can_step [OF this assms(2)] show ?thesis .
qed

text \<open>The calls as the clients of the mutex see them.  Run without interference, four
  shared accesses complete \<open>co_await lock()\<close> and \<open>unlock()\<close>, and they do what the sequential
  functions say: the caller holds the lock or is queued first, and unlocking frees the mutex,
  resumes the newest waiter, or throws when the mutex was not locked.\<close>

theorem mutex_calls:
  assumes "mx_view m c" and "\<forall>ws. c = CLocked ws \<longrightarrow> t \<notin> set ws"
  shows "(\<exists>m'. mx_exec 4 t Await_ready m = (if fst (lock_await c t) then Waiting else Holding, m') \<and>
      mx_view m' (snd (lock_await c t))) \<and>
    (\<exists>m'. mx_exec 4 t Unlock_load m = (unlock_pc (unlock c), m') \<and>
      (\<forall>w c'. unlock c = Inr (w, c') \<longrightarrow> mx_view m' c'))"
  using mx_exec_lock [OF assms] mx_exec_unlock [OF assms(1)] by blast

text \<open>A scoped lock releases its mutex exactly once.  While the mutex is locked, \<open>unlock()\<close>
  releases it, resuming the newest waiter if there is one, and forgets it: a second \<open>unlock()\<close> and
  the destructor then change nothing and do not throw.  A moved-from lock releases nothing, and the
  lock moved to releases what the original would have.\<close>

theorem scoped_lock_releases_once:
  assumes "sl_mutex l = Some m" and "ms m = CLocked ws"
  shows "\<exists>w c l'. unlock (CLocked ws) = Inr (w, c) \<and> scoped_lock_unlock ms l = Inr (w, ms(m := c), l') \<and>
      scoped_lock_unlock (ms(m := c)) l' = Inr (None, ms(m := c), l') \<and>
      scoped_lock_destroy (ms(m := c)) l' = Inr (None, ms(m := c)) \<and>
      scoped_lock_destroy ms l = Inr (w, ms(m := c)) \<and>
      scoped_lock_destroy ms (fst (scoped_lock_move l)) = Inr (w, ms(m := c)) \<and>
      scoped_lock_destroy ms (snd (scoped_lock_move l)) = Inr (None, ms)"
  using assms
  by (cases ws) (simp_all add: scoped_lock_unlock_def scoped_lock_destroy_def scoped_lock_move_def)

text \<open>Move assignment to a scoped lock that still holds a mutex leaks that mutex.  After
  \<open>a = std::move(b)\<close> no scoped lock refers to the mutex \<open>a\<close> held, and destroying both
  leaves it locked with its waiters.\<close>

theorem scoped_lock_move_assign_leaks:
  assumes "sl_mutex (ls a) = Some m" and "sl_mutex (ls b) = Some n" and "m \<noteq> n" and "a \<noteq> b"
    and "ms m = CLocked ws" and "ms n = CLocked vs"
  shows "\<exists>w ms'. scoped_lock_destroy ms (scoped_lock_move_assign ls a b b) = Inr (None, ms) \<and>
     scoped_lock_destroy ms (scoped_lock_move_assign ls a b a) = Inr (w, ms') \<and>
     ms' n \<noteq> ms n \<and> ms' m = CLocked ws"
  using assms
  by (cases vs) (simp_all add: scoped_lock_unlock_def scoped_lock_destroy_def scoped_lock_move_assign_def)

section \<open>Witnesses\<close>

text \<open>A schedule: one coroutine acquires, a second one queues, the first one hands over.\<close>

fun mx_go :: "mx_sys \<Rightarrow> handle \<Rightarrow> mx_sys" where
  "mx_go s t =
     (case mx_tstep False t (mx_thr s t) (mx_mem s) of
        Some (pc', m) \<Rightarrow> s\<lparr>mx_mem := m, mx_thr := (mx_thr s)(t := pc')\<rparr>
      | None \<Rightarrow>
          (case mx_thr s t of
             Idle \<Rightarrow> s\<lparr>mx_thr := (mx_thr s)(t := Await_ready)\<rparr>
           | Holding \<Rightarrow> s\<lparr>mx_thr := (mx_thr s)(t := Unlock_load)\<rparr>
           | _ \<Rightarrow> s))"

fun mx_go_ok :: "mx_sys \<Rightarrow> handle \<Rightarrow> bool" where
  "mx_go_ok s t =
     (mx_thr s t = Idle \<or> mx_thr s t = Holding \<or> mx_tstep False t (mx_thr s t) (mx_mem s) \<noteq> None)"

lemma mx_go_step: "mx_go_ok s t \<Longrightarrow> mx_step t s (mx_go s t)"
proof (cases "mx_tstep False t (mx_thr s t) (mx_mem s)")
  case None
  assume "mx_go_ok s t"
  then show ?thesis using None
    by (auto intro: mx_call_lock mx_call_unlock)
next
  case (Some r)
  then show ?thesis by (cases r) (auto intro: mx_run)
qed

fun mx_sched :: "mx_sys \<Rightarrow> handle list \<Rightarrow> mx_sys" where
  "mx_sched s [] = s"
| "mx_sched s (t # ts) = mx_sched (mx_go s t) ts"

fun mx_sched_ok :: "mx_sys \<Rightarrow> handle list \<Rightarrow> bool" where
  "mx_sched_ok s [] = True"
| "mx_sched_ok s (t # ts) = (mx_go_ok s t \<and> mx_sched_ok (mx_go s t) ts)"

lemma mx_sched_reach: "reach mx_init mx_next s \<Longrightarrow> mx_sched_ok s ts \<Longrightarrow> reach mx_init mx_next (mx_sched s ts)"
proof (induction ts arbitrary: s)
  case Nil
  then show ?case by simp
next
  case (Cons t ts)
  from Cons.prems have "mx_step t s (mx_go s t)" using mx_go_step by simp
  then have "reach mx_init mx_next (mx_go s t)" using Cons.prems(1) reach_step by fast
  then show ?case using Cons by simp
qed

definition mx_start :: mx_sys where
  "mx_start = \<lparr>mx_mem = mutex_init, mx_thr = \<lambda>_. Idle\<rparr>"

definition mx_demo :: mx_sys where
  "mx_demo = mx_sched mx_start [1, 1, 2, 2, 2, 2, 2, 1, 1]"

lemma mx_start_init: "mx_init mx_start"
  by (simp add: mx_init_def mx_start_def)

lemma mx_demo_reach: "reach mx_init mx_next mx_demo"
  unfolding mx_demo_def
  by (rule mx_sched_reach [OF reach_init [where init = mx_init, OF mx_start_init]])
    (simp add: mx_start_def mutex_init_def compare_exchange_def)

lemma mx_demo_thr: "mx_thr mx_demo 1 = Unlock_pop Pop_load" "mx_thr mx_demo 2 = Waiting"
  unfolding mx_demo_def mx_start_def mutex_init_def by (simp_all add: compare_exchange_def)

theorem mutex_refines_lock_witness:
  "mx_init mx_start \<and> mx_lock mx_start Available \<and>
   (\<exists>l'. mx_lock (mx_go mx_start 1) l' \<and> slock_step Available l')"
  using mutex_refines_lock [of mx_start Available 1 "mx_go mx_start 1"] mx_start_init
    mx_go_step [of mx_start 1] by (simp add: mx_start_def)

theorem mutex_mutual_exclusion_witness:
  "reach mx_init mx_next mx_demo \<and> owns (mx_thr mx_demo 1) \<and> \<not> owns (mx_thr mx_demo 2) \<and>
   mx_thr mx_demo 1 \<noteq> Threw (Logic_error '''')"
  using mutex_mutual_exclusion [OF mx_demo_reach, of 1 2 "Logic_error ''''"] mx_demo_reach mx_demo_thr by simp

theorem mutex_no_lost_waiter_witness:
  "mx_thr mx_demo 2 = Waiting \<and>
   (\<exists>u. u \<noteq> 2 \<and> owns (mx_thr mx_demo u) \<and>
     (mx_thr mx_demo u = Unlock_resume (Some 2) \<or>
      (\<exists>p xs. m_state (mx_mem mx_demo) = Locked p \<and> lst (m_next (mx_mem mx_demo)) p xs \<and> 2 \<in> set xs)))"
  using mutex_no_lost_waiter [OF mx_demo_reach mx_demo_thr(2)] mx_demo_thr(2) by blast

theorem mutex_progress_witness:
  "mx_thr mx_demo 1 = Unlock_pop Pop_load \<and> (\<exists>s'. mx_step 1 mx_demo s')"
  using mutex_progress [OF mx_demo_reach, of 1] mx_demo_thr(1) by simp

theorem mutex_calls_witness:
  "mx_view mutex_init CUnlocked \<and>
   (\<exists>m'. mx_exec 4 7 Await_ready mutex_init = (Holding, m') \<and> mx_view m' (CLocked [])) \<and>
   (\<exists>m'. mx_exec 4 7 Unlock_load mutex_init = (Threw (Runtime_error ''coro::mutex is already unlocked''), m'))"
  using mutex_calls [of mutex_init CUnlocked 7] by (auto simp: mutex_init_def lock_await_def)

theorem scoped_lock_releases_once_witness:
  "\<exists>l'. scoped_lock_unlock (\<lambda>_. CLocked [5]) (scoped_lock_new 3) = Inr (Some 5, (\<lambda>_. CLocked [5])(3 := CLocked []), l') \<and>
     scoped_lock_destroy ((\<lambda>_. CLocked [5])(3 := CLocked [])) l' = Inr (None, (\<lambda>_. CLocked [5])(3 := CLocked []))"
  using scoped_lock_releases_once [of "scoped_lock_new 3" 3 "\<lambda>_. CLocked [5]" "[5]"]
  by (auto simp: scoped_lock_new_def)

theorem scoped_lock_move_assign_leaks_witness:
  "\<exists>w ms'. scoped_lock_destroy (\<lambda>_. CLocked []) (scoped_lock_move_assign scoped_lock_new 1 2 1) = Inr (w, ms') \<and>
     ms' 2 \<noteq> CLocked [] \<and> ms' 1 = CLocked []"
  using scoped_lock_move_assign_leaks [of scoped_lock_new 1 1 2 2 "\<lambda>_. CLocked []" "[]" "[]"]
  by (auto simp: scoped_lock_new_def)

end
