(* ===== verification/Event.thy ===== *)
theory Event
  imports AwaiterList
begin

text \<open>
  The event of \<open>include/coro/event.hpp\<close> and \<open>src/event.cpp\<close>.

  The first part has the functions as uninterrupted calls; \<open>event_set\<close> yields the coroutines it
  resumes, in order, for the plain \<open>set\<close> (which resumes them in place) and for the one that hands
  them to an executor.  The second part has the same code broken at every access to shared
  memory and interleaved.  The invariant assigns every suspended coroutine to exactly one list.
\<close>

section \<open>The event, call by call\<close>

datatype resume_order_policy = Lifo | Fifo

text \<open>
  \<open>m_state\<close> is the event's own address when it is set, and otherwise the newest awaiter of a list
  (\<open>nullptr\<close> when nobody waits).
\<close>

datatype eword = ESet | EWaiters ptr

record event =
  ev_state :: eword
  ev_next :: heap
  ev_awaiting :: "addr \<Rightarrow> handle option"

definition event_new :: "bool \<Rightarrow> event" where
  "event_new initially_set =
     \<lparr>ev_state = (if initially_set then ESet else EWaiters None), ev_next = \<lambda>_. None, ev_awaiting = \<lambda>_. None\<rparr>"

definition is_set :: "event \<Rightarrow> bool" where
  "is_set e \<longleftrightarrow> ev_state e = ESet"

definition event_await_suspend :: "event \<Rightarrow> handle \<Rightarrow> bool \<times> event" where
  "event_await_suspend e t =
     (let e = e\<lparr>ev_awaiting := (ev_awaiting e)(t := Some t)\<rparr>
      in case ev_state e of
           ESet \<Rightarrow> (False, e)
         | EWaiters p \<Rightarrow> (True, e\<lparr>ev_next := (ev_next e)(t := p), ev_state := EWaiters (Some t)\<rparr>))"

text \<open>\<open>co_await e\<close>: the flag says whether the caller suspends.\<close>

definition event_await :: "event \<Rightarrow> handle \<Rightarrow> bool \<times> event" where
  "event_await e t = (if is_set e then (False, e) else event_await_suspend e t)"

text \<open>The coroutines that \<open>set\<close> resumes, in order; \<^term>\<open>None\<close> would be a walk that does not end.\<close>

definition event_set :: "resume_order_policy \<Rightarrow> event \<Rightarrow> (handle list \<times> event) option" where
  "event_set policy e =
     (case ev_state e of
        ESet \<Rightarrow> Some ([], e)
      | EWaiters old \<Rightarrow>
          (case (case policy of Fifo \<Rightarrow> awaiter_list_reverse (ev_next e) old | Lifo \<Rightarrow> Some (old, ev_next e)) of
             None \<Rightarrow> None
           | Some (waiters, h) \<Rightarrow>
               (case resume_all h waiters [] of
                  None \<Rightarrow> None
                | Some ws \<Rightarrow> Some (ws, e\<lparr>ev_state := ESet, ev_next := h\<rparr>))))"

definition event_reset :: "event \<Rightarrow> event" where
  "event_reset e =
     (case compare_exchange False (ev_state e) ESet (EWaiters None) of (_, _, v) \<Rightarrow> e\<lparr>ev_state := v\<rparr>)"

text \<open>The awaiters of an event, newest first.\<close>

fun ev_view :: "event \<Rightarrow> handle list option \<Rightarrow> bool" where
  "ev_view e None = (ev_state e = ESet)"
| "ev_view e (Some ws) = (\<exists>p. ev_state e = EWaiters p \<and> lst (ev_next e) p ws)"

section \<open>The code, one shared access at a time\<close>

datatype ev_pc =
    Ev_idle
  | Ev_ready
  | Ev_susp_load
  | Ev_susp_next ptr
  | Ev_susp_cas ptr
  | Ev_waiting
  | Ev_exchange resume_order_policy
  | Ev_reverse ptr
  | Ev_walk ptr
  | Ev_resume addr ptr
  | Ev_reset

fun ev_susp_test :: "eword \<Rightarrow> ev_pc" where
  "ev_susp_test ESet = Ev_idle"
| "ev_susp_test (EWaiters p) = Ev_susp_next p"

fun ev_set_test :: "resume_order_policy \<Rightarrow> eword \<Rightarrow> ev_pc" where
  "ev_set_test policy ESet = Ev_idle"
| "ev_set_test Fifo (EWaiters p) = Ev_reverse p"
| "ev_set_test Lifo (EWaiters p) = Ev_walk p"

text \<open>
  The list that \<open>set\<close> has taken is private to it, so the reversal is one step.  The end of
  the walk returns from \<open>set\<close>.
\<close>

fun ev_tstep :: "bool \<Rightarrow> handle \<Rightarrow> ev_pc \<Rightarrow> event \<Rightarrow> (ev_pc \<times> event) option" where
  "ev_tstep spurious t Ev_ready m = Some (if ev_state m = ESet then Ev_idle else Ev_susp_load, m)"
| "ev_tstep spurious t Ev_susp_load m =
     Some (ev_susp_test (ev_state m), m\<lparr>ev_awaiting := (ev_awaiting m)(t := Some t)\<rparr>)"
| "ev_tstep spurious t (Ev_susp_next old) m =
     Some (Ev_susp_cas old, m\<lparr>ev_next := (ev_next m)(t := old)\<rparr>)"
| "ev_tstep spurious t (Ev_susp_cas old) m =
     (case compare_exchange spurious (ev_state m) (EWaiters old) (EWaiters (Some t)) of
        (ok, old', v) \<Rightarrow> Some (if ok then Ev_waiting else ev_susp_test old', m\<lparr>ev_state := v\<rparr>))"
| "ev_tstep spurious t (Ev_exchange policy) m =
     Some (ev_set_test policy (ev_state m), m\<lparr>ev_state := ESet\<rparr>)"
| "ev_tstep spurious t (Ev_reverse p) m =
     (case awaiter_list_reverse (ev_next m) p of
        None \<Rightarrow> None
      | Some (q, h) \<Rightarrow> Some (Ev_walk q, m\<lparr>ev_next := h\<rparr>))"
| "ev_tstep spurious t (Ev_walk None) m = Some (Ev_idle, m)"
| "ev_tstep spurious t (Ev_walk (Some w)) m = Some (Ev_resume w (ev_next m w), m)"
| "ev_tstep spurious t Ev_reset m =
     (case compare_exchange False (ev_state m) ESet (EWaiters None) of
        (_, _, v) \<Rightarrow> Some (Ev_idle, m\<lparr>ev_state := v\<rparr>))"
| "ev_tstep spurious t Ev_idle m = None"
| "ev_tstep spurious t Ev_waiting m = None"
| "ev_tstep spurious t (Ev_resume w n) m = None"

record ev_sys =
  ev_mem :: event
  ev_thr :: "handle \<Rightarrow> ev_pc"

text \<open>\<open>ev_wake\<close> is \<open>waiters->m_awaiting_coroutine.resume()\<close> of the awaiter whose successor has been read.\<close>

inductive ev_step :: "handle \<Rightarrow> ev_sys \<Rightarrow> ev_sys \<Rightarrow> bool" where
  ev_run: "ev_tstep spurious t (ev_thr s t) (ev_mem s) = Some (pc', m) \<Longrightarrow>
     ev_step t s (s\<lparr>ev_mem := m, ev_thr := (ev_thr s)(t := pc')\<rparr>)"
| ev_wake: "ev_thr s t = Ev_resume w n \<Longrightarrow> ev_awaiting (ev_mem s) w = Some c \<Longrightarrow>
     ev_thr s c = Ev_waiting \<Longrightarrow> ev_step t s (s\<lparr>ev_thr := (ev_thr s)(t := Ev_walk n, c := Ev_idle)\<rparr>)"
| ev_call: "ev_thr s t = Ev_idle \<Longrightarrow> pc \<in> {Ev_ready, Ev_exchange Lifo, Ev_exchange Fifo, Ev_reset} \<Longrightarrow>
     ev_step t s (s\<lparr>ev_thr := (ev_thr s)(t := pc)\<rparr>)"

definition ev_init :: "ev_sys \<Rightarrow> bool" where
  "ev_init s \<longleftrightarrow> (\<exists>b. s = \<lparr>ev_mem = event_new b, ev_thr = \<lambda>_. Ev_idle\<rparr>)"

abbreviation ev_nxt :: "ev_sys \<Rightarrow> ev_sys \<Rightarrow> bool" where
  "ev_nxt s s' \<equiv> \<exists>t. ev_step t s s'"

section \<open>The invariant\<close>

text \<open>\<open>xs\<close> is the list of the event, \<open>L t\<close> what a coroutine \<open>t\<close> inside \<open>set\<close> has yet to resume.\<close>

fun walks :: "heap \<Rightarrow> ev_pc \<Rightarrow> addr list \<Rightarrow> bool" where
  "walks h (Ev_reverse p) ws = lst h p ws"
| "walks h (Ev_walk p) ws = lst h p ws"
| "walks h (Ev_resume w n) ws = (\<exists>vs. ws = w # vs \<and> lst h n vs \<and> w \<notin> set vs)"
| "walks h pc ws = (ws = [])"

fun ev_local :: "event \<Rightarrow> handle \<Rightarrow> ev_pc \<Rightarrow> bool" where
  "ev_local m t (Ev_susp_next p) = (ev_awaiting m t = Some t)"
| "ev_local m t (Ev_susp_cas p) = (ev_awaiting m t = Some t \<and> ev_next m t = p)"
| "ev_local m t Ev_waiting = (ev_awaiting m t = Some t)"
| "ev_local m t pc = True"

definition ev_inv :: "ev_sys \<Rightarrow> addr list \<Rightarrow> (handle \<Rightarrow> addr list) \<Rightarrow> bool" where
  "ev_inv s xs L \<longleftrightarrow>
     (case ev_state (ev_mem s) of ESet \<Rightarrow> xs = [] | EWaiters p \<Rightarrow> lst (ev_next (ev_mem s)) p xs) \<and>
     (\<forall>t. walks (ev_next (ev_mem s)) (ev_thr s t) (L t)) \<and>
     (\<forall>t. ev_local (ev_mem s) t (ev_thr s t)) \<and>
     (\<forall>t w. w \<in> set (L t) \<longrightarrow> w \<notin> set xs) \<and>
     (\<forall>t u w. w \<in> set (L t) \<longrightarrow> w \<in> set (L u) \<longrightarrow> t = u) \<and>
     (\<forall>w. ev_thr s w = Ev_waiting \<longleftrightarrow> w \<in> set xs \<or> (\<exists>t. w \<in> set (L t)))"

section \<open>Lemmas\<close>

lemma ev_same [simp]: "m\<lparr>ev_state := ev_state m\<rparr> = m" "s\<lparr>ev_mem := ev_mem s, ev_thr := f\<rparr> = s\<lparr>ev_thr := f\<rparr>"
  by (cases m; cases s; simp)+

abbreviation word_ok :: "event \<Rightarrow> addr list \<Rightarrow> bool" where
  "word_ok m xs \<equiv> (case ev_state m of ESet \<Rightarrow> xs = [] | EWaiters p \<Rightarrow> lst (ev_next m) p xs)"

lemma ev_invD:
  assumes "ev_inv s xs L"
  shows "word_ok (ev_mem s) xs" and "walks (ev_next (ev_mem s)) (ev_thr s t) (L t)"
    and "ev_local (ev_mem s) t (ev_thr s t)" and "w \<in> set (L t) \<Longrightarrow> w \<notin> set xs"
    and "w \<in> set (L t) \<Longrightarrow> w \<in> set (L u) \<Longrightarrow> t = u"
    and "ev_thr s w = Ev_waiting \<longleftrightarrow> w \<in> set xs \<or> (\<exists>t. w \<in> set (L t))"
  using assms unfolding ev_inv_def by blast+

lemma ev_invI:
  assumes "word_ok (ev_mem s) xs" and "\<And>t. walks (ev_next (ev_mem s)) (ev_thr s t) (L t)"
    and "\<And>t. ev_local (ev_mem s) t (ev_thr s t)" and "\<And>w t. w \<in> set (L t) \<Longrightarrow> w \<notin> set xs"
    and "\<And>w t u. w \<in> set (L t) \<Longrightarrow> w \<in> set (L u) \<Longrightarrow> t = u"
    and "\<And>w. ev_thr s w = Ev_waiting \<longleftrightarrow> w \<in> set xs \<or> (\<exists>t. w \<in> set (L t))"
  shows "ev_inv s xs L"
  using assms unfolding ev_inv_def by blast

lemma walks_cong: "(\<And>x. x \<in> set ws \<Longrightarrow> h x = h' x) \<Longrightarrow> walks h pc ws = walks h' pc ws"
proof (cases pc)
  case (Ev_resume w n)
  assume eq: "\<And>x. x \<in> set ws \<Longrightarrow> h x = h' x"
  then show ?thesis using Ev_resume by (cases ws) (auto cong: lst_cong)
qed (auto cong: lst_cong)

text \<open>
  The general step of one coroutine \<open>t\<close>: it may move awaiters between the list of the event and its
  own, add itself to the former, and write its own fields and those of the awaiters it has taken.
\<close>

lemma ev_inv_upd:
  assumes inv: "ev_inv s xs L" and nw: "ev_thr s t \<noteq> Ev_waiting"
    and word: "word_ok m xs'" and walk: "walks (ev_next m) pc' ws" and loc: "ev_local m t pc'"
    and frame: "\<And>u. u \<noteq> t \<Longrightarrow> ev_awaiting m u = ev_awaiting (ev_mem s) u"
      "\<And>u. u \<noteq> t \<Longrightarrow> u \<notin> set (L t) \<Longrightarrow> ev_next m u = ev_next (ev_mem s) u"
    and disj: "set ws \<inter> set xs' = {}" and tws: "t \<notin> set ws" and tx: "pc' = Ev_waiting \<longleftrightarrow> t \<in> set xs'"
    and mem: "\<And>w. w \<noteq> t \<Longrightarrow> w \<in> set xs' \<or> w \<in> set ws \<longleftrightarrow> w \<in> set xs \<or> w \<in> set (L t)"
  shows "ev_inv (s\<lparr>ev_mem := m, ev_thr := (ev_thr s)(t := pc')\<rparr>) xs' (L(t := ws))" (is "ev_inv ?s xs' ?L")
proof -
  have tin: "t \<notin> set xs" "t \<notin> set (L u)" for u using ev_invD(6) [OF inv, of t] nw by auto
  have other: "u \<noteq> t \<Longrightarrow> w \<in> set (L u) \<Longrightarrow> w \<noteq> t \<and> w \<notin> set (L t) \<and> w \<notin> set xs" for u w
    using tin ev_invD(4,5) [OF inv] by blast
  have walks: "walks (ev_next m) (ev_thr ?s u) (?L u)" for u
  proof (cases "u = t")
    case True
    then show ?thesis using walk by simp
  next
    case False
    then have "\<And>x. x \<in> set (L u) \<Longrightarrow> ev_next (ev_mem s) x = ev_next m x" using other frame(2) by metis
    then show ?thesis using ev_invD(2) [OF inv, of u] False walks_cong [of "L u" "ev_next (ev_mem s)" "ev_next m"] by simp
  qed
  have local: "ev_local m u (ev_thr ?s u)" for u
  proof (cases "u = t")
    case True
    then show ?thesis using loc by simp
  next
    case False
    have "ev_thr s u = Ev_waiting \<or> u \<notin> set (L t)" using ev_invD(6) [OF inv, of u] by auto
    then show ?thesis using ev_invD(3) [OF inv, of u] False frame [OF False] by (cases "ev_thr s u") auto
  qed
  have d: "w \<notin> set xs'" if "w \<in> set (?L u)" for u w
    using that other [of u w] mem [of w] disj by (cases "u = t") auto
  have own: "w \<notin> set ws" if "w \<in> set (L u)" "u \<noteq> t" for u w
    using other [OF that(2,1)] mem [of w] by blast
  have e: "u = v" if "w \<in> set (?L u)" "w \<in> set (?L v)" for u v w
  proof (cases "u = t \<or> v = t")
    case True
    then show ?thesis using that own [of w u] own [of w v] by (metis fun_upd_apply)
  next
    case False
    then show ?thesis using that ev_invD(5) [OF inv, of w u v] by (metis fun_upd_apply)
  qed
  have f: "ev_thr ?s w = Ev_waiting \<longleftrightarrow> w \<in> set xs' \<or> (\<exists>u. w \<in> set (?L u))" for w
  proof (cases "w = t")
    case True
    then show ?thesis using tx tws tin by simp
  next
    case False
    then have "(\<exists>u. w \<in> set (?L u)) \<longleftrightarrow> w \<in> set ws \<or> (\<exists>u. u \<noteq> t \<and> w \<in> set (L u))" by auto
    then show ?thesis using ev_invD(6) [OF inv, of w] mem [OF False] False by auto
  qed
  show ?thesis
  proof (rule ev_invI)
    show "word_ok (ev_mem ?s) xs'" using word by (simp split: eword.splits)
    show "walks (ev_next (ev_mem ?s)) (ev_thr ?s u) (?L u)" for u using walks [of u] by simp
    show "ev_local (ev_mem ?s) u (ev_thr ?s u)" for u using local [of u] by simp
  qed (fact d e f)+
qed

text \<open>Steps that move no awaiter.\<close>

lemma ev_inv_still:
  assumes inv: "ev_inv s xs L" and nw: "ev_thr s t \<noteq> Ev_waiting" "pc' \<noteq> Ev_waiting"
    and word: "word_ok m xs" and walk: "walks (ev_next m) pc' (L t)" and loc: "ev_local m t pc'"
    and frame: "\<And>u. u \<noteq> t \<Longrightarrow> ev_awaiting m u = ev_awaiting (ev_mem s) u \<and> ev_next m u = ev_next (ev_mem s) u"
  shows "ev_inv (s\<lparr>ev_mem := m, ev_thr := (ev_thr s)(t := pc')\<rparr>) xs L"
proof -
  have "t \<notin> set xs" "t \<notin> set (L t)" using ev_invD(6) [OF inv, of t] nw by auto
  moreover have "set (L t) \<inter> set xs = {}" using ev_invD(4) [OF inv] by blast
  ultimately have "ev_inv (s\<lparr>ev_mem := m, ev_thr := (ev_thr s)(t := pc')\<rparr>) xs (L(t := L t))"
    using nw word walk loc frame by (intro ev_inv_upd [OF inv]) auto
  then show ?thesis by simp
qed

lemma ev_word_upd:
  assumes "ev_inv s xs L" and "ev_thr s t \<noteq> Ev_waiting"
  shows "word_ok ((ev_mem s)\<lparr>ev_next := (ev_next (ev_mem s))(t := p)\<rparr>) xs"
  using ev_invD(1) [OF assms(1)] ev_invD(6) [OF assms(1), of t] assms(2) by (auto split: eword.splits)

lemma ev_susp_test_props:
  "ev_susp_test v \<noteq> Ev_waiting" "walks h (ev_susp_test v) [] " "ev_awaiting m t = Some t \<Longrightarrow> ev_local m t (ev_susp_test v)"
  by (cases v; simp)+

lemma ev_inv_push:
  assumes inv: "ev_inv s xs L" and pc: "ev_thr s t = Ev_susp_cas old" and st: "ev_state (ev_mem s) = EWaiters old"
  shows "ev_inv (s\<lparr>ev_mem := (ev_mem s)\<lparr>ev_state := EWaiters (Some t)\<rparr>, ev_thr := (ev_thr s)(t := Ev_waiting)\<rparr>) (t # xs) L"
proof -
  have t: "t \<notin> set xs" "L t = []" using ev_invD(6) [OF inv, of t] ev_invD(2) [OF inv, of t] pc by auto
  have "ev_inv (s\<lparr>ev_mem := (ev_mem s)\<lparr>ev_state := EWaiters (Some t)\<rparr>, ev_thr := (ev_thr s)(t := Ev_waiting)\<rparr>) (t # xs) (L(t := []))"
    using t pc st ev_invD(1) [OF inv] ev_invD(3) [OF inv, of t] by (intro ev_inv_upd [OF inv]) auto
  then show ?thesis using t by (metis fun_upd_triv)
qed

lemma ev_inv_exchange:
  assumes inv: "ev_inv s xs L" and pc: "ev_thr s t = Ev_exchange policy"
  shows "ev_inv (s\<lparr>ev_mem := (ev_mem s)\<lparr>ev_state := ESet\<rparr>,
     ev_thr := (ev_thr s)(t := ev_set_test policy (ev_state (ev_mem s)))\<rparr>) [] (L(t := xs))"
proof -
  have t: "t \<notin> set xs" "L t = []" using ev_invD(6) [OF inv, of t] ev_invD(2) [OF inv, of t] pc by auto
  have "walks (ev_next (ev_mem s)) (ev_set_test policy (ev_state (ev_mem s))) xs"
    using ev_invD(1) [OF inv] by (cases policy; cases "ev_state (ev_mem s)") auto
  moreover have "ev_set_test policy v \<noteq> Ev_waiting" "ev_local m t (ev_set_test policy v)" for v m
    by (cases policy; cases v; simp)+
  ultimately show ?thesis using t pc by (intro ev_inv_upd [OF inv]) auto
qed

lemma ev_inv_reverse:
  assumes inv: "ev_inv s xs L" and pc: "ev_thr s t = Ev_reverse p"
  shows "\<exists>q h. awaiter_list_reverse (ev_next (ev_mem s)) p = Some (q, h) \<and>
     ev_inv (s\<lparr>ev_mem := (ev_mem s)\<lparr>ev_next := h\<rparr>, ev_thr := (ev_thr s)(t := Ev_walk q)\<rparr>) xs (L(t := rev (L t)))"
proof -
  have l: "lst (ev_next (ev_mem s)) p (L t)" using ev_invD(2) [OF inv, of t] pc by simp
  obtain q h where q: "awaiter_list_reverse (ev_next (ev_mem s)) p = Some (q, h)" "lst h q (rev (L t))"
      "\<forall>a. a \<notin> set (L t) \<longrightarrow> h a = ev_next (ev_mem s) a"
    using awaiter_list_reverse_lst [OF l] by blast
  have t: "t \<notin> set xs" "t \<notin> set (L t)" using ev_invD(6) [OF inv, of t] pc by auto
  have d: "set (L t) \<inter> set xs = {}" using ev_invD(4) [OF inv] by blast
  then have "lst h p' xs = lst (ev_next (ev_mem s)) p' xs" for p' using q(3) by (intro lst_cong) auto
  then have "word_ok ((ev_mem s)\<lparr>ev_next := h\<rparr>) xs" using ev_invD(1) [OF inv] by (auto split: eword.splits)
  then show ?thesis using q t d pc by (intro exI [of _ q] exI [of _ h] conjI ev_inv_upd [OF inv]) auto
qed

lemma ev_inv_wake:
  assumes inv: "ev_inv s xs L" and pc: "ev_thr s t = Ev_resume w n"
  shows "ev_awaiting (ev_mem s) w = Some w" and "ev_thr s w = Ev_waiting" and "L t = w # tl (L t)"
    and "ev_inv (s\<lparr>ev_thr := (ev_thr s)(t := Ev_walk n, w := Ev_idle)\<rparr>) xs (L(t := tl (L t)))" (is "ev_inv ?s xs ?L")
proof -
  obtain vs where vs: "L t = w # vs" "lst (ev_next (ev_mem s)) n vs" "w \<notin> set vs"
    using ev_invD(2) [OF inv, of t] pc by auto
  then show L: "L t = w # tl (L t)" by simp
  show wt: "ev_thr s w = Ev_waiting" using ev_invD(6) [OF inv, of w] vs by (metis list.set_intros(1))
  then show "ev_awaiting (ev_mem s) w = Some w" using ev_invD(3) [OF inv, of w] by simp
  have w: "w \<noteq> t" "w \<notin> set xs" "L w = []" "w \<in> set (L u) \<Longrightarrow> u = t" for u
    using wt pc ev_invD(4) [OF inv, of w t] ev_invD(2) [OF inv, of w] ev_invD(5) [OF inv, of w u t] vs by auto
  have "walks (ev_next (ev_mem ?s)) (ev_thr ?s u) (?L u)" for u
    using ev_invD(2) [OF inv, of u] vs w by auto
  moreover have "ev_local (ev_mem ?s) u (ev_thr ?s u)" for u using ev_invD(3) [OF inv, of u] by auto
  moreover have "v \<notin> set xs" if "v \<in> set (?L u)" for u v
    using that ev_invD(4) [OF inv, of v] vs by (metis fun_upd_apply list.sel(3) list.set_intros(2))
  moreover have e: "u = v" if "x \<in> set (?L u)" "x \<in> set (?L v)" for u v x
    using that ev_invD(5) [OF inv, of x] vs by (metis fun_upd_apply list.sel(3) list.set_intros(2))
  moreover have "ev_thr ?s v = Ev_waiting \<longleftrightarrow> v \<in> set xs \<or> (\<exists>u. v \<in> set (?L u))" for v
  proof (cases "v = w")
    case True
    then show ?thesis using w vs by (auto split: if_splits)
  next
    case False
    then have "(\<exists>u. v \<in> set (?L u)) \<longleftrightarrow> (\<exists>u. v \<in> set (L u))" using vs by (metis fun_upd_apply list.sel(3) set_ConsD list.set_intros(2))
    then show ?thesis using ev_invD(6) [OF inv, of v] False pc ev_invD(6) [OF inv, of t] by auto
  qed
  moreover have "word_ok (ev_mem ?s) xs" using ev_invD(1) [OF inv] by (simp split: eword.splits)
  ultimately show "ev_inv ?s xs ?L" by (intro ev_invI) blast+
qed

lemma ev_inv_run:
  assumes inv: "ev_inv s xs L" and st: "ev_tstep spurious t (ev_thr s t) (ev_mem s) = Some (pc', m)"
  shows "\<exists>xs' L'. ev_inv (s\<lparr>ev_mem := m, ev_thr := (ev_thr s)(t := pc')\<rparr>) xs' L'"
proof -
  note word = ev_invD(1) [OF inv] and walk = ev_invD(2) [OF inv, of t] and loc = ev_invD(3) [OF inv, of t]
  have still: "\<exists>xs' L'. ev_inv (s\<lparr>ev_mem := m, ev_thr := (ev_thr s)(t := pc')\<rparr>) xs' L'"
    if "ev_thr s t \<noteq> Ev_waiting" "pc' \<noteq> Ev_waiting" "word_ok m xs" "walks (ev_next m) pc' (L t)" "ev_local m t pc'"
      "\<And>u. u \<noteq> t \<Longrightarrow> ev_awaiting m u = ev_awaiting (ev_mem s) u \<and> ev_next m u = ev_next (ev_mem s) u"
    using ev_inv_still [OF inv that] by blast
  show ?thesis
  proof (cases "ev_thr s t")
    case Ev_ready
    then show ?thesis using st word walk by (intro still) (auto split: if_splits)
  next
    case Ev_susp_load
    then show ?thesis using st word walk
      by (intro still) (auto simp: ev_susp_test_props split: eword.splits)
  next
    case (Ev_susp_next p)
    then show ?thesis using st word walk loc ev_word_upd [OF inv, of t p] by (intro still) auto
  next
    case (Ev_susp_cas old)
    show ?thesis
    proof (cases "ev_state (ev_mem s) = EWaiters old \<and> \<not> spurious")
      case True
      then have "pc' = Ev_waiting" "m = (ev_mem s)\<lparr>ev_state := EWaiters (Some t)\<rparr>"
        using st Ev_susp_cas by (auto simp: compare_exchange_def)
      then show ?thesis using ev_inv_push [OF inv Ev_susp_cas] True by auto
    next
      case False
      then have "pc' = ev_susp_test (ev_state (ev_mem s))" "m = ev_mem s"
        using st Ev_susp_cas by (auto simp: compare_exchange_def)
      then show ?thesis using word walk loc Ev_susp_cas by (intro still) (auto simp: ev_susp_test_props)
    qed
  next
    case (Ev_exchange policy)
    then show ?thesis using st ev_inv_exchange [OF inv, of t policy] by auto
  next
    case (Ev_reverse p)
    then obtain q h where "awaiter_list_reverse (ev_next (ev_mem s)) p = Some (q, h)"
        and r: "ev_inv (s\<lparr>ev_mem := (ev_mem s)\<lparr>ev_next := h\<rparr>, ev_thr := (ev_thr s)(t := Ev_walk q)\<rparr>) xs (L(t := rev (L t)))"
      using ev_inv_reverse [OF inv] by blast
    then have "pc' = Ev_walk q" "m = (ev_mem s)\<lparr>ev_next := h\<rparr>" using st Ev_reverse by auto
    with r show ?thesis by blast
  next
    case (Ev_walk p)
    then show ?thesis using st word walk lst_distinct [of "ev_next (ev_mem s)" p "L t"]
      by (cases p; intro still) (auto simp: lst_Some)
  next
    case Ev_reset
    then have "pc' = Ev_idle" "m = (if ev_state (ev_mem s) = ESet then (ev_mem s)\<lparr>ev_state := EWaiters None\<rparr> else ev_mem s)"
      using st by (auto simp: compare_exchange_def split: if_splits)
    then show ?thesis using word walk Ev_reset by (intro still) (auto split: if_splits eword.splits)
  qed (use st in auto)
qed

lemma ev_inv_any_step:
  assumes inv: "ev_inv s xs L" and st: "ev_step t s s'"
  shows "\<exists>xs' L'. ev_inv s' xs' L'"
  using st
proof (cases rule: ev_step.cases)
  case (ev_run spurious pc' m)
  then show ?thesis using ev_inv_run [OF inv] by blast
next
  case (ev_wake w n c)
  then have "c = w" using ev_inv_wake(1) [OF inv] by simp
  then show ?thesis using ev_wake ev_inv_wake(4) [OF inv] by blast
next
  case (ev_call pc)
  have "ev_inv (s\<lparr>ev_mem := ev_mem s, ev_thr := (ev_thr s)(t := pc)\<rparr>) xs L"
    using ev_call ev_invD(1) [OF inv] ev_invD(2) [OF inv, of t] by (intro ev_inv_still [OF inv]) auto
  then show ?thesis using ev_call by auto
qed

lemma ev_inv_init: "ev_init s \<Longrightarrow> ev_inv s [] (\<lambda>_. [])"
  by (auto simp: ev_init_def ev_inv_def event_new_def)

interpretation evs: invariant_system ev_init ev_nxt "\<lambda>s. \<exists>xs L. ev_inv s xs L"
  by unfold_locales (use ev_inv_init ev_inv_any_step in blast)+

lemma ev_can_step:
  assumes inv: "ev_inv s xs L" and pc: "ev_thr s t \<notin> {Ev_idle, Ev_waiting}"
  shows "\<exists>s'. ev_step t s s'"
proof (cases "ev_thr s t")
  case (Ev_resume w n)
  then show ?thesis using ev_inv_wake(1,2) [OF inv Ev_resume] ev_wake by blast
next
  case (Ev_reverse p)
  then obtain q h where "awaiter_list_reverse (ev_next (ev_mem s)) p = Some (q, h)"
    using ev_inv_reverse [OF inv] by blast
  then have "ev_tstep False t (ev_thr s t) (ev_mem s) \<noteq> None" using Ev_reverse by simp
  then show ?thesis using ev_run by fast
next
  case (Ev_walk p)
  then have "ev_tstep False t (ev_thr s t) (ev_mem s) \<noteq> None" by (cases p) auto
  then show ?thesis using ev_run by fast
qed (use pc ev_run [of False t s] in \<open>fastforce split: prod.splits\<close>)+

lemma walks_unique: "walks h pc ws \<Longrightarrow> walks h pc vs \<Longrightarrow> ws = vs"
  by (cases pc) (auto dest: lst_unique)

lemma event_await_view:
  assumes "ev_view e (Some ws)" and "t \<notin> set ws"
  shows "fst (event_await e t)" and "ev_view (snd (event_await e t)) (Some (t # ws))"
  using assms by (auto simp: event_await_def is_set_def event_await_suspend_def Let_def)

definition event_await_all :: "event \<Rightarrow> handle list \<Rightarrow> event" where
  "event_await_all = foldl (\<lambda>e t. snd (event_await e t))"

lemma event_await_all_view:
  "ev_view e (Some ws) \<Longrightarrow> distinct (es @ ws) \<Longrightarrow> ev_view (event_await_all e es) (Some (rev es @ ws))"
proof (induction es arbitrary: e ws)
  case Nil
  then show ?case by (simp add: event_await_all_def)
next
  case (Cons t es)
  then have "ev_view (snd (event_await e t)) (Some (t # ws))" by (intro event_await_view) auto
  from Cons.IH [OF this] Cons.prems show ?case by (simp add: event_await_all_def)
qed

lemma event_set_view:
  assumes "ev_view e (Some ws)"
  shows "\<exists>e'. event_set policy e = Some (case policy of Lifo \<Rightarrow> ws | Fifo \<Rightarrow> rev ws, e') \<and> is_set e'"
proof -
  obtain p where p: "ev_state e = EWaiters p" "lst (ev_next e) p ws" using assms by auto
  obtain q h where "awaiter_list_reverse (ev_next e) p = Some (q, h)" "lst h q (rev ws)"
    using awaiter_list_reverse_lst [OF p(2)] by blast
  then show ?thesis using p by (cases policy) (simp_all add: event_set_def is_set_def)
qed

lemma event_set_again: "is_set e \<Longrightarrow> event_set policy e = Some ([], e)"
  by (simp add: event_set_def is_set_def)

lemma event_set_sets: "event_set policy e = Some (ws, e') \<Longrightarrow> is_set e'"
  by (auto simp: event_set_def is_set_def split: eword.splits option.splits prod.splits)

section \<open>Properties\<close>

text \<open>C5: no waiter of an event is lost or resumed twice.  In every reachable state, for any
  number of concurrent \<open>co_await\<close>, \<open>set\<close> and \<open>reset\<close> calls, a suspended coroutine is in exactly
  one place: in the list of the event, or among the awaiters that exactly one running
  \<open>set\<close> call has still to resume.\<close>

theorem event_no_lost_waiter:
  assumes "reach ev_init ev_nxt s" and "ev_thr s w = Ev_waiting"
  shows "(\<exists>p xs. ev_state (ev_mem s) = EWaiters p \<and> lst (ev_next (ev_mem s)) p xs \<and> w \<in> set xs) \<noteq>
     (\<exists>!t. \<exists>ws. walks (ev_next (ev_mem s)) (ev_thr s t) ws \<and> w \<in> set ws)"
proof -
  obtain xs L where inv: "ev_inv s xs L" using evs.inv_reach [OF assms(1)] by blast
  have walk: "(\<exists>ws. walks (ev_next (ev_mem s)) (ev_thr s t) ws \<and> w \<in> set ws) \<longleftrightarrow> w \<in> set (L t)" for t
    using ev_invD(2) [OF inv, of t] walks_unique by blast
  have word: "(\<exists>p xs. ev_state (ev_mem s) = EWaiters p \<and> lst (ev_next (ev_mem s)) p xs \<and> w \<in> set xs) \<longleftrightarrow> w \<in> set xs"
    using ev_invD(1) [OF inv] by (auto split: eword.splits dest: lst_unique)
  have "w \<in> set xs \<or> (\<exists>t. w \<in> set (L t))" using ev_invD(6) [OF inv, of w] assms(2) by blast
  then show ?thesis unfolding walk word using ev_invD(4,5) [OF inv] by blast
qed

text \<open>\<open>set\<close> never gets stuck.  In every reachable state a coroutine inside \<open>co_await\<close>, \<open>set\<close>
  or \<open>reset\<close> can take its next step: the reversal returns, and the coroutine that \<open>set\<close> resumes next
  is a suspended one; and when the event is set and no \<open>set\<close> call is running, nobody waits.\<close>

theorem event_progress:
  assumes "reach ev_init ev_nxt s"
  shows "(ev_thr s t \<notin> {Ev_idle, Ev_waiting} \<longrightarrow> (\<exists>s'. ev_step t s s')) \<and>
     (ev_state (ev_mem s) = ESet \<and> (\<forall>u. walks (ev_next (ev_mem s)) (ev_thr s u) []) \<longrightarrow> ev_thr s t \<noteq> Ev_waiting)"
proof -
  obtain xs L where inv: "ev_inv s xs L" using evs.inv_reach [OF assms] by blast
  have "ev_thr s t \<noteq> Ev_waiting" if "ev_state (ev_mem s) = ESet" "\<forall>u. walks (ev_next (ev_mem s)) (ev_thr s u) []"
  proof -
    have "L u = []" for u using walks_unique ev_invD(2) [OF inv, of u] that(2) by blast
    moreover have "xs = []" using ev_invD(1) [OF inv] that(1) by simp
    ultimately show ?thesis using ev_invD(6) [OF inv, of t] by simp
  qed
  then show ?thesis using ev_can_step [OF inv, of t] by blast
qed

text \<open>The resume order.  If the distinct coroutines \<open>es\<close> await an unset event in this order,
  \<open>set\<close> returns after resuming all of them, in the order \<open>es\<close> under the FIFO policy and in the
  opposite order under LIFO; afterwards the event is set, a further \<open>set\<close> resumes nobody, an await
  does not suspend, and \<open>reset\<close> makes the event unset and empty.\<close>

theorem event_set_order:
  assumes "distinct es"
  shows "\<exists>e'. event_set policy (event_await_all (event_new False) es) =
       Some (case policy of Fifo \<Rightarrow> es | Lifo \<Rightarrow> rev es, e') \<and>
     is_set e' \<and> event_set p2 e' = Some ([], e') \<and> \<not> fst (event_await e' t) \<and>
     ev_view (event_reset e') (Some [])"
proof -
  have "ev_view (event_new False) (Some [])" by (simp add: event_new_def)
  then have "ev_view (event_await_all (event_new False) es) (Some (rev es))"
    using event_await_all_view [of "event_new False" "[]" es] assms by simp
  from event_set_view [OF this, of policy]
  obtain e' where "event_set policy (event_await_all (event_new False) es) =
       Some (case policy of Fifo \<Rightarrow> es | Lifo \<Rightarrow> rev es, e')" "is_set e'"
    by (cases policy) auto
  then show ?thesis
    by (auto simp: event_set_again event_await_def event_reset_def is_set_def compare_exchange_def)
qed

section \<open>Witnesses\<close>

definition ev_demo :: ev_sys where
  "ev_demo = \<lparr>ev_mem = \<lparr>ev_state = EWaiters (Some 1), ev_next = \<lambda>_. None, ev_awaiting = (\<lambda>_. None)(1 := Some 1)\<rparr>,
     ev_thr = (\<lambda>_. Ev_idle)(1 := Ev_waiting)\<rparr>"

lemma ev_demo_reach: "reach ev_init ev_nxt ev_demo"
proof -
  let ?m = "event_new False"
  let ?a = "?m\<lparr>ev_awaiting := (ev_awaiting ?m)(1 := Some 1)\<rparr>"
  let ?i = "\<lparr>ev_mem = ?m, ev_thr = \<lambda>_. Ev_idle\<rparr>"
  have 0: "reach ev_init ev_nxt ?i" by (intro reach_init) (auto simp: ev_init_def)
  have 1: "reach ev_init ev_nxt (?i\<lparr>ev_thr := (\<lambda>_. Ev_idle)(1 := Ev_ready)\<rparr>)"
    by (rule reach_step [OF 0], rule exI [of _ 1]) (use ev_call [of ?i 1 Ev_ready] in simp)
  have 2: "reach ev_init ev_nxt (?i\<lparr>ev_thr := (\<lambda>_. Ev_idle)(1 := Ev_susp_load)\<rparr>)"
    by (rule reach_step [OF 1], rule exI [of _ 1])
      (use ev_run [of False 1 "?i\<lparr>ev_thr := (\<lambda>_. Ev_idle)(1 := Ev_ready)\<rparr>"] in \<open>simp add: event_new_def\<close>)
  have 3: "reach ev_init ev_nxt \<lparr>ev_mem = ?a, ev_thr = (\<lambda>_. Ev_idle)(1 := Ev_susp_next None)\<rparr>"
    by (rule reach_step [OF 2], rule exI [of _ 1])
      (use ev_run [of False 1 "?i\<lparr>ev_thr := (\<lambda>_. Ev_idle)(1 := Ev_susp_load)\<rparr>"] in \<open>simp add: event_new_def\<close>)
  have 4: "reach ev_init ev_nxt \<lparr>ev_mem = ?a, ev_thr = (\<lambda>_. Ev_idle)(1 := Ev_susp_cas None)\<rparr>"
    by (rule reach_step [OF 3], rule exI [of _ 1])
      (use ev_run [of False 1 "\<lparr>ev_mem = ?a, ev_thr = (\<lambda>_. Ev_idle)(1 := Ev_susp_next None)\<rparr>"]
        in \<open>simp add: event_new_def fun_upd_idem\<close>)
  show ?thesis
    by (rule reach_step [OF 4], rule exI [of _ 1])
      (use ev_run [of False 1 "\<lparr>ev_mem = ?a, ev_thr = (\<lambda>_. Ev_idle)(1 := Ev_susp_cas None)\<rparr>"]
        in \<open>simp add: event_new_def compare_exchange_def ev_demo_def\<close>)
qed

theorem event_no_lost_waiter_witness:
  "ev_thr ev_demo 1 = Ev_waiting \<and>
   (\<exists>p xs. ev_state (ev_mem ev_demo) = EWaiters p \<and> lst (ev_next (ev_mem ev_demo)) p xs \<and> 1 \<in> set xs) \<noteq>
     (\<exists>!t. \<exists>ws. walks (ev_next (ev_mem ev_demo)) (ev_thr ev_demo t) ws \<and> 1 \<in> set ws)"
  using event_no_lost_waiter [OF ev_demo_reach, of 1] by (simp add: ev_demo_def)

theorem event_progress_witness:
  "\<exists>s'. ev_step 2 (ev_demo\<lparr>ev_thr := (ev_thr ev_demo)(2 := Ev_exchange Fifo)\<rparr>) s'"
proof -
  have "ev_step 2 ev_demo (ev_demo\<lparr>ev_thr := (ev_thr ev_demo)(2 := Ev_exchange Fifo)\<rparr>)"
    by (rule ev_call) (simp_all add: ev_demo_def)
  then have "reach ev_init ev_nxt (ev_demo\<lparr>ev_thr := (ev_thr ev_demo)(2 := Ev_exchange Fifo)\<rparr>)"
    using reach_step [OF ev_demo_reach] by blast
  from event_progress [OF this, of 2] show ?thesis by simp
qed

theorem event_set_order_witness:
  "\<exists>e'. event_set Fifo (event_await_all (event_new False) [3, 1, 2]) = Some ([3, 1, 2], e') \<and> is_set e'"
  using event_set_order [of "[3, 1, 2]" Fifo] by auto

end
