(* ===== verification/Latch.thy ===== *)
theory Latch
  imports Event
begin

text \<open>
  The latch of \<open>include/coro/latch.hpp\<close>: a signed 64-bit counter and an event.  \<open>count_down\<close> is the
  uninterrupted call; \<open>lt_step\<close> interleaves the decrements, the \<open>set\<close> that the last one performs,
  and the awaits.
\<close>

section \<open>The latch, call by call\<close>

record latch =
  l_count :: int64_t
  l_event :: event

definition latch_new :: "int64_t \<Rightarrow> latch" where
  "latch_new count = \<lparr>l_count = count, l_event = event_new (sint count \<le> 0)\<rparr>"

definition is_ready :: "latch \<Rightarrow> bool" where
  "is_ready l = is_set (l_event l)"

text \<open>The signed counter, converted to \<open>std::size_t\<close>: the bits stay the same.\<close>

definition remaining :: "latch \<Rightarrow> size_t" where
  "remaining l = l_count l"

text \<open>The \<open>fetch_sub\<close> of \<open>count_down\<close>: whether the event is to be set, and the new counter.\<close>

definition latch_sub :: "int64_t \<Rightarrow> latch \<Rightarrow> bool \<times> latch" where
  "latch_sub n l = (sint (l_count l) \<le> sint n, l\<lparr>l_count := l_count l - n\<rparr>)"

definition count_down :: "int64_t \<Rightarrow> latch \<Rightarrow> (handle list \<times> latch) option" where
  "count_down n l =
     (case latch_sub n l of
        (False, l') \<Rightarrow> Some ([], l')
      | (True, l') \<Rightarrow>
          (case event_set Lifo (l_event l') of
             None \<Rightarrow> None
           | Some (ws, e) \<Rightarrow> Some (ws, l'\<lparr>l_event := e\<rparr>)))"

definition latch_await :: "latch \<Rightarrow> handle \<Rightarrow> bool \<times> latch" where
  "latch_await l t = (case event_await (l_event l) t of (b, e) \<Rightarrow> (b, l\<lparr>l_event := e\<rparr>))"

section \<open>Concurrent use\<close>

text \<open>
  A counting thread can be interrupted between the \<open>fetch_sub\<close> and the \<open>set\<close>; it is \<open>pending\<close>
  then.  \<open>lt_done\<close> is what has been counted down so far, \<open>lt_waiting\<close> who is suspended.
  Threads count down by non-negative amounts and the counter does not leave the range of
  \<open>std::int64_t\<close>.
\<close>

record lt_sys =
  lt_latch :: latch
  lt_pending :: "handle \<Rightarrow> bool"
  lt_done :: int
  lt_waiting :: "handle set"

inductive lt_step :: "lt_sys \<Rightarrow> lt_sys \<Rightarrow> bool" where
  lt_sub: "\<not> lt_pending s t \<Longrightarrow> 0 \<le> sint n \<Longrightarrow> - (2 ^ 63) \<le> sint (l_count (lt_latch s)) - sint n \<Longrightarrow>
     latch_sub n (lt_latch s) = (b, l) \<Longrightarrow>
     lt_step s (s\<lparr>lt_latch := l, lt_pending := (lt_pending s)(t := b), lt_done := lt_done s + sint n\<rparr>)"
| lt_set: "lt_pending s t \<Longrightarrow> event_set Lifo (l_event (lt_latch s)) = Some (ws, e) \<Longrightarrow>
     lt_step s (s\<lparr>lt_latch := (lt_latch s)\<lparr>l_event := e\<rparr>, lt_pending := (lt_pending s)(t := False),
       lt_waiting := lt_waiting s - set ws\<rparr>)"
| lt_await: "t \<notin> lt_waiting s \<Longrightarrow> latch_await (lt_latch s) t = (b, l) \<Longrightarrow>
     lt_step s (s\<lparr>lt_latch := l, lt_waiting := (if b then insert t (lt_waiting s) else lt_waiting s)\<rparr>)"

definition lt_init :: "int64_t \<Rightarrow> lt_sys \<Rightarrow> bool" where
  "lt_init count s \<longleftrightarrow> s = \<lparr>lt_latch = latch_new count, lt_pending = \<lambda>_. False, lt_done = 0, lt_waiting = {}\<rparr>"

definition lt_count_ok :: "int \<Rightarrow> int \<Rightarrow> int \<Rightarrow> bool \<Rightarrow> bool \<Rightarrow> bool" where
  "lt_count_ok count c d ready pending \<longleftrightarrow>
     c = count - d \<and> (ready \<or> pending \<longleftrightarrow> c \<le> 0)"

definition lt_wait_ok :: "event \<Rightarrow> handle set \<Rightarrow> bool" where
  "lt_wait_ok e waiting \<longleftrightarrow>
     (if is_set e then waiting = {} else \<exists>ws. ev_view e (Some ws) \<and> set ws = waiting)"

definition lt_inv :: "int64_t \<Rightarrow> lt_sys \<Rightarrow> bool" where
  "lt_inv count s \<longleftrightarrow>
     lt_count_ok (sint count) (sint (l_count (lt_latch s))) (lt_done s) (is_ready (lt_latch s)) (\<exists>t. lt_pending s t) \<and>
     lt_wait_ok (l_event (lt_latch s)) (lt_waiting s)"

section \<open>Lemmas\<close>

lemma sint_minus_in_range:
  fixes a b :: int64_t
  assumes "0 \<le> sint b" and "- (2 ^ 63) \<le> sint a - sint b"
  shows "sint (a - b) = sint a - sint b"
proof -
  have "sint a < 2 ^ 63" using sint_lt [of a] by simp
  then have "signed_take_bit 63 (sint a - sint b) = sint a - sint b"
    using assms by (intro signed_take_bit_int_eq_self) auto
  then show ?thesis by (simp add: sint_word_ariths)
qed

lemma lt_inv_sub:
  assumes inv: "lt_inv count s" and n: "0 \<le> sint n" "- (2 ^ 63) \<le> sint (l_count (lt_latch s)) - sint n"
    and st: "latch_sub n (lt_latch s) = (b, l)" and t: "\<not> lt_pending s t"
  shows "lt_inv count (s\<lparr>lt_latch := l, lt_pending := (lt_pending s)(t := b), lt_done := lt_done s + sint n\<rparr>)"
proof -
  have l: "b = (sint (l_count (lt_latch s)) \<le> sint n)" "l = (lt_latch s)\<lparr>l_count := l_count (lt_latch s) - n\<rparr>"
    using st by (auto simp: latch_sub_def)
  have c: "sint (l_count l) = sint (l_count (lt_latch s)) - sint n"
    using sint_minus_in_range [OF n] l by simp
  have p: "Ex ((lt_pending s)(t := b)) \<longleftrightarrow> b \<or> Ex (lt_pending s)" using t by (metis fun_upd_apply)
  show ?thesis
    using inv n(1) p c unfolding lt_inv_def lt_count_ok_def by (auto simp: l is_ready_def)
qed

lemma lt_inv_set:
  assumes inv: "lt_inv count s" and t: "lt_pending s t"
  shows "\<exists>ws e. event_set Lifo (l_event (lt_latch s)) = Some (ws, e) \<and>
     lt_inv count (s\<lparr>lt_latch := (lt_latch s)\<lparr>l_event := e\<rparr>, lt_pending := (lt_pending s)(t := False),
       lt_waiting := lt_waiting s - set ws\<rparr>)"
proof -
  have "\<exists>e. event_set Lifo (l_event (lt_latch s)) = Some (if is_ready (lt_latch s) then [] else ws, e) \<and> is_set e"
    if "is_ready (lt_latch s) \<or> ev_view (l_event (lt_latch s)) (Some ws)" for ws
    using that event_set_view [of "l_event (lt_latch s)" ws Lifo] event_set_again [of "l_event (lt_latch s)" Lifo]
    by (auto simp: is_ready_def is_set_def)
  moreover obtain ws where "is_ready (lt_latch s) \<and> lt_waiting s = {} \<or>
      \<not> is_ready (lt_latch s) \<and> ev_view (l_event (lt_latch s)) (Some ws) \<and> set ws = lt_waiting s"
    using inv by (auto simp: lt_inv_def lt_wait_ok_def is_ready_def split: if_splits)
  ultimately obtain vs e where "event_set Lifo (l_event (lt_latch s)) = Some (vs, e)" "is_set e" "lt_waiting s - set vs = {}"
    by fastforce
  moreover have "sint (l_count (lt_latch s)) \<le> 0" using inv t by (auto simp: lt_inv_def lt_count_ok_def)
  ultimately show ?thesis using inv by (auto simp: lt_inv_def lt_count_ok_def lt_wait_ok_def is_ready_def)
qed

lemma lt_inv_await:
  assumes inv: "lt_inv count s" and t: "t \<notin> lt_waiting s" and st: "latch_await (lt_latch s) t = (b, l)"
  shows "lt_inv count (s\<lparr>lt_latch := l, lt_waiting := (if b then insert t (lt_waiting s) else lt_waiting s)\<rparr>)"
proof (cases "is_ready (lt_latch s)")
  case True
  then have "b = False" "l = lt_latch s" using st by (auto simp: latch_await_def event_await_def is_ready_def)
  then show ?thesis using inv by simp
next
  case False
  then obtain ws where ws: "ev_view (l_event (lt_latch s)) (Some ws)" "set ws = lt_waiting s"
    using inv by (auto simp: lt_inv_def lt_wait_ok_def is_ready_def)
  have "b = fst (event_await (l_event (lt_latch s)) t)" and l: "l_event l = snd (event_await (l_event (lt_latch s)) t)"
      and cnt: "l_count l = l_count (lt_latch s)"
    using st by (auto simp: latch_await_def split: prod.splits)
  then have b: "b" and v: "ev_view (l_event l) (Some (t # ws))"
    using event_await_view [OF ws(1), of t] t ws(2) by simp_all
  then have "\<not> is_set (l_event l)" by (auto simp: is_set_def)
  moreover have "\<exists>vs. ev_view (l_event l) (Some vs) \<and> set vs = insert t (lt_waiting s)"
    using v ws by (intro exI [of _ "t # ws"]) simp
  ultimately show ?thesis using inv False b cnt by (simp add: lt_inv_def lt_wait_ok_def is_ready_def)
qed

interpretation lts: invariant_system "lt_init count" lt_step "lt_inv count" for count
proof
  fix s assume "lt_init count s"
  then show "lt_inv count s"
    by (auto simp: lt_init_def lt_inv_def latch_new_def event_new_def lt_count_ok_def lt_wait_ok_def is_ready_def is_set_def)
next
  fix s s' assume inv: "lt_inv count s" and "lt_step s s'"
  from this(2) show "lt_inv count s'"
  proof (cases rule: lt_step.cases)
    case (lt_sub t n b l)
    then show ?thesis using lt_inv_sub [OF inv] by simp
  next
    case (lt_set t ws e)
    then show ?thesis using lt_inv_set [OF inv, of t] by auto
  next
    case (lt_await t b l)
    then show ?thesis using lt_inv_await [OF inv] by simp
  qed
qed

section \<open>Properties\<close>

text \<open>C6: the latch opens exactly when the count is used up.  For a latch created with \<open>count\<close> and
  any interleaving of \<open>count_down\<close> and \<open>co_await\<close> calls: it is not ready while less than \<open>count\<close> has
  been counted down; once at least \<open>count\<close> has been counted down and no thread is between its
  decrement and its \<open>set\<close>, it is ready and no coroutine is left suspended; and a thread that is there
  can always finish.\<close>

theorem latch_opens:
  assumes "reach (lt_init count) lt_step s"
  shows "(is_ready (lt_latch s) \<longrightarrow> sint count \<le> lt_done s) \<and>
     (sint count \<le> lt_done s \<and> (\<forall>t. \<not> lt_pending s t) \<longrightarrow> is_ready (lt_latch s) \<and> lt_waiting s = {}) \<and>
     (lt_pending s t \<longrightarrow> (\<exists>s'. lt_step s s' \<and> \<not> lt_pending s' t \<and> is_ready (lt_latch s') \<and> lt_waiting s' = {}))"
proof -
  note inv = lts.inv_reach [OF assms]
  have "\<exists>s'. lt_step s s' \<and> \<not> lt_pending s' t \<and> is_ready (lt_latch s') \<and> lt_waiting s' = {}" if t: "lt_pending s t"
  proof -
    obtain ws e where e: "event_set Lifo (l_event (lt_latch s)) = Some (ws, e)"
      and i: "lt_inv count (s\<lparr>lt_latch := (lt_latch s)\<lparr>l_event := e\<rparr>, lt_pending := (lt_pending s)(t := False),
         lt_waiting := lt_waiting s - set ws\<rparr>)" using lt_inv_set [OF inv t] by blast
    have "is_set e" using event_set_sets [OF e] .
    then show ?thesis using i lt_step.lt_set [of s t, OF t e] by (fastforce simp: lt_inv_def lt_wait_ok_def is_ready_def)
  qed
  then show ?thesis using inv by (auto simp: lt_inv_def lt_count_ok_def lt_wait_ok_def is_ready_def)
qed

text \<open>\<open>remaining()\<close> on an overshot latch.  Counting a fresh latch of \<open>count\<close> down by more than
  \<open>count\<close> makes the counter negative, and \<open>remaining()\<close>, which converts it to an unsigned size,
  then answers a number of at least \<open>2^63\<close> although nothing is left to wait for.\<close>

theorem latch_remaining_overshoot:
  assumes "0 < sint count" and "sint count < sint n"
  shows "\<exists>l. count_down n (latch_new count) = Some ([], l) \<and> is_ready l \<and>
     int (unat (remaining l)) = 2 ^ 64 - (sint n - sint count) \<and> 2 ^ 63 \<le> unat (remaining l)"
proof -
  have rng: "sint n < 2 ^ 63" "sint (count - n) = sint count - sint n"
    using sint_lt [of n] sint_minus_in_range [of n count] assms by auto
  have "uint (count - n) = sint (count - n) mod 2 ^ 64" by (simp add: uint_sint take_bit_eq_mod)
  also have "\<dots> = (sint count - sint n + 2 ^ 64) mod 2 ^ 64" by (simp add: rng)
  also have "\<dots> = sint count - sint n + 2 ^ 64" using assms rng(1) by (intro mod_pos_pos_trivial) auto
  finally have u: "uint (count - n) = 2 ^ 64 - (sint n - sint count)" by simp
  then have "int (2 ^ 63) \<le> int (unat (count - n))" using assms rng(1) by simp
  then have "2 ^ 63 \<le> unat (count - n)" by (simp only: of_nat_le_iff)
  moreover obtain e where "event_set Lifo (event_new False) = Some ([], e)" "is_set e"
    using event_set_view [of "event_new False" "[]" Lifo] by (auto simp: event_new_def)
  ultimately show ?thesis using assms u
    by (simp add: count_down_def latch_sub_def latch_new_def remaining_def is_ready_def)
qed

section \<open>Witnesses\<close>

theorem latch_opens_witness:
  "\<exists>s. reach (lt_init 1) lt_step s \<and> sint (1 :: int64_t) \<le> lt_done s \<and> lt_pending s 7 \<and>
     (\<exists>s'. lt_step s s' \<and> \<not> lt_pending s' 7 \<and> is_ready (lt_latch s') \<and> lt_waiting s' = {})"
proof -
  let ?i = "\<lparr>lt_latch = latch_new 1, lt_pending = \<lambda>_. False, lt_done = 0, lt_waiting = {}\<rparr>"
  let ?l = "(latch_new 1)\<lparr>l_count := 0\<rparr>"
  let ?s = "?i\<lparr>lt_latch := ?l, lt_pending := (\<lambda>_. False)(7 := True), lt_done := 1\<rparr>"
  have "lt_step ?i ?s"
    using lt_step.lt_sub [of ?i 7 1 True ?l] by (simp add: latch_sub_def latch_new_def)
  moreover have "reach (lt_init 1) lt_step ?i" by (rule reach_init) (simp add: lt_init_def)
  ultimately have r: "reach (lt_init 1) lt_step ?s" using reach_step by fast
  have "\<exists>s'. lt_step ?s s' \<and> \<not> lt_pending s' 7 \<and> is_ready (lt_latch s') \<and> lt_waiting s' = {}"
    using latch_opens [OF r, of 7] by simp
  with r show ?thesis by (intro exI [of _ ?s]) simp
qed

theorem latch_remaining_overshoot_witness:
  "\<exists>l. count_down 3 (latch_new 1) = Some ([], l) \<and> is_ready l \<and> 2 ^ 63 \<le> unat (remaining l)"
  using latch_remaining_overshoot [of 1 3] by auto

end
