(* ===== verification/Monitor.thy ===== *)
theory Monitor
  imports Mutex
begin

text \<open>
  Objects whose operations run under an internal \<open>coro::mutex\<close>: the semaphore, the queue, the
  ring buffer and the shared mutex.  Because the mutex excludes concurrent locked parts
  (theory \<open>Mutex\<close>), a locked part is one step here; coroutines queue for the mutex, enter, and leave in
  any order, and lock-free operations happen at any time.  The locale \<open>monitor\<close> is the contract that
  such an object has to meet and what follows from it once and for all; \<open>monitor_history\<close>
  adds a relation between the log of an execution and the object, and \<open>monitor_calls\<close> the relation
  between the calls that have not returned and the coroutines the object knows of.
\<close>

section \<open>The system\<close>

text \<open>
  A coroutine is outside the object, queued on its mutex, or it owns the mutex and is about to run
  the locked part of its operation.  A log records the outcome of every locked part and of
  every lock-free operation.
\<close>

datatype 'op phase = Outside | Queued 'op | Entered 'op

record ('s, 'op, 'o) mon =
  mon_obj :: 's
  mon_ph :: "handle \<Rightarrow> 'op phase"
  mon_log :: "(handle \<times> 'o) list"

fun grant :: "handle option \<Rightarrow> (handle \<Rightarrow> 'op phase) \<Rightarrow> handle \<Rightarrow> 'op phase" where
  "grant None ph = ph"
| "grant (Some w) ph = (case ph w of Queued op \<Rightarrow> ph(w := Entered op) | _ \<Rightarrow> ph)"

text \<open>
  \<open>mtx\<close> and \<open>set_mtx\<close> access the mutex of the object.  \<open>can s t op\<close> says that \<open>t\<close> is not suspended
  inside the object; \<open>start s t op\<close> is what the code tests before it asks for the mutex.
  \<open>body op t s\<close> is the locked part: its outcome, the coroutine that receives the mutex from the
  \<open>unlock\<close> it performs, and the new object.  \<open>free t s\<close> are the lock-free operations.
\<close>

inductive mon_step ::
    "('s \<Rightarrow> cmutex) \<Rightarrow> (cmutex \<Rightarrow> 's \<Rightarrow> 's) \<Rightarrow> ('s \<Rightarrow> handle \<Rightarrow> 'op \<Rightarrow> bool) \<Rightarrow> ('s \<Rightarrow> handle \<Rightarrow> 'op \<Rightarrow> bool) \<Rightarrow>
     ('op \<Rightarrow> handle \<Rightarrow> 's \<Rightarrow> ('o \<times> handle option \<times> 's) result) \<Rightarrow> (handle \<Rightarrow> 's \<Rightarrow> 'o \<Rightarrow> 's \<Rightarrow> bool) \<Rightarrow>
     ('s, 'op, 'o) mon \<Rightarrow> ('s, 'op, 'o) mon \<Rightarrow> bool"
  for mtx :: "'s \<Rightarrow> cmutex" and set_mtx :: "cmutex \<Rightarrow> 's \<Rightarrow> 's" and start :: "'s \<Rightarrow> handle \<Rightarrow> 'op \<Rightarrow> bool"
    and can :: "'s \<Rightarrow> handle \<Rightarrow> 'op \<Rightarrow> bool" and body :: "'op \<Rightarrow> handle \<Rightarrow> 's \<Rightarrow> ('o \<times> handle option \<times> 's) result"
    and free :: "handle \<Rightarrow> 's \<Rightarrow> 'o \<Rightarrow> 's \<Rightarrow> bool" where
  mon_enter: "mon_ph s t = Outside \<Longrightarrow> start (mon_obj s) t op \<Longrightarrow> can (mon_obj s) t op \<Longrightarrow> lock_await (mtx (mon_obj s)) t = (susp, m) \<Longrightarrow>
     mon_step mtx set_mtx start can body free s
       (s\<lparr>mon_obj := set_mtx m (mon_obj s), mon_ph := (mon_ph s)(t := if susp then Queued op else Entered op)\<rparr>)"
| mon_body: "mon_ph s t = Entered op \<Longrightarrow> body op t (mon_obj s) = Inr (out, w, obj) \<Longrightarrow>
     mon_step mtx set_mtx start can body free s
       (s\<lparr>mon_obj := obj, mon_ph := grant w ((mon_ph s)(t := Outside)), mon_log := (t, out) # mon_log s\<rparr>)"
| mon_free: "mon_ph s t = Outside \<Longrightarrow> free t (mon_obj s) out obj \<Longrightarrow>
     mon_step mtx set_mtx start can body free s (s\<lparr>mon_obj := obj, mon_log := (t, out) # mon_log s\<rparr>)"

text \<open>Coroutines that a waker resumes one after the other, each with the result \<open>x\<close> in its awaiter.\<close>

definition wake_all :: "handle list \<Rightarrow> 'x \<Rightarrow> (handle \<Rightarrow> 'x option) \<Rightarrow> handle \<Rightarrow> 'x option" where
  "wake_all ws x r = (\<lambda>t. if t \<in> set ws then Some x else r t)"

definition mon_init :: "('s \<Rightarrow> bool) \<Rightarrow> ('s, 'op, 'o) mon \<Rightarrow> bool" where
  "mon_init init s \<longleftrightarrow> init (mon_obj s) \<and> (\<forall>t. mon_ph s t = Outside) \<and> mon_log s = []"

text \<open>Who holds the mutex and who waits for it, read off the coroutines.\<close>

definition mon_lock_ok :: "cmutex \<Rightarrow> (handle \<Rightarrow> 'op phase) \<Rightarrow> bool" where
  "mon_lock_ok c ph =
     (case c of
        CUnlocked \<Rightarrow> \<forall>t. ph t = Outside
      | CLocked ws \<Rightarrow> distinct ws \<and> (\<forall>t. t \<in> set ws \<longleftrightarrow> (\<exists>op. ph t = Queued op)) \<and> (\<exists>!t. \<exists>op. ph t = Entered op))"

section \<open>Lemmas\<close>

lemma lock_await_simps [simp]:
  "lock_await CUnlocked t = (False, CLocked [])" "lock_await (CLocked ws) t = (True, CLocked (t # ws))"
  by (simp_all add: lock_await_def)

lemma wake_all_apply [simp]: "wake_all ws x r t = (if t \<in> set ws then Some x else r t)"
  by (simp add: wake_all_def)

lemma unlock_locked: "\<exists>w c. unlock (CLocked ws) = Inr (w, c)"
  by (cases ws) auto

lemma mon_lock_enter:
  assumes "mon_lock_ok c ph" and "ph t = Outside" and "lock_await c t = (susp, c')"
  shows "mon_lock_ok c' (ph(t := if susp then Queued op else Entered op))"
proof (cases c)
  case CUnlocked
  then show ?thesis using assms by (auto simp: mon_lock_ok_def)
next
  case (CLocked ws)
  then have ws: "distinct ws" "\<And>u. u \<in> set ws \<longleftrightarrow> (\<exists>op. ph u = Queued op)" and ex: "\<exists>!u. \<exists>op. ph u = Entered op"
    using assms(1) by (auto simp: mon_lock_ok_def)
  obtain u op' where u: "ph u = Entered op'" "\<And>v op. ph v = Entered op \<Longrightarrow> v = u" using ex by blast
  have ut: "u \<noteq> t" using u(1) assms(2) by auto
  have "\<exists>!v. \<exists>o'. (ph(t := Queued op)) v = Entered o'"
  proof (rule ex1I [of _ u])
    show "\<exists>o'. (ph(t := Queued op)) u = Entered o'" using u(1) ut by simp
  next
    fix v assume "\<exists>o'. (ph(t := Queued op)) v = Entered o'"
    then show "v = u" using u(2) by (auto split: if_split_asm)
  qed
  moreover have "u \<in> set (t # ws) \<longleftrightarrow> (\<exists>o'. (ph(t := Queued op)) u = Queued o')" for u using ws(2) [of u] by auto
  moreover have "distinct (t # ws)" using ws assms(2) by simp
  moreover have "susp" "c' = CLocked (t # ws)" using CLocked assms(3) by auto
  ultimately show ?thesis by (simp add: mon_lock_ok_def del: fun_upd_apply set_simps)
qed

lemma mon_lock_leave:
  assumes "mon_lock_ok (CLocked ws) ph" and "ph t = Entered op" and "unlock (CLocked ws) = Inr (w, c)"
  shows "mon_lock_ok c (grant w (ph(t := Outside)))"
proof -
  have ws: "distinct ws" "\<And>u. u \<in> set ws \<longleftrightarrow> (\<exists>op. ph u = Queued op)" and only: "\<And>u o'. ph u = Entered o' \<Longrightarrow> u = t"
    using assms(1,2) by (auto simp: mon_lock_ok_def)
  show ?thesis
  proof (cases ws)
    case Nil
    have "u \<noteq> t \<Longrightarrow> ph u = Outside" for u using ws(2) [of u] only [of u] Nil by (cases "ph u") auto
    then show ?thesis using Nil assms(3) by (auto simp: mon_lock_ok_def)
  next
    case (Cons v vs)
    then obtain o' where v: "ph v = Queued o'" using ws(2) [of v] by auto
    have vt: "v \<noteq> t" using v assms(2) by auto
    have g: "grant w (ph(t := Outside)) = ph(t := Outside, v := Entered o')" and c: "c = CLocked vs"
      using Cons assms(3) v vt by auto
    have "u \<in> set vs \<longleftrightarrow> (\<exists>op. (ph(t := Outside, v := Entered o')) u = Queued op)" for u
      using ws(1) ws(2) [of u] Cons assms(2) by auto
    moreover have "\<exists>!u. \<exists>op. (ph(t := Outside, v := Entered o')) u = Entered op"
    proof (rule ex1I [of _ v])
      fix u assume "\<exists>op. (ph(t := Outside, v := Entered o')) u = Entered op"
      then show "u = v" using only [of u] by (auto split: if_split_asm)
    qed simp
    ultimately show ?thesis unfolding g c mon_lock_ok_def using ws(1) Cons by simp
  qed
qed

section \<open>The contract of an object with an internal mutex\<close>

text \<open>
  Every locked part releases the mutex exactly once on each of its branches and throws nothing;
  it keeps the invariant of the object, and what it allows other coroutines to do.
\<close>

locale monitor =
  fixes mtx :: "'s \<Rightarrow> cmutex" and set_mtx :: "cmutex \<Rightarrow> 's \<Rightarrow> 's" and start :: "'s \<Rightarrow> handle \<Rightarrow> 'op \<Rightarrow> bool"
    and can :: "'s \<Rightarrow> handle \<Rightarrow> 'op \<Rightarrow> bool" and body :: "'op \<Rightarrow> handle \<Rightarrow> 's \<Rightarrow> ('o \<times> handle option \<times> 's) result"
    and free :: "handle \<Rightarrow> 's \<Rightarrow> 'o \<Rightarrow> 's \<Rightarrow> bool"
    and init :: "'s \<Rightarrow> bool" and inv :: "'s \<Rightarrow> bool"
  assumes mtx_set: "mtx (set_mtx m s) = m"
    and inv_mtx: "inv (set_mtx m s) = inv s" and can_mtx: "can (set_mtx m s) t op = can s t op"
    and init_inv: "init s \<Longrightarrow> inv s" and init_mtx: "init s \<Longrightarrow> mtx s = CUnlocked"
    and body_releases: "inv s \<Longrightarrow> can s t op \<Longrightarrow> mtx s = CLocked ws \<Longrightarrow>
       \<exists>out w s'. body op t s = Inr (out, w, s') \<and> unlock (CLocked ws) = Inr (w, mtx s')"
    and body_inv: "inv s \<Longrightarrow> can s t op \<Longrightarrow> mtx s = CLocked ws \<Longrightarrow> body op t s = Inr (out, w, s') \<Longrightarrow> inv s'"
    and body_can: "inv s \<Longrightarrow> can s t op \<Longrightarrow> mtx s = CLocked ws \<Longrightarrow> body op t s = Inr (out, w, s') \<Longrightarrow> u \<noteq> t \<Longrightarrow>
       can s u op' \<Longrightarrow> can s' u op'"
    and free_mtx: "inv s \<Longrightarrow> free t s out s' \<Longrightarrow> mtx s' = mtx s"
    and free_inv: "inv s \<Longrightarrow> free t s out s' \<Longrightarrow> inv s'"
    and free_can: "inv s \<Longrightarrow> free t s out s' \<Longrightarrow> u \<noteq> t \<Longrightarrow> can s u op' \<Longrightarrow> can s' u op'"
begin

abbreviation mstep :: "('s, 'op, 'o) mon \<Rightarrow> ('s, 'op, 'o) mon \<Rightarrow> bool" where
  "mstep \<equiv> mon_step mtx set_mtx start can body free"

definition minv :: "('s, 'op, 'o) mon \<Rightarrow> bool" where
  "minv s \<longleftrightarrow> inv (mon_obj s) \<and> mon_lock_ok (mtx (mon_obj s)) (mon_ph s) \<and>
     (\<forall>t op. mon_ph s t = Queued op \<or> mon_ph s t = Entered op \<longrightarrow> can (mon_obj s) t op)"

lemma entered_locked:
  assumes "minv s" and "mon_ph s t = Entered op"
  shows "\<exists>ws. mtx (mon_obj s) = CLocked ws"
  using assms by (cases "mtx (mon_obj s)") (auto simp: minv_def mon_lock_ok_def)

lemma minv_init: "mon_init init s \<Longrightarrow> minv s"
  by (simp add: mon_init_def minv_def init_inv init_mtx mon_lock_ok_def)

lemma grant_phase: "grant w ph t = Queued op \<or> grant w ph t = Entered op \<Longrightarrow> ph t = Queued op \<or> ph t = Entered op"
  by (cases w) (auto split: phase.splits if_splits)

lemma minv_step:
  assumes m: "minv s" and st: "mstep s s'"
  shows "minv s'"
  using st
proof (cases rule: mon_step.cases)
  case (mon_enter t op susp c)
  then show ?thesis using m mon_lock_enter [of "mtx (mon_obj s)" "mon_ph s" t susp c op]
    by (auto simp: minv_def mtx_set inv_mtx can_mtx split: if_splits)
next
  case (mon_body t op out w obj)
  obtain ws where ws: "mtx (mon_obj s) = CLocked ws" using entered_locked [OF m] mon_body by blast
  have i: "inv (mon_obj s)" and c: "can (mon_obj s) t op" using m mon_body by (auto simp: minv_def)
  have u: "unlock (CLocked ws) = Inr (w, mtx obj)" using body_releases [OF i c ws] mon_body by auto
  have "mon_lock_ok (CLocked ws) (mon_ph s)" using m ws by (simp add: minv_def)
  then have l: "mon_lock_ok (mtx obj) (grant w ((mon_ph s)(t := Outside)))"
    using mon_lock_leave [of ws "mon_ph s" t op w] mon_body(2) u by simp
  have "can obj v op'"
    if "grant w ((mon_ph s)(t := Outside)) v = Queued op' \<or> grant w ((mon_ph s)(t := Outside)) v = Entered op'" for v op'
  proof -
    from grant_phase [OF that] have "v \<noteq> t" "mon_ph s v = Queued op' \<or> mon_ph s v = Entered op'"
      by (auto split: if_splits)
    moreover from this have "can (mon_obj s) v op'" using m by (auto simp: minv_def)
    ultimately show ?thesis using body_can [OF i c ws] mon_body by blast
  qed
  then show ?thesis using l mon_body body_inv [OF i c ws] by (simp add: minv_def)
next
  case (mon_free t out obj)
  have i: "inv (mon_obj s)" using m by (simp add: minv_def)
  have "can obj v op'" if "mon_ph s v = Queued op' \<or> mon_ph s v = Entered op'" for v op'
  proof -
    have "v \<noteq> t" using that mon_free by auto
    moreover have "can (mon_obj s) v op'" using m that by (auto simp: minv_def)
    ultimately show ?thesis using free_can [OF i] mon_free by blast
  qed
  then show ?thesis using m mon_free free_mtx [OF i] free_inv [OF i] by (simp add: minv_def)
qed

lemma minv_reach: "reach (mon_init init) mstep s \<Longrightarrow> minv s"
  by (induction rule: reach.induct) (auto intro: minv_init minv_step)

text \<open>The invariant of the object holds in every execution.\<close>

lemma obj_inv: "reach (mon_init init) mstep s \<Longrightarrow> inv (mon_obj s)"
  using minv_reach by (simp add: minv_def)

text \<open>
  Nobody is locked out: whenever the mutex is locked, or a coroutine is queued on it, exactly
  one coroutine is inside, its locked part runs to the end, and the mutex goes to the newest
  queued coroutine or becomes free.
\<close>

lemma never_locked_out:
  assumes "reach (mon_init init) mstep s" and "mtx (mon_obj s) \<noteq> CUnlocked \<or> mon_ph s u \<noteq> Outside"
  shows "\<exists>t op ws out w obj. mon_ph s t = Entered op \<and> (\<forall>v. (\<exists>op'. mon_ph s v = Entered op') \<longrightarrow> v = t) \<and>
     mtx (mon_obj s) = CLocked ws \<and> body op t (mon_obj s) = Inr (out, w, obj) \<and>
     unlock (CLocked ws) = Inr (w, mtx obj)"
proof -
  have m: "minv s" using minv_reach [OF assms(1)] .
  then have l: "mon_lock_ok (mtx (mon_obj s)) (mon_ph s)" by (simp add: minv_def)
  obtain ws where ws: "mtx (mon_obj s) = CLocked ws"
    using l assms(2) by (cases "mtx (mon_obj s)") (auto simp: mon_lock_ok_def)
  then obtain t op where t: "mon_ph s t = Entered op" "\<forall>v. (\<exists>op'. mon_ph s v = Entered op') \<longrightarrow> v = t"
    using l by (auto simp: mon_lock_ok_def)
  have "inv (mon_obj s)" "can (mon_obj s) t op" using m t by (auto simp: minv_def)
  from body_releases [OF this ws] t ws show ?thesis by blast
qed

end

text \<open>What the log and the state of the object have to do with each other.\<close>

locale monitor_history = monitor mtx set_mtx start can body free init inv
  for mtx :: "'s \<Rightarrow> cmutex" and set_mtx start can and body :: "'op \<Rightarrow> handle \<Rightarrow> 's \<Rightarrow> ('o \<times> handle option \<times> 's) result"
    and free init inv +
  fixes hist :: "(handle \<times> 'o) list \<Rightarrow> 's \<Rightarrow> bool"
  assumes hist_init: "init s \<Longrightarrow> hist [] s"
    and hist_mtx: "hist h (set_mtx m s) = hist h s"
    and hist_body: "inv s \<Longrightarrow> can s t op \<Longrightarrow> mtx s = CLocked ws \<Longrightarrow> body op t s = Inr (out, w, s') \<Longrightarrow>
       hist h s \<Longrightarrow> hist ((t, out) # h) s'"
    and hist_free: "inv s \<Longrightarrow> free t s out s' \<Longrightarrow> hist h s \<Longrightarrow> hist ((t, out) # h) s'"
begin

lemma history: "reach (mon_init init) mstep s \<Longrightarrow> hist (mon_log s) (mon_obj s)"
proof (induction rule: reach.induct)
  case (reach_init s)
  then show ?case using hist_init by (simp add: mon_init_def)
next
  case (reach_step s s')
  have m: "minv s" using minv_reach [OF reach_step.hyps(1)] .
  from reach_step.hyps(2) show ?case
  proof (cases rule: mon_step.cases)
    case (mon_enter t op susp c)
    then show ?thesis using reach_step.IH by (simp add: hist_mtx)
  next
    case (mon_body t op out w obj)
    obtain ws where "mtx (mon_obj s) = CLocked ws" using entered_locked [OF m] mon_body by blast
    moreover have "inv (mon_obj s)" "can (mon_obj s) t op" using m mon_body by (auto simp: minv_def)
    ultimately show ?thesis using hist_body reach_step.IH mon_body by simp
  next
    case (mon_free t out obj)
    have "inv (mon_obj s)" using m by (simp add: minv_def)
    then show ?thesis using reach_step.IH mon_free hist_free by simp
  qed
qed

end

text \<open>
  Calls: read off the log, a coroutine is inside a call when its newest outcome is one after
  which the call goes on (\<open>opens\<close>), for instance a suspension.  The object knows of every such coroutine
  (\<open>inside\<close>): it is on a list of waiters or on its way to be resumed.  A coroutine that is taken off a list
  without being resumed would be inside its call, and unknown to the object.
\<close>

locale monitor_calls = monitor mtx set_mtx start can body free init inv
  for mtx :: "'s \<Rightarrow> cmutex" and set_mtx start can and body :: "'op \<Rightarrow> handle \<Rightarrow> 's \<Rightarrow> ('o \<times> handle option \<times> 's) result"
    and free init inv +
  fixes inside :: "'s \<Rightarrow> handle \<Rightarrow> bool" and opens :: "'o \<Rightarrow> bool"
  assumes inside_init: "init s \<Longrightarrow> \<not> inside s t"
    and inside_mtx: "inside (set_mtx m s) t = inside s t"
    and inside_body: "inv s \<Longrightarrow> can s t op \<Longrightarrow> mtx s = CLocked ws \<Longrightarrow> body op t s = Inr (out, w, s') \<Longrightarrow>
       inside s' u = (if u = t then opens out else inside s u)"
    and inside_free: "inv s \<Longrightarrow> free t s out s' \<Longrightarrow> inside s' u = (if u = t then opens out else inside s u)"
begin

definition open_calls :: "(handle \<times> 'o) list \<Rightarrow> 's \<Rightarrow> bool" where
  "open_calls h s \<longleftrightarrow> (\<forall>t. inside s t \<longleftrightarrow> (\<exists>out. map_of h t = Some out \<and> opens out))"

end

sublocale monitor_calls \<subseteq> calls: monitor_history mtx set_mtx start can body free init inv open_calls
proof
  show "init s \<Longrightarrow> open_calls [] s" for s by (simp add: open_calls_def inside_init)
  show "open_calls h (set_mtx m s) = open_calls h s" for h m s by (simp add: open_calls_def inside_mtx)
  show "open_calls ((t, out) # h) s'"
    if "inv s" "can s t op" "mtx s = CLocked ws" "body op t s = Inr (out, w, s')" "open_calls h s" for s t op ws out w s' h
    using inside_body [OF that(1-4)] that(5) by (simp add: open_calls_def)
  show "open_calls ((t, out) # h) s'" if "inv s" "free t s out s'" "open_calls h s" for s t out s' h
    using inside_free [OF that(1,2)] that(3) by (simp add: open_calls_def)
qed

context monitor_calls
begin

lemma inside_iff:
  "reach (mon_init init) mstep s \<Longrightarrow> inside (mon_obj s) t \<longleftrightarrow> (\<exists>out. map_of (mon_log s) t = Some out \<and> opens out)"
  using calls.history by (simp add: open_calls_def)

end

text \<open>Steps with the successor state given, for building executions.\<close>

lemma reach_enter:
  assumes "reach I (mon_step mtx set_mtx start can body free) s" and "mon_ph s t = Outside"
    and "start (mon_obj s) t op" and "can (mon_obj s) t op"
    and "lock_await (mtx (mon_obj s)) t = (susp, m)"
    and "s' = s\<lparr>mon_obj := set_mtx m (mon_obj s), mon_ph := (mon_ph s)(t := if susp then Queued op else Entered op)\<rparr>"
  shows "reach I (mon_step mtx set_mtx start can body free) s'"
  using reach_step [OF assms(1)] mon_enter [of s t start op can mtx susp m set_mtx body free] assms by blast

lemma reach_body:
  assumes "reach I (mon_step mtx set_mtx start can body free) s" and "mon_ph s t = Entered op"
    and "body op t (mon_obj s) = Inr (out, w, obj)"
    and "s' = s\<lparr>mon_obj := obj, mon_ph := grant w ((mon_ph s)(t := Outside)), mon_log := (t, out) # mon_log s\<rparr>"
  shows "reach I (mon_step mtx set_mtx start can body free) s'"
  using reach_step [OF assms(1)] mon_body [of s t op body out w obj mtx set_mtx start can free] assms by blast

lemma reach_free:
  assumes "reach I (mon_step mtx set_mtx start can body free) s" and "mon_ph s t = Outside" and "free t (mon_obj s) out obj"
    and "s' = s\<lparr>mon_obj := obj, mon_log := (t, out) # mon_log s\<rparr>"
  shows "reach I (mon_step mtx set_mtx start can body free) s'"
  using reach_step [OF assms(1)] mon_free [of s t free out obj mtx set_mtx start can body] assms by blast

end
