(* ===== verification/Semaphore.thy ===== *)
theory Semaphore
  imports Monitor
begin

text \<open>
  The semaphore of \<open>include/coro/semaphore.hpp\<close> and \<open>src/semaphore.cpp\<close>.  Each operation is the code that
  runs after \<open>co_await m_mutex.lock()\<close>; it returns its outcome, the coroutine that the \<open>unlock\<close>
  passes the mutex to, and the new state.  \<open>try_acquire\<close>, the early return of
  \<open>shutdown\<close> and \<open>await_resume\<close> run without the mutex.  The counter is an integer: it stays within
  \<open>0\<close> and \<open>max_value\<close>, so \<open>std::ptrdiff_t\<close> does not overflow.
\<close>

section \<open>The semaphore\<close>

datatype semaphore_acquire_result = Acquired | Acquire_shutdown

fun semaphore_to_string :: "semaphore_acquire_result \<Rightarrow> string" where
  "semaphore_to_string Acquired = ''acquired''"
| "semaphore_to_string Acquire_shutdown = ''shutdown''"

text \<open>
  The waiters are the awaiter list, newest first.  \<open>sem_resuming\<close> are the coroutines inside
  \<open>acquire\<close> that have been let through and have yet to run \<open>await_resume\<close>.
\<close>

record semaphore =
  sem_counter :: int
  sem_waiters :: "handle list"
  sem_mutex :: cmutex
  sem_shutdown :: bool
  sem_resuming :: "handle set"

definition semaphore_new :: "int \<Rightarrow> semaphore" where
  "semaphore_new starting_value =
     \<lparr>sem_counter = starting_value, sem_waiters = [], sem_mutex = CUnlocked, sem_shutdown = False, sem_resuming = {}\<rparr>"

definition sem_unlock :: "semaphore \<Rightarrow> (handle option \<times> semaphore) result" where
  "sem_unlock s =
     (case unlock (sem_mutex s) of Inl e \<Rightarrow> Inl e | Inr (w, m) \<Rightarrow> Inr (w, s\<lparr>sem_mutex := m\<rparr>))"

definition try_acquire :: "semaphore \<Rightarrow> bool \<times> semaphore" where
  "try_acquire s =
     (if sem_counter s \<le> 0 then (False, s) else (True, s\<lparr>sem_counter := sem_counter s - 1\<rparr>))"

text \<open>
  What an operation did.  \<open>Acq_ready b\<close>: \<open>acquire\<close> did not suspend, \<open>b\<close> when it took a unit.
  \<open>Rel_transfer w\<close>: the released unit went to the waiter \<open>w\<close>.
\<close>

datatype sem_out =
    Acq_ready bool
  | Acq_suspended
  | Acq_returned semaphore_acquire_result
  | Rel_at_max
  | Rel_transfer handle
  | Rel_added
  | Shut_already
  | Shut_woken "handle list"
  | Try_acquired bool

text \<open>\<open>acquire_operation::await_ready\<close>; \<^term>\<open>None\<close> is the answer false, with the mutex still held.\<close>

definition acquire_await_ready :: "semaphore \<Rightarrow> (sem_out \<times> handle option \<times> semaphore) option result" where
  "acquire_await_ready s =
     (if sem_shutdown s
      then (case sem_unlock s of Inl e \<Rightarrow> Inl e | Inr (w, s') \<Rightarrow> Inr (Some (Acq_ready False, w, s')))
      else (case try_acquire s of
              (True, s') \<Rightarrow>
                (case sem_unlock s' of Inl e \<Rightarrow> Inl e | Inr (w, s'') \<Rightarrow> Inr (Some (Acq_ready True, w, s'')))
            | (False, s') \<Rightarrow> Inr None))"

definition acquire_await_suspend :: "semaphore \<Rightarrow> handle \<Rightarrow> (sem_out \<times> handle option \<times> semaphore) result" where
  "acquire_await_suspend s t =
     (case acquire_await_ready s of
        Inl e \<Rightarrow> Inl e
      | Inr (Some r) \<Rightarrow> Inr r
      | Inr None \<Rightarrow>
          (case sem_unlock (s\<lparr>sem_waiters := t # sem_waiters s\<rparr>) of
             Inl e \<Rightarrow> Inl e
           | Inr (w, s') \<Rightarrow> Inr (Acq_suspended, w, s')))"

definition acquire_await_resume :: "semaphore \<Rightarrow> semaphore_acquire_result" where
  "acquire_await_resume s = (if sem_shutdown s then Acquire_shutdown else Acquired)"

definition acquire_locked :: "handle \<Rightarrow> semaphore \<Rightarrow> (sem_out \<times> handle option \<times> semaphore) result" where
  "acquire_locked t s =
     (case (case acquire_await_ready s of
              Inl e \<Rightarrow> Inl e
            | Inr (Some r) \<Rightarrow> Inr r
            | Inr None \<Rightarrow> acquire_await_suspend s t) of
        Inl e \<Rightarrow> Inl e
      | Inr (Acq_suspended, w, s') \<Rightarrow> Inr (Acq_suspended, w, s')
      | Inr (out, w, s') \<Rightarrow> Inr (out, w, s'\<lparr>sem_resuming := insert t (sem_resuming s')\<rparr>))"

definition release_locked :: "int \<Rightarrow> semaphore \<Rightarrow> (sem_out \<times> handle option \<times> semaphore) result" where
  "release_locked max_value s =
     (if sem_counter s = max_value
      then (case sem_unlock s of Inl e \<Rightarrow> Inl e | Inr (w, s') \<Rightarrow> Inr (Rel_at_max, w, s'))
      else
        (case sem_waiters s of
           v # vs \<Rightarrow>
             (case sem_unlock (s\<lparr>sem_waiters := vs\<rparr>) of
                Inl e \<Rightarrow> Inl e
              | Inr (w, s') \<Rightarrow> Inr (Rel_transfer v, w, s'\<lparr>sem_resuming := insert v (sem_resuming s')\<rparr>))
         | [] \<Rightarrow>
             (case sem_unlock (s\<lparr>sem_counter := sem_counter s + 1\<rparr>) of
                Inl e \<Rightarrow> Inl e
              | Inr (w, s') \<Rightarrow> Inr (Rel_added, w, s'))))"

definition shutdown_locked :: "semaphore \<Rightarrow> (sem_out \<times> handle option \<times> semaphore) result" where
  "shutdown_locked s =
     (case compare_exchange False (sem_shutdown s) False True of
        (True, _, v) \<Rightarrow>
          (case sem_unlock (s\<lparr>sem_shutdown := v, sem_waiters := []\<rparr>) of
             Inl e \<Rightarrow> Inl e
           | Inr (w, s') \<Rightarrow>
               Inr (Shut_woken (sem_waiters s), w, s'\<lparr>sem_resuming := sem_resuming s' \<union> set (sem_waiters s)\<rparr>))
      | (False, _, v) \<Rightarrow>
          (case sem_unlock s of Inl e \<Rightarrow> Inl e | Inr (w, s') \<Rightarrow> Inr (Shut_already, w, s')))"

section \<open>Concurrent use\<close>

datatype sem_op = Acquire | Release | Shutdown

primrec sem_body :: "int \<Rightarrow> sem_op \<Rightarrow> handle \<Rightarrow> semaphore \<Rightarrow> (sem_out \<times> handle option \<times> semaphore) result" where
  "sem_body max_value Acquire t s = acquire_locked t s"
| "sem_body max_value Release t s = release_locked max_value s"
| "sem_body max_value Shutdown t s = shutdown_locked s"

text \<open>Without the mutex: \<open>try_acquire\<close>, the early return of \<open>shutdown\<close>, and \<open>await_resume\<close>.\<close>

inductive sem_free :: "handle \<Rightarrow> semaphore \<Rightarrow> sem_out \<Rightarrow> semaphore \<Rightarrow> bool" where
  sem_free_try: "t \<notin> set (sem_waiters s) \<union> sem_resuming s \<Longrightarrow> try_acquire s = (b, s') \<Longrightarrow>
     sem_free t s (Try_acquired b) s'"
| sem_free_shutdown: "t \<notin> set (sem_waiters s) \<union> sem_resuming s \<Longrightarrow> sem_shutdown s \<Longrightarrow> sem_free t s Shut_already s"
| sem_free_resume: "t \<in> sem_resuming s \<Longrightarrow>
     sem_free t s (Acq_returned (acquire_await_resume s)) (s\<lparr>sem_resuming := sem_resuming s - {t}\<rparr>)"

definition sem_start :: "semaphore \<Rightarrow> handle \<Rightarrow> sem_op \<Rightarrow> bool" where
  "sem_start s t op \<longleftrightarrow> (op = Shutdown \<longrightarrow> \<not> sem_shutdown s)"

definition sem_can :: "semaphore \<Rightarrow> handle \<Rightarrow> sem_op \<Rightarrow> bool" where
  "sem_can s t op \<longleftrightarrow> t \<notin> set (sem_waiters s) \<and> t \<notin> sem_resuming s"

text \<open>The starting value is in range; the constructor does not check this.\<close>

definition sem_init :: "int \<Rightarrow> int \<Rightarrow> semaphore \<Rightarrow> bool" where
  "sem_init max_value start s \<longleftrightarrow> 0 < max_value \<and> 0 \<le> start \<and> start \<le> max_value \<and> s = semaphore_new start"

definition sem_inv :: "int \<Rightarrow> semaphore \<Rightarrow> bool" where
  "sem_inv max_value s \<longleftrightarrow>
     0 < max_value \<and> 0 \<le> sem_counter s \<and> sem_counter s \<le> max_value \<and> distinct (sem_waiters s) \<and>
     set (sem_waiters s) \<inter> sem_resuming s = {} \<and>
     (sem_waiters s \<noteq> [] \<longrightarrow> sem_counter s = 0 \<and> \<not> sem_shutdown s)"

abbreviation sem_step :: "int \<Rightarrow> (semaphore, sem_op, sem_out) mon \<Rightarrow> (semaphore, sem_op, sem_out) mon \<Rightarrow> bool" where
  "sem_step max_value \<equiv> mon_step sem_mutex (\<lambda>m s. s\<lparr>sem_mutex := m\<rparr>) sem_start sem_can (sem_body max_value) sem_free"

section \<open>The books\<close>

text \<open>
  Read off a log: the calls that gave their caller a unit (\<open>acquire\<close> returned \<open>acquired\<close>, \<open>try_acquire\<close> returned
  true), and the calls of \<open>release\<close> that gave a unit back, to the counter or to a waiter.
\<close>

fun sem_gains :: "sem_out \<Rightarrow> bool" where
  "sem_gains (Acq_returned Acquired) = True"
| "sem_gains (Try_acquired b) = b"
| "sem_gains out = False"

fun sem_gives :: "sem_out \<Rightarrow> bool" where
  "sem_gives Rel_added = True"
| "sem_gives (Rel_transfer w) = True"
| "sem_gives out = False"

definition sem_acquired :: "(handle \<times> sem_out) list \<Rightarrow> int" where
  "sem_acquired h = int (length (filter (sem_gains \<circ> snd) h))"

definition sem_released :: "(handle \<times> sem_out) list \<Rightarrow> int" where
  "sem_released h = int (length (filter (sem_gives \<circ> snd) h))"

text \<open>Until a shutdown, a coroutine on its way out of \<open>acquire\<close> has a unit.\<close>

definition sem_hist :: "int \<Rightarrow> (handle \<times> sem_out) list \<Rightarrow> semaphore \<Rightarrow> bool" where
  "sem_hist start h s \<longleftrightarrow>
     finite (sem_resuming s) \<and> sem_counter s + sem_acquired h \<le> start + sem_released h \<and>
     (\<not> sem_shutdown s \<longrightarrow> sem_counter s + sem_acquired h + int (card (sem_resuming s)) = start + sem_released h)"

text \<open>The outcomes after which a call of \<open>acquire\<close> goes on.\<close>

fun sem_opens :: "sem_out \<Rightarrow> bool" where
  "sem_opens (Acq_ready b) = True"
| "sem_opens Acq_suspended = True"
| "sem_opens out = False"

definition sem_inside :: "semaphore \<Rightarrow> handle \<Rightarrow> bool" where
  "sem_inside s t \<longleftrightarrow> t \<in> set (sem_waiters s) \<or> t \<in> sem_resuming s"

section \<open>Lemmas\<close>

lemma sem_unlock_locked:
  "sem_mutex s = CLocked ws \<Longrightarrow> unlock (CLocked ws) = Inr (w, c) \<Longrightarrow> sem_unlock s = Inr (w, s\<lparr>sem_mutex := c\<rparr>)"
  by (simp add: sem_unlock_def)

lemmas sem_defs = acquire_locked_def acquire_await_ready_def acquire_await_suspend_def release_locked_def
  shutdown_locked_def try_acquire_def compare_exchange_def

text \<open>The locked parts in full, once the mutex is known to be held.\<close>

lemma acquire_locked_cases:
  assumes "sem_mutex s = CLocked ws" and "unlock (CLocked ws) = Inr (w, c)"
  shows "acquire_locked t s = Inr
    (if sem_shutdown s then (Acq_ready False, w, s\<lparr>sem_mutex := c, sem_resuming := insert t (sem_resuming s)\<rparr>)
     else if 0 < sem_counter s
       then (Acq_ready True, w, s\<lparr>sem_counter := sem_counter s - 1, sem_mutex := c, sem_resuming := insert t (sem_resuming s)\<rparr>)
     else (Acq_suspended, w, s\<lparr>sem_waiters := t # sem_waiters s, sem_mutex := c\<rparr>))"
  using assms by (simp add: sem_defs sem_unlock_locked [OF _ assms(2)])

lemma release_locked_cases:
  assumes "sem_mutex s = CLocked ws" and "unlock (CLocked ws) = Inr (w, c)"
  shows "release_locked max_value s = Inr
    (if sem_counter s = max_value then (Rel_at_max, w, s\<lparr>sem_mutex := c\<rparr>)
     else case sem_waiters s of
       [] \<Rightarrow> (Rel_added, w, s\<lparr>sem_counter := sem_counter s + 1, sem_mutex := c\<rparr>)
     | v # vs \<Rightarrow> (Rel_transfer v, w, s\<lparr>sem_waiters := vs, sem_mutex := c, sem_resuming := insert v (sem_resuming s)\<rparr>))"
  using assms by (simp add: sem_defs sem_unlock_locked [OF _ assms(2)] split: list.splits)

lemma shutdown_locked_cases:
  assumes "sem_mutex s = CLocked ws" and "unlock (CLocked ws) = Inr (w, c)"
  shows "shutdown_locked s = Inr
    (if sem_shutdown s then (Shut_already, w, s\<lparr>sem_mutex := c\<rparr>)
     else (Shut_woken (sem_waiters s), w, s\<lparr>sem_waiters := [], sem_mutex := c, sem_shutdown := True,
       sem_resuming := sem_resuming s \<union> set (sem_waiters s)\<rparr>))"
  using assms by (simp add: sem_defs sem_unlock_locked [OF _ assms(2)])

lemma sem_books_simps [simp]:
  "sem_acquired [] = 0" "sem_released [] = 0"
  "sem_acquired (e # h) = sem_acquired h + (if sem_gains (snd e) then 1 else 0)"
  "sem_released (e # h) = sem_released h + (if sem_gives (snd e) then 1 else 0)"
  by (simp_all add: sem_acquired_def sem_released_def)

lemma sem_body_effect:
  assumes s: "sem_mutex s = CLocked ws" and b: "sem_body max_value op t s = Inr (out, w, s')"
    and i: "sem_inv max_value s" and c: "sem_can s t op"
  shows "unlock (CLocked ws) = Inr (w, sem_mutex s')" and "sem_inv max_value s'"
    and "u \<noteq> t \<Longrightarrow> sem_can s u op' \<Longrightarrow> sem_can s' u op'"
    and "sem_inside s' u = (if u = t then sem_opens out else sem_inside s u)"
    and "sem_hist start h s \<Longrightarrow> sem_hist start ((t, out) # h) s'"
proof -
  obtain w0 c0 where u0: "unlock (CLocked ws) = Inr (w0, c0)" using unlock_locked by blast
  note cs = acquire_locked_cases [OF s u0] release_locked_cases [OF s u0] shutdown_locked_cases [OF s u0]
  show "unlock (CLocked ws) = Inr (w, sem_mutex s')"
    using b u0 by (cases op) (auto simp: cs split: if_splits list.splits)
  show "sem_inv max_value s'"
    using b i c by (cases op) (auto simp: cs sem_inv_def sem_can_def split: if_splits list.splits)
  show "sem_can s' u op'" if "u \<noteq> t" "sem_can s u op'"
    using that b by (cases op) (auto simp: cs sem_can_def split: if_splits list.splits)
  show "sem_inside s' u = (if u = t then sem_opens out else sem_inside s u)"
    using b c by (cases op) (auto simp: cs sem_inside_def sem_can_def split: if_splits list.splits)
  show "sem_hist start ((t, out) # h) s'" if "sem_hist start h s"
    using b i c that
    by (cases op) (auto simp: cs sem_hist_def sem_inv_def sem_can_def split: if_splits list.splits)
qed

lemma sem_body_total:
  assumes "sem_mutex s = CLocked ws"
  shows "\<exists>out w s'. sem_body max_value op t s = Inr (out, w, s')"
proof -
  obtain w0 c0 where "unlock (CLocked ws) = Inr (w0, c0)" using unlock_locked by blast
  note cs = acquire_locked_cases [OF assms this] release_locked_cases [OF assms this] shutdown_locked_cases [OF assms this]
  show ?thesis by (cases op) (auto simp: cs split: if_splits list.splits)
qed

lemma sem_free_effect:
  assumes "sem_free t s out s'" and "sem_inv max_value s"
  shows "sem_mutex s' = sem_mutex s" and "sem_inv max_value s'"
    and "u \<noteq> t \<Longrightarrow> sem_can s u op' \<Longrightarrow> sem_can s' u op'"
    and "sem_inside s' u = (if u = t then sem_opens out else sem_inside s u)"
    and "sem_hist start h s \<Longrightarrow> sem_hist start ((t, out) # h) s'"
proof -
  show "sem_mutex s' = sem_mutex s" "sem_inv max_value s'" "u \<noteq> t \<Longrightarrow> sem_can s u op' \<Longrightarrow> sem_can s' u op'"
    "sem_inside s' u = (if u = t then sem_opens out else sem_inside s u)"
    using assms
    by (cases rule: sem_free.cases; auto simp: sem_inv_def sem_can_def sem_inside_def try_acquire_def split: if_splits)+
  show "sem_hist start ((t, out) # h) s'" if "sem_hist start h s"
    using assms(1)
  proof cases
    case sem_free_resume
    then have "card (sem_resuming s) = Suc (card (sem_resuming s - {t}))"
      using that by (intro card.remove) (auto simp: sem_hist_def)
    then show ?thesis using that sem_free_resume by (auto simp: sem_hist_def acquire_await_resume_def)
  qed (use that in \<open>auto simp: sem_hist_def try_acquire_def split: if_splits\<close>)
qed

lemma sem_basic [simp]:
  "sem_inv max_value (s\<lparr>sem_mutex := m\<rparr>) = sem_inv max_value s" "sem_can (s\<lparr>sem_mutex := m\<rparr>) t op = sem_can s t op"
  "sem_hist start h (s\<lparr>sem_mutex := m\<rparr>) = sem_hist start h s" "sem_inside (s\<lparr>sem_mutex := m\<rparr>) t = sem_inside s t"
  by (auto simp: sem_inv_def sem_can_def sem_hist_def sem_inside_def)

lemma sem_init_inv:
  "sem_init max_value start s \<Longrightarrow> sem_mutex s = CUnlocked" "sem_init max_value start s \<Longrightarrow> sem_hist start [] s"
  "sem_init max_value start s \<Longrightarrow> sem_inv max_value s" "sem_init max_value start s \<Longrightarrow> \<not> sem_inside s t"
  by (auto simp: sem_inv_def sem_init_def semaphore_new_def sem_hist_def sem_inside_def)

interpretation sem: monitor_history sem_mutex "\<lambda>m s. s\<lparr>sem_mutex := m\<rparr>" sem_start sem_can "sem_body max_value" sem_free
  "sem_init max_value start" "sem_inv max_value" "sem_hist start" for max_value start
proof
  fix s :: semaphore and m t op ws
  assume "sem_inv max_value s" "sem_can s t op" and l: "sem_mutex s = CLocked ws"
  then show "\<exists>out w s'. sem_body max_value op t s = Inr (out, w, s') \<and> unlock (CLocked ws) = Inr (w, sem_mutex s')"
    using sem_body_total [OF l, of max_value op t] sem_body_effect(1) [OF l] by blast
qed (simp; fail | blast intro: sem_body_effect sem_free_effect sem_init_inv)+

interpretation semc: monitor_calls sem_mutex "\<lambda>m s. s\<lparr>sem_mutex := m\<rparr>" sem_start sem_can "sem_body max_value" sem_free
  "sem_init max_value start" "sem_inv max_value" sem_inside sem_opens for max_value start
  by unfold_locales
    (erule sem_init_inv(4), simp, rule sem_body_effect(4), assumption+, rule sem_free_effect(4), assumption+)

section \<open>Properties\<close>

text \<open>C7: the semaphore counts right and loses no waiter.  In every execution of a semaphore created with a
  starting value in range, the counter stays between 0 and \<open>max_value\<close>.  The units in the counter and
  the units that calls of \<open>acquire\<close> and \<open>try_acquire\<close> have reported as acquired never exceed the starting
  value plus the units released; until a shutdown the books balance exactly once the coroutines on
  their way out of \<open>acquire\<close> are counted.  A coroutine that has been suspended by \<open>acquire\<close> and has not
  returned is either on the list of waiters, and then no unit is available and the semaphore is not
  shut down, or it has been resumed and can return from \<open>acquire\<close>.\<close>

theorem semaphore_counts:
  assumes "reach (mon_init (sem_init max_value start)) (sem_step max_value) s"
  shows "0 \<le> sem_counter (mon_obj s) \<and> sem_counter (mon_obj s) \<le> max_value \<and>
     sem_counter (mon_obj s) + sem_acquired (mon_log s) \<le> start + sem_released (mon_log s) \<and>
     (\<not> sem_shutdown (mon_obj s) \<longrightarrow>
       sem_counter (mon_obj s) + sem_acquired (mon_log s) + int (card (sem_resuming (mon_obj s))) =
         start + sem_released (mon_log s)) \<and>
     (map_of (mon_log s) t = Some Acq_suspended \<longrightarrow>
       t \<in> set (sem_waiters (mon_obj s)) \<and> sem_counter (mon_obj s) = 0 \<and> \<not> sem_shutdown (mon_obj s) \<or>
       (\<exists>r obj. sem_free t (mon_obj s) (Acq_returned r) obj))"
proof -
  have i: "sem_inv max_value (mon_obj s)" using sem.obj_inv [OF assms] .
  have "sem_inside (mon_obj s) t" if "map_of (mon_log s) t = Some Acq_suspended"
    using semc.inside_iff [OF assms] that by auto
  moreover have "\<exists>r obj. sem_free t (mon_obj s) (Acq_returned r) obj" if "t \<in> sem_resuming (mon_obj s)"
    using sem_free_resume [OF that] by blast
  moreover have "sem_counter (mon_obj s) = 0 \<and> \<not> sem_shutdown (mon_obj s)" if "t \<in> set (sem_waiters (mon_obj s))"
    using i that by (auto simp: sem_inv_def)
  moreover have "sem_hist start (mon_log s) (mon_obj s)" using sem.history [OF assms] .
  ultimately show ?thesis using i by (auto simp: sem_inv_def sem_hist_def sem_inside_def)
qed

text \<open>The internal mutex of the semaphore is never lost.  Whenever it is locked, exactly one
  coroutine is inside, its locked part of \<open>acquire\<close>, \<open>release\<close> or \<open>shutdown\<close> completes without
  an exception on every branch, and it releases the mutex exactly once: to the newest queued coroutine,
  or to nobody.\<close>

theorem semaphore_never_locked_out:
  assumes "reach (mon_init (sem_init max_value start)) (sem_step max_value) s"
    and "sem_mutex (mon_obj s) \<noteq> CUnlocked \<or> mon_ph s u \<noteq> Outside"
  shows "\<exists>t op ws out w obj. mon_ph s t = Entered op \<and> (\<forall>v. (\<exists>op'. mon_ph s v = Entered op') \<longrightarrow> v = t) \<and>
     sem_mutex (mon_obj s) = CLocked ws \<and> sem_body max_value op t (mon_obj s) = Inr (out, w, obj) \<and>
     unlock (CLocked ws) = Inr (w, sem_mutex obj)"
  by (rule sem.never_locked_out [OF assms])

text \<open>A unit can be lost at shutdown.  There is an execution in which \<open>acquire\<close> takes the only unit,
  \<open>shutdown\<close> runs before the acquiring coroutine evaluates \<open>await_resume\<close>, and \<open>acquire\<close> then answers
  \<open>shutdown\<close>, which is documented as \<open>not acquired\<close>, while the counter stays at 0.\<close>

theorem semaphore_shutdown_loses_unit:
  "\<exists>s. reach (mon_init (sem_init 1 1)) (sem_step 1) s \<and>
     mon_log s = [(1, Acq_returned Acquire_shutdown), (2, Shut_woken []), (1, Acq_ready True)] \<and>
     sem_counter (mon_obj s) = 0 \<and> sem_resuming (mon_obj s) = {}"
proof -
  let ?R = "reach (mon_init (sem_init 1 1)) (sem_step 1)"
  let ?n = "semaphore_new 1"
  let ?out = "\<lambda>_. Outside :: sem_op phase"
  let ?a = "?n\<lparr>sem_counter := 0, sem_resuming := {1}\<rparr>"
  let ?b = "?a\<lparr>sem_shutdown := True\<rparr>"
  have 0: "?R \<lparr>mon_obj = ?n, mon_ph = ?out, mon_log = []\<rparr>"
    by (rule reach_init) (simp add: mon_init_def sem_init_def)
  have 1: "?R \<lparr>mon_obj = ?n\<lparr>sem_mutex := CLocked []\<rparr>, mon_ph = ?out(1 := Entered Acquire), mon_log = []\<rparr>"
    by (rule reach_enter [OF 0, where t = 1 and op = Acquire and susp = False and m = "CLocked []"])
      (simp_all add: semaphore_new_def sem_start_def sem_can_def)
  have 2: "?R \<lparr>mon_obj = ?a, mon_ph = ?out, mon_log = [(1, Acq_ready True)]\<rparr>"
    by (rule reach_body [OF 1, where t = 1 and op = Acquire and w = None and out = "Acq_ready True" and obj = ?a])
      (simp_all add: semaphore_new_def acquire_locked_cases)
  have 3: "?R \<lparr>mon_obj = ?a\<lparr>sem_mutex := CLocked []\<rparr>, mon_ph = ?out(2 := Entered Shutdown), mon_log = [(1, Acq_ready True)]\<rparr>"
    by (rule reach_enter [OF 2, where t = 2 and op = Shutdown and susp = False and m = "CLocked []"])
      (simp_all add: semaphore_new_def sem_start_def sem_can_def)
  have 4: "?R \<lparr>mon_obj = ?b, mon_ph = ?out, mon_log = [(2, Shut_woken []), (1, Acq_ready True)]\<rparr>"
    by (rule reach_body [OF 3, where t = 2 and op = Shutdown and w = None and out = "Shut_woken []" and obj = ?b])
      (simp_all add: semaphore_new_def shutdown_locked_cases)
  have 5: "?R \<lparr>mon_obj = ?b\<lparr>sem_resuming := {}\<rparr>, mon_ph = ?out,
      mon_log = [(1, Acq_returned Acquire_shutdown), (2, Shut_woken []), (1, Acq_ready True)]\<rparr>"
    by (rule reach_free [OF 4, where t = 1 and out = "Acq_returned Acquire_shutdown" and obj = "?b\<lparr>sem_resuming := {}\<rparr>"])
      (use sem_free_resume [of 1 ?b] in \<open>simp_all add: acquire_await_resume_def\<close>)
  show ?thesis by (rule exI, rule conjI [OF 5]) (simp add: semaphore_new_def)
qed

section \<open>Witnesses\<close>

lemma sem_demo:
  "reach (mon_init (sem_init 2 2)) (sem_step 2)
     \<lparr>mon_obj = (semaphore_new 2)\<lparr>sem_mutex := CLocked []\<rparr>, mon_ph = (\<lambda>_. Outside)(1 := Entered Acquire), mon_log = []\<rparr>"
proof -
  have "reach (mon_init (sem_init 2 2)) (sem_step 2) \<lparr>mon_obj = semaphore_new 2, mon_ph = \<lambda>_. Outside, mon_log = []\<rparr>"
    by (rule reach_init) (simp add: mon_init_def sem_init_def)
  then show ?thesis
    by (rule reach_enter [where t = 1 and op = Acquire and susp = False and m = "CLocked []"])
      (simp_all add: semaphore_new_def sem_start_def sem_can_def)
qed

text \<open>One unit: coroutine 1 takes it, coroutine 2 waits, coroutine 3 releases.\<close>

abbreviation sem_log :: "(handle \<times> sem_out) list" where
  "sem_log \<equiv> [(3, Rel_transfer 2), (2, Acq_suspended), (1, Acq_returned Acquired), (1, Acq_ready True)]"

lemma sem_demo_wait:
  "reach (mon_init (sem_init 1 1)) (sem_step 1)
     \<lparr>mon_obj = (semaphore_new 1)\<lparr>sem_counter := 0, sem_resuming := {2}\<rparr>, mon_ph = \<lambda>_. Outside, mon_log = sem_log\<rparr>"
proof -
  let ?R = "reach (mon_init (sem_init 1 1)) (sem_step 1)"
  let ?n = "semaphore_new 1" and ?out = "\<lambda>_. Outside :: sem_op phase"
  let ?a = "?n\<lparr>sem_counter := 0\<rparr>"
  note sim = semaphore_new_def sem_start_def sem_can_def acquire_locked_cases release_locked_cases acquire_await_resume_def
  note enter = reach_enter [where susp = False and m = "CLocked []"]
  note body = reach_body [where w = None]
  have 0: "?R \<lparr>mon_obj = ?n, mon_ph = ?out, mon_log = []\<rparr>"
    by (rule reach_init) (simp add: mon_init_def sem_init_def)
  have 1: "?R \<lparr>mon_obj = ?n\<lparr>sem_mutex := CLocked []\<rparr>, mon_ph = ?out(1 := Entered Acquire), mon_log = []\<rparr>"
    by (rule enter [OF 0, where t = 1 and op = Acquire]) (simp_all add: sim)
  have 2: "?R \<lparr>mon_obj = ?a\<lparr>sem_resuming := {1}\<rparr>, mon_ph = ?out, mon_log = drop 3 sem_log\<rparr>"
    by (rule body [OF 1, where t = 1 and op = Acquire]) (simp_all add: sim)
  have 3: "?R \<lparr>mon_obj = ?a, mon_ph = ?out, mon_log = drop 2 sem_log\<rparr>"
    by (rule reach_free [OF 2, where t = 1 and out = "Acq_returned Acquired" and obj = ?a])
      (use sem_free_resume [of 1 "?a\<lparr>sem_resuming := {1}\<rparr>"] in \<open>simp_all add: sim\<close>)
  have 4: "?R \<lparr>mon_obj = ?a\<lparr>sem_mutex := CLocked []\<rparr>, mon_ph = ?out(2 := Entered Acquire), mon_log = drop 2 sem_log\<rparr>"
    by (rule enter [OF 3, where t = 2 and op = Acquire]) (simp_all add: sim)
  have 5: "?R \<lparr>mon_obj = ?a\<lparr>sem_waiters := [2]\<rparr>, mon_ph = ?out, mon_log = drop 1 sem_log\<rparr>"
    by (rule body [OF 4, where t = 2 and op = Acquire]) (simp_all add: sim)
  have 6: "?R \<lparr>mon_obj = ?a\<lparr>sem_waiters := [2], sem_mutex := CLocked []\<rparr>, mon_ph = ?out(3 := Entered Release), mon_log = drop 1 sem_log\<rparr>"
    by (rule enter [OF 5, where t = 3 and op = Release]) (simp_all add: sim)
  show ?thesis
    by (rule body [OF 6, where t = 3 and op = Release]) (simp_all add: sim)
qed

theorem semaphore_counts_witness:
  "sem_acquired sem_log = 1 \<and> sem_released sem_log = 1 \<and> map_of sem_log 2 = Some Acq_suspended \<and>
   (\<exists>r obj. sem_free 2 ((semaphore_new 1)\<lparr>sem_counter := 0, sem_resuming := {2}\<rparr>) (Acq_returned r) obj)"
  using semaphore_counts [OF sem_demo_wait, of 2] by (simp add: semaphore_new_def)

theorem semaphore_never_locked_out_witness:
  "\<exists>t op out w obj. ((\<lambda>_. Outside)(1 := Entered Acquire)) t = Entered op \<and>
     sem_body 2 op t ((semaphore_new 2)\<lparr>sem_mutex := CLocked []\<rparr>) = Inr (out, w, obj) \<and>
     unlock (CLocked []) = Inr (w, sem_mutex obj)"
  using semaphore_never_locked_out [OF sem_demo, of 1] by auto

end
