(* ===== verification/Queue.thy ===== *)
theory Queue
  imports Monitor
begin

text \<open>
  The unbounded queue of \<open>include/coro/queue.hpp\<close>.  Each operation is the code that runs after the mutex
  has been acquired.  The element type is arbitrary; moving and copying an element are the same.
  The list of waiters is plain (\<open>m_waiters\<close> and \<open>m_next\<close>, only touched under the mutex), newest first.
\<close>

section \<open>The queue\<close>

datatype queue_produce_result = Produced | Produce_stopped

datatype queue_consume_result = Consume_stopped | Try_lock_failure | Consume_empty

datatype running_state = Running | Draining | Stopped

text \<open>
  The waiters are the list from \<open>m_waiters\<close> along \<open>m_next\<close>.  \<open>q_resuming\<close> are the coroutines inside
  \<open>pop\<close> that go on to \<open>await_resume\<close>, with the \<open>m_element\<close> of their awaiter; \<open>q_draining\<close> those in
  the loop of \<open>shutdown_drain\<close>.
\<close>

record 'a queue =
  q_waiters :: "handle list"
  q_mutex :: cmutex
  q_elements :: "'a list"
  q_running_state :: running_state
  q_resuming :: "handle \<Rightarrow> 'a option option"
  q_draining :: "handle set"

definition queue_new :: "'a queue" where
  "queue_new = \<lparr>q_waiters = [], q_mutex = CUnlocked, q_elements = [], q_running_state = Running,
     q_resuming = \<lambda>_. None, q_draining = {}\<rparr>"

definition q_unlock :: "'a queue \<Rightarrow> (handle option \<times> 'a queue) result" where
  "q_unlock s = (case unlock (q_mutex s) of Inl e \<Rightarrow> Inl e | Inr (w, m) \<Rightarrow> Inr (w, s\<lparr>q_mutex := m\<rparr>))"

definition q_size :: "'a queue \<Rightarrow> nat" where
  "q_size s = length (q_elements s)"

definition q_empty :: "'a queue \<Rightarrow> bool" where
  "q_empty s \<longleftrightarrow> q_size s = 0"

definition q_is_shutdown :: "'a queue \<Rightarrow> bool" where
  "q_is_shutdown s \<longleftrightarrow> q_running_state s \<noteq> Running"

text \<open>What an operation did.\<close>

datatype 'a queue_out =
    Push_stopped
  | Push_transfer handle 'a
  | Push_stored 'a
  | Pop_ready "'a option"
  | Pop_suspended
  | Pop_returned "queue_consume_result + 'a"
  | Try_pop_returned "queue_consume_result + 'a"
  | Shutdown_early
  | Shutdown_lost
  | Shutdown_woken "handle list"
  | Drain_started
  | Drain_lost
  | Drain_yield
  | Drain_exit

text \<open>\<open>push\<close> (both overloads) and \<open>emplace\<close>, which differ in how the element is constructed.\<close>

definition push_locked :: "'a \<Rightarrow> 'a queue \<Rightarrow> ('a queue_out \<times> handle option \<times> 'a queue) result" where
  "push_locked x s =
     (if q_running_state s \<noteq> Running
      then (case q_unlock s of Inl e \<Rightarrow> Inl e | Inr (w, s') \<Rightarrow> Inr (Push_stopped, w, s'))
      else
        (case q_waiters s of
           v # vs \<Rightarrow>
             (case q_unlock (s\<lparr>q_waiters := vs\<rparr>) of
                Inl e \<Rightarrow> Inl e
              | Inr (w, s') \<Rightarrow> Inr (Push_transfer v x, w, s'\<lparr>q_resuming := (q_resuming s')(v := Some (Some x))\<rparr>))
         | [] \<Rightarrow>
             (case q_unlock (s\<lparr>q_elements := q_elements s @ [x]\<rparr>) of
                Inl e \<Rightarrow> Inl e
              | Inr (w, s') \<Rightarrow> Inr (Push_stored x, w, s'))))"

text \<open>\<open>awaiter::await_ready\<close>; \<^term>\<open>None\<close> is the answer false, with the mutex still held.\<close>

definition pop_await_ready :: "'a queue \<Rightarrow> ('a option \<times> handle option \<times> 'a queue) option result" where
  "pop_await_ready s =
     (if q_running_state s = Stopped
      then (case q_unlock s of Inl e \<Rightarrow> Inl e | Inr (w, s') \<Rightarrow> Inr (Some (None, w, s')))
      else if \<not> q_empty s
      then (case q_unlock (s\<lparr>q_elements := tl (q_elements s)\<rparr>) of
              Inl e \<Rightarrow> Inl e
            | Inr (w, s') \<Rightarrow> Inr (Some (Some (hd (q_elements s)), w, s')))
      else Inr None)"

definition pop_await_suspend :: "'a queue \<Rightarrow> handle \<Rightarrow> (handle option \<times> 'a queue) result" where
  "pop_await_suspend s t = q_unlock (s\<lparr>q_waiters := t # q_waiters s\<rparr>)"

fun pop_await_resume :: "'a option \<Rightarrow> queue_consume_result + 'a" where
  "pop_await_resume (Some x) = Inr x"
| "pop_await_resume None = Inl Consume_stopped"

definition pop_locked :: "handle \<Rightarrow> 'a queue \<Rightarrow> ('a queue_out \<times> handle option \<times> 'a queue) result" where
  "pop_locked t s =
     (case pop_await_ready s of
        Inl e \<Rightarrow> Inl e
      | Inr (Some (x, w, s')) \<Rightarrow> Inr (Pop_ready x, w, s'\<lparr>q_resuming := (q_resuming s')(t := Some x)\<rparr>)
      | Inr None \<Rightarrow>
          (case pop_await_suspend s t of Inl e \<Rightarrow> Inl e | Inr (w, s') \<Rightarrow> Inr (Pop_suspended, w, s')))"

text \<open>The part of \<open>try_pop\<close> after a successful \<open>try_lock\<close>; the scoped lock unlocks at each return.\<close>

definition try_pop_locked :: "'a queue \<Rightarrow> ('a queue_out \<times> handle option \<times> 'a queue) result" where
  "try_pop_locked s =
     (if q_running_state s = Stopped
      then (case q_unlock s of Inl e \<Rightarrow> Inl e | Inr (w, s') \<Rightarrow> Inr (Try_pop_returned (Inl Consume_stopped), w, s'))
      else if q_empty s
      then (case q_unlock s of Inl e \<Rightarrow> Inl e | Inr (w, s') \<Rightarrow> Inr (Try_pop_returned (Inl Consume_empty), w, s'))
      else (case q_unlock (s\<lparr>q_elements := tl (q_elements s)\<rparr>) of
              Inl e \<Rightarrow> Inl e
            | Inr (w, s') \<Rightarrow> Inr (Try_pop_returned (Inr (hd (q_elements s))), w, s')))"

text \<open>\<open>expected\<close> is the state that \<open>shutdown\<close> read before it asked for the mutex.\<close>

definition q_shutdown_locked :: "running_state \<Rightarrow> 'a queue \<Rightarrow> ('a queue_out \<times> handle option \<times> 'a queue) result" where
  "q_shutdown_locked expected s =
     (case compare_exchange False (q_running_state s) expected Stopped of
        (False, _, _) \<Rightarrow> (case q_unlock s of Inl e \<Rightarrow> Inl e | Inr (w, s') \<Rightarrow> Inr (Shutdown_lost, w, s'))
      | (True, _, st) \<Rightarrow>
          (case q_unlock (s\<lparr>q_running_state := st, q_waiters := []\<rparr>) of
             Inl e \<Rightarrow> Inl e
           | Inr (w, s') \<Rightarrow>
               Inr (Shutdown_woken (q_waiters s), w,
                 s'\<lparr>q_resuming := wake_all (q_waiters s) None (q_resuming s')\<rparr>)))"

definition q_shutdown_drain_locked :: "handle \<Rightarrow> 'a queue \<Rightarrow> ('a queue_out \<times> handle option \<times> 'a queue) result" where
  "q_shutdown_drain_locked t s =
     (case compare_exchange False (q_running_state s) Running Draining of
        (False, _, _) \<Rightarrow> (case q_unlock s of Inl e \<Rightarrow> Inl e | Inr (w, s') \<Rightarrow> Inr (Drain_lost, w, s'))
      | (True, _, st) \<Rightarrow>
          (case q_unlock (s\<lparr>q_running_state := st\<rparr>) of
             Inl e \<Rightarrow> Inl e
           | Inr (w, s') \<Rightarrow> Inr (Drain_started, w, s'\<lparr>q_draining := insert t (q_draining s')\<rparr>)))"

section \<open>Concurrent use\<close>

datatype 'a queue_op = Push 'a | Pop | Try_pop | Q_shutdown running_state | Q_shutdown_drain

primrec q_body :: "'a queue_op \<Rightarrow> handle \<Rightarrow> 'a queue \<Rightarrow> ('a queue_out \<times> handle option \<times> 'a queue) result" where
  "q_body (Push x) t s = push_locked x s"
| "q_body Pop t s = pop_locked t s"
| "q_body Try_pop t s = try_pop_locked s"
| "q_body (Q_shutdown expected) t s = q_shutdown_locked expected s"
| "q_body Q_shutdown_drain t s = q_shutdown_drain_locked t s"

text \<open>Before the mutex: \<open>try_pop\<close> needs it unlocked, \<open>shutdown\<close> reads the state and returns when stopped.\<close>

fun q_start :: "'a queue \<Rightarrow> handle \<Rightarrow> 'a queue_op \<Rightarrow> bool" where
  "q_start s t Try_pop = (q_mutex s = CUnlocked)"
| "q_start s t (Q_shutdown expected) = (q_running_state s = expected \<and> expected \<noteq> Stopped)"
| "q_start s t op = True"

definition q_inside :: "'a queue \<Rightarrow> handle \<Rightarrow> bool" where
  "q_inside s t \<longleftrightarrow> t \<in> set (q_waiters s) \<or> q_resuming s t \<noteq> None \<or> t \<in> q_draining s"

definition q_can :: "'a queue \<Rightarrow> handle \<Rightarrow> 'a queue_op \<Rightarrow> bool" where
  "q_can s t op \<longleftrightarrow> \<not> q_inside s t"

text \<open>Without the mutex: a failed \<open>try_lock\<close>, the early return of \<open>shutdown\<close>, \<open>await_resume\<close>, and the
  loop of \<open>shutdown_drain\<close>.\<close>

inductive q_free :: "handle \<Rightarrow> 'a queue \<Rightarrow> 'a queue_out \<Rightarrow> 'a queue \<Rightarrow> bool" where
  q_free_try: "\<not> q_inside s t \<Longrightarrow> \<not> fst (try_lock (q_mutex s)) \<Longrightarrow>
     q_free t s (Try_pop_returned (Inl Try_lock_failure)) s"
| q_free_shutdown: "\<not> q_inside s t \<Longrightarrow> q_running_state s = Stopped \<Longrightarrow> q_free t s Shutdown_early s"
| q_free_resume: "q_resuming s t = Some x \<Longrightarrow>
     q_free t s (Pop_returned (pop_await_resume x)) (s\<lparr>q_resuming := (q_resuming s)(t := None)\<rparr>)"
| q_free_yield: "t \<in> q_draining s \<Longrightarrow> \<not> q_empty s \<and> q_running_state s = Draining \<Longrightarrow> q_free t s Drain_yield s"
| q_free_exit: "t \<in> q_draining s \<Longrightarrow> q_empty s \<or> q_running_state s \<noteq> Draining \<Longrightarrow>
     q_free t s Drain_exit (s\<lparr>q_draining := q_draining s - {t}\<rparr>)"

abbreviation q_step :: "('a queue, 'a queue_op, 'a queue_out) mon \<Rightarrow> ('a queue, 'a queue_op, 'a queue_out) mon \<Rightarrow> bool" where
  "q_step \<equiv> mon_step q_mutex (\<lambda>m s. s\<lparr>q_mutex := m\<rparr>) q_start q_can q_body q_free"

definition q_init :: "'a queue \<Rightarrow> bool" where
  "q_init s \<longleftrightarrow> s = queue_new"

definition q_inv :: "'a queue \<Rightarrow> bool" where
  "q_inv s \<longleftrightarrow>
     distinct (q_waiters s) \<and> (\<forall>t\<in>set (q_waiters s). q_resuming s t = None \<and> t \<notin> q_draining s) \<and>
     (\<forall>t\<in>q_draining s. q_resuming s t = None) \<and>
     (q_waiters s \<noteq> [] \<longrightarrow> q_elements s = [] \<and> q_running_state s \<noteq> Stopped)"

section \<open>The first-in first-out specification\<close>

text \<open>
  Read off a log, newest entry first: the elements that entered the queue and those that left it, in
  order, with the coroutine that received each; and what each coroutine's calls have returned.
\<close>

primrec q_in :: "'a queue_out \<Rightarrow> 'a list" where
  "q_in Push_stopped = []"
| "q_in (Push_transfer v x) = [x]"
| "q_in (Push_stored x) = [x]"
| "q_in (Pop_ready x) = []"
| "q_in Pop_suspended = []"
| "q_in (Pop_returned r) = []"
| "q_in (Try_pop_returned r) = []"
| "q_in Shutdown_early = []"
| "q_in Shutdown_lost = []"
| "q_in (Shutdown_woken ws) = []"
| "q_in Drain_started = []"
| "q_in Drain_lost = []"
| "q_in Drain_yield = []"
| "q_in Drain_exit = []"

fun q_taken :: "handle \<times> 'a queue_out \<Rightarrow> (handle \<times> 'a) list" where
  "q_taken (t, Push_transfer v x) = [(v, x)]"
| "q_taken (t, Pop_ready (Some x)) = [(t, x)]"
| "q_taken (t, Try_pop_returned (Inr x)) = [(t, x)]"
| "q_taken (t, out) = []"

fun q_got :: "handle \<times> 'a queue_out \<Rightarrow> (handle \<times> 'a) list" where
  "q_got (t, Pop_returned (Inr x)) = [(t, x)]"
| "q_got (t, Try_pop_returned (Inr x)) = [(t, x)]"
| "q_got (t, out) = []"

definition entered :: "(handle \<times> 'a queue_out) list \<Rightarrow> 'a list" where
  "entered h = concat (map (q_in \<circ> snd) (rev h))"

definition taken :: "(handle \<times> 'a queue_out) list \<Rightarrow> (handle \<times> 'a) list" where
  "taken h = concat (map q_taken (rev h))"

definition got :: "handle \<Rightarrow> (handle \<times> 'a queue_out) list \<Rightarrow> 'a list" where
  "got t h = map snd (filter (\<lambda>p. fst p = t) (concat (map q_got (rev h))))"

text \<open>What a coroutine is about to return.\<close>

definition q_pending :: "'a queue \<Rightarrow> handle \<Rightarrow> 'a list" where
  "q_pending s t = (case q_resuming s t of Some (Some x) \<Rightarrow> [x] | _ \<Rightarrow> [])"

definition q_hist :: "(handle \<times> 'a queue_out) list \<Rightarrow> 'a queue \<Rightarrow> bool" where
  "q_hist h s \<longleftrightarrow>
     entered h = map snd (taken h) @ q_elements s \<and>
     (\<forall>t. map snd (filter (\<lambda>p. fst p = t) (taken h)) = got t h @ q_pending s t)"

text \<open>The coroutines inside \<open>pop\<close>, for the queue, and the outcomes after which \<open>pop\<close> goes on.\<close>

definition q_popping :: "'a queue \<Rightarrow> handle \<Rightarrow> bool" where
  "q_popping s t \<longleftrightarrow> t \<in> set (q_waiters s) \<or> q_resuming s t \<noteq> None"

fun q_opens :: "'a queue_out \<Rightarrow> bool" where
  "q_opens (Pop_ready x) = True"
| "q_opens Pop_suspended = True"
| "q_opens out = False"

section \<open>Lemmas\<close>

lemma q_unlock_locked:
  "q_mutex s = CLocked ws \<Longrightarrow> unlock (CLocked ws) = Inr (w, c) \<Longrightarrow> q_unlock s = Inr (w, s\<lparr>q_mutex := c\<rparr>)"
  by (simp add: q_unlock_def)

lemmas q_defs = push_locked_def pop_await_ready_def pop_await_suspend_def pop_locked_def try_pop_locked_def
  q_shutdown_locked_def q_shutdown_drain_locked_def compare_exchange_def q_empty_def q_size_def

text \<open>The locked parts in full, once the mutex is known to be held.\<close>

lemma q_body_cases:
  assumes "q_mutex s = CLocked ws" and "unlock (CLocked ws) = Inr (w, c)"
  shows "push_locked x s = Inr
      (if q_running_state s \<noteq> Running then (Push_stopped, w, s\<lparr>q_mutex := c\<rparr>)
       else case q_waiters s of
         [] \<Rightarrow> (Push_stored x, w, s\<lparr>q_elements := q_elements s @ [x], q_mutex := c\<rparr>)
       | v # vs \<Rightarrow> (Push_transfer v x, w, s\<lparr>q_waiters := vs, q_mutex := c, q_resuming := (q_resuming s)(v := Some (Some x))\<rparr>))"
    and "pop_locked t s = Inr
      (if q_running_state s = Stopped
       then (Pop_ready None, w, s\<lparr>q_mutex := c, q_resuming := (q_resuming s)(t := Some None)\<rparr>)
       else case q_elements s of
         [] \<Rightarrow> (Pop_suspended, w, s\<lparr>q_waiters := t # q_waiters s, q_mutex := c\<rparr>)
       | y # ys \<Rightarrow> (Pop_ready (Some y), w, s\<lparr>q_elements := ys, q_mutex := c, q_resuming := (q_resuming s)(t := Some (Some y))\<rparr>))"
    and "try_pop_locked s = Inr
      (if q_running_state s = Stopped then (Try_pop_returned (Inl Consume_stopped), w, s\<lparr>q_mutex := c\<rparr>)
       else case q_elements s of
         [] \<Rightarrow> (Try_pop_returned (Inl Consume_empty), w, s\<lparr>q_mutex := c\<rparr>)
       | y # ys \<Rightarrow> (Try_pop_returned (Inr y), w, s\<lparr>q_elements := ys, q_mutex := c\<rparr>))"
    and "q_shutdown_locked expected s = Inr
      (if q_running_state s = expected
       then (Shutdown_woken (q_waiters s), w, s\<lparr>q_running_state := Stopped, q_waiters := [], q_mutex := c,
         q_resuming := wake_all (q_waiters s) None (q_resuming s)\<rparr>)
       else (Shutdown_lost, w, s\<lparr>q_mutex := c\<rparr>))"
    and "q_shutdown_drain_locked t s = Inr
      (if q_running_state s = Running
       then (Drain_started, w, s\<lparr>q_running_state := Draining, q_mutex := c, q_draining := insert t (q_draining s)\<rparr>)
       else (Drain_lost, w, s\<lparr>q_mutex := c\<rparr>))"
  using assms by (simp_all add: q_defs q_unlock_locked [OF _ assms(2)] split: list.splits)

lemma q_log_simps [simp]:
  "entered [] = []" "taken [] = []" "got t [] = []"
  "entered (e # h) = entered h @ q_in (snd e)" "taken (e # h) = taken h @ q_taken e"
  "got t (e # h) = got t h @ map snd (filter (\<lambda>p. fst p = t) (q_got e))"
  by (simp_all add: entered_def taken_def got_def)

lemma q_body_effect:
  assumes s: "q_mutex s = CLocked ws" and b: "q_body op t s = Inr (out, w, s')"
    and i: "q_inv s" and c: "q_can s t op"
  shows "unlock (CLocked ws) = Inr (w, q_mutex s')" and "q_inv s'"
    and "u \<noteq> t \<Longrightarrow> q_can s u op' \<Longrightarrow> q_can s' u op'"
    and "q_popping s' u = (if u = t then q_opens out else q_popping s u)"
proof -
  obtain w0 c0 where u0: "unlock (CLocked ws) = Inr (w0, c0)" using unlock_locked by blast
  note cs = q_body_cases [OF s u0]
  show "unlock (CLocked ws) = Inr (w, q_mutex s')"
    using b u0 by (cases op) (auto simp: cs split: if_splits list.splits)
  show "q_inv s'"
    using b i c by (cases op) (auto simp: cs q_inv_def q_can_def q_inside_def split: if_splits list.splits)
  show "q_can s' u op'" if "u \<noteq> t" "q_can s u op'"
    using that b by (cases op) (auto simp: cs q_can_def q_inside_def split: if_splits list.splits)
  show "q_popping s' u = (if u = t then q_opens out else q_popping s u)"
    using b c by (cases op) (auto simp: cs q_popping_def q_can_def q_inside_def split: if_splits list.splits)
qed

lemma q_body_total:
  assumes "q_mutex s = CLocked ws"
  shows "\<exists>out w s'. q_body op t s = Inr (out, w, s')"
proof -
  obtain w0 c0 where "unlock (CLocked ws) = Inr (w0, c0)" using unlock_locked by blast
  note cs = q_body_cases [OF assms this]
  show ?thesis by (cases op) (auto simp: cs split: if_splits list.splits)
qed

lemma q_free_effect:
  assumes "q_free t s out s'" and "q_inv s"
  shows "q_mutex s' = q_mutex s" and "q_inv s'" and "u \<noteq> t \<Longrightarrow> q_can s u op' \<Longrightarrow> q_can s' u op'"
    and "q_popping s' u = (if u = t then q_opens out else q_popping s u)"
  using assms by (cases rule: q_free.cases; auto simp: q_inv_def q_can_def q_inside_def q_popping_def)+

text \<open>The log and the queue: first for what enters and leaves, then for what is delivered.\<close>

lemma q_hist_pending:
  assumes "q_hist h s" and "entered (e # h) = map snd (taken (e # h)) @ q_elements s'"
    and "\<And>u. map snd (filter (\<lambda>p. fst p = u) (q_taken e)) = [] \<Longrightarrow>
       q_pending s u = map snd (filter (\<lambda>p. fst p = u) (q_got e)) @ q_pending s' u"
    and "\<And>u. map snd (filter (\<lambda>p. fst p = u) (q_taken e)) \<noteq> [] \<Longrightarrow>
       q_pending s u = [] \<and> map snd (filter (\<lambda>p. fst p = u) (q_taken e)) = map snd (filter (\<lambda>p. fst p = u) (q_got e)) @ q_pending s' u"
  shows "q_hist (e # h) s'"
proof -
  have "map snd (filter (\<lambda>p. fst p = u) (taken (e # h))) = got u (e # h) @ q_pending s' u" for u
    using assms(1) assms(3,4) [of u]
    by (cases "map snd (filter (\<lambda>p. fst p = u) (q_taken e)) = []") (auto simp: q_hist_def)
  then show ?thesis using assms(2) by (simp add: q_hist_def)
qed

lemma q_body_hist:
  assumes s: "q_mutex s = CLocked ws" and b: "q_body op t s = Inr (out, w, s')"
    and i: "q_inv s" and c: "q_can s t op" and h: "q_hist h s"
  shows "q_hist ((t, out) # h) s'"
proof -
  obtain w0 c0 where u0: "unlock (CLocked ws) = Inr (w0, c0)" using unlock_locked by blast
  note cs = q_body_cases [OF s u0]
  have e: "entered h = map snd (taken h) @ q_elements s" using h by (simp add: q_hist_def)
  have out: "q_resuming s t = None" using c by (simp add: q_can_def q_inside_def)
  have head: "\<And>v vs. q_waiters s = v # vs \<Longrightarrow> q_resuming s v = None" using i by (auto simp: q_inv_def)
  have waiters: "\<And>v. v \<in> set (q_waiters s) \<Longrightarrow> q_resuming s v = None" using i by (auto simp: q_inv_def)
  have nil: "q_waiters s \<noteq> [] \<Longrightarrow> q_elements s = []" using i by (auto simp: q_inv_def)
  show ?thesis
    using b by (intro q_hist_pending [OF h]; cases op)
      (auto simp: cs e out head waiters nil q_pending_def split: if_splits list.splits)
qed

lemma q_free_hist:
  assumes "q_free t s out s'" and h: "q_hist h s"
  shows "q_hist ((t, out) # h) s'"
proof -
  have e: "entered h = map snd (taken h) @ q_elements s" using h by (simp add: q_hist_def)
  from assms(1) show ?thesis
  proof (cases rule: q_free.cases)
    case (q_free_resume x)
    then show ?thesis by (intro q_hist_pending [OF h]; cases x) (auto simp: e q_pending_def)
  qed (intro q_hist_pending [OF h]; auto simp: e q_pending_def)+
qed

lemma q_basic [simp]:
  "q_inv (s\<lparr>q_mutex := m\<rparr>) = q_inv s" "q_can (s\<lparr>q_mutex := m\<rparr>) t op = q_can s t op"
  "q_hist h (s\<lparr>q_mutex := m\<rparr>) = q_hist h s" "q_popping (s\<lparr>q_mutex := m\<rparr>) t = q_popping s t"
  by (auto simp: q_inv_def q_can_def q_inside_def q_hist_def q_pending_def q_popping_def)

lemma q_init_inv: "q_init s \<Longrightarrow> q_mutex s = CUnlocked" "q_init s \<Longrightarrow> q_inv s" "q_init s \<Longrightarrow> q_hist [] s"
  "q_init s \<Longrightarrow> \<not> q_popping s t"
  by (auto simp: q_init_def queue_new_def q_inv_def q_hist_def q_pending_def q_popping_def)

interpretation qu: monitor_history q_mutex "\<lambda>m s. s\<lparr>q_mutex := m\<rparr>" q_start q_can q_body q_free q_init q_inv q_hist
proof
  fix s :: "'a queue" and t op ws
  assume "q_inv s" "q_can s t op" and l: "q_mutex s = CLocked ws"
  then show "\<exists>out w s'. q_body op t s = Inr (out, w, s') \<and> unlock (CLocked ws) = Inr (w, q_mutex s')"
    using q_body_total [OF l, of op t] q_body_effect(1) [OF l] by blast
qed (simp; fail | blast intro: q_body_effect q_free_effect q_init_inv q_body_hist q_free_hist)+

interpretation quc: monitor_calls q_mutex "\<lambda>m s. s\<lparr>q_mutex := m\<rparr>" q_start q_can q_body q_free q_init q_inv q_popping q_opens
  by unfold_locales
    (erule q_init_inv(4), simp, rule q_body_effect(4), assumption+, rule q_free_effect(4), assumption+)

section \<open>Properties\<close>

text \<open>C8: the queue is first-in first-out, loses nothing and duplicates nothing.  In every execution
  the elements that have entered, in order, are the elements that have left, in order, followed by those
  still stored; and each coroutine has received, in order, exactly the elements that left the queue on
  its behalf, apart from one that it is about to return.\<close>

theorem queue_fifo:
  assumes "reach (mon_init q_init) q_step s"
  shows "entered (mon_log s) = map snd (taken (mon_log s)) @ q_elements (mon_obj s) \<and>
     map snd (filter (\<lambda>p. fst p = t) (taken (mon_log s))) = got t (mon_log s) @ q_pending (mon_obj s) t"
  using qu.history [OF assms] by (simp add: q_hist_def)

text \<open>C9: nobody is stranded in the queue.  In every execution a consumer that \<open>pop\<close> has suspended and
  that has not returned is either on the list of waiters, and then no element is stored and the queue
  has not stopped, or it has been resumed and can return from \<open>pop\<close>.  And whenever the internal mutex is
  locked, exactly one coroutine is inside, whose locked part completes without an exception and passes
  the mutex on or frees it.\<close>

theorem queue_not_stranded:
  assumes "reach (mon_init q_init) q_step s"
  shows "(map_of (mon_log s) c = Some Pop_suspended \<longrightarrow>
       c \<in> set (q_waiters (mon_obj s)) \<and> q_elements (mon_obj s) = [] \<and> q_running_state (mon_obj s) \<noteq> Stopped \<or>
       (\<exists>r obj. q_free c (mon_obj s) (Pop_returned r) obj)) \<and>
     (q_mutex (mon_obj s) \<noteq> CUnlocked \<longrightarrow>
       (\<exists>t op ws out w obj. mon_ph s t = Entered op \<and> (\<forall>v. (\<exists>op'. mon_ph s v = Entered op') \<longrightarrow> v = t) \<and>
         q_mutex (mon_obj s) = CLocked ws \<and> q_body op t (mon_obj s) = Inr (out, w, obj) \<and>
         unlock (CLocked ws) = Inr (w, q_mutex obj)))"
proof -
  have "q_popping (mon_obj s) c" if "map_of (mon_log s) c = Some Pop_suspended"
    using quc.inside_iff [OF assms] that by auto
  moreover have "\<exists>r obj. q_free c (mon_obj s) (Pop_returned r) obj" if "q_resuming (mon_obj s) c \<noteq> None"
    using that q_free_resume [of "mon_obj s" c] by blast
  ultimately show ?thesis
    using qu.obj_inv [OF assms] qu.never_locked_out [OF assms] by (auto simp: q_inv_def q_popping_def)
qed

text \<open>A \<open>shutdown\<close> can return without stopping the queue.  \<open>shutdown\<close> reads the running state before
  it has the mutex and compares with that value later; there is an execution in which \<open>shutdown_drain\<close>
  comes in between, \<open>shutdown\<close> gives up, and the queue is left draining with its element.\<close>

theorem queue_shutdown_gives_up:
  "\<exists>s. reach (mon_init q_init) q_step s \<and>
     mon_log s = [(2, Shutdown_lost), (1, Drain_started), (3, Push_stored x)] \<and>
     q_running_state (mon_obj s) = Draining \<and> q_elements (mon_obj s) = [x]"
proof -
  let ?R = "reach (mon_init q_init) q_step :: ('a queue, 'a queue_op, 'a queue_out) mon \<Rightarrow> bool"
  let ?out = "\<lambda>_. Outside :: 'a queue_op phase"
  let ?a = "queue_new\<lparr>q_elements := [x]\<rparr>"
  let ?b = "?a\<lparr>q_running_state := Draining, q_draining := {1}\<rparr>"
  note sim = queue_new_def q_can_def q_inside_def q_body_cases
  have 0: "?R \<lparr>mon_obj = queue_new, mon_ph = ?out, mon_log = []\<rparr>"
    by (rule reach_init) (simp add: mon_init_def q_init_def)
  have 1: "?R \<lparr>mon_obj = queue_new\<lparr>q_mutex := CLocked []\<rparr>, mon_ph = ?out(3 := Entered (Push x)), mon_log = []\<rparr>"
    by (rule reach_enter [OF 0, where t = 3 and op = "Push x" and susp = False and m = "CLocked []"]) (simp_all add: sim)
  have 2: "?R \<lparr>mon_obj = ?a, mon_ph = ?out, mon_log = [(3, Push_stored x)]\<rparr>"
    by (rule reach_body [OF 1, where t = 3 and op = "Push x" and w = None and out = "Push_stored x" and obj = ?a]) (simp_all add: sim)
  have 3: "?R \<lparr>mon_obj = ?a\<lparr>q_mutex := CLocked []\<rparr>, mon_ph = ?out(1 := Entered Q_shutdown_drain), mon_log = [(3, Push_stored x)]\<rparr>"
    by (rule reach_enter [OF 2, where t = 1 and op = Q_shutdown_drain and susp = False and m = "CLocked []"]) (simp_all add: sim)
  have 4: "?R \<lparr>mon_obj = ?a\<lparr>q_mutex := CLocked [2]\<rparr>,
      mon_ph = ?out(1 := Entered Q_shutdown_drain, 2 := Queued (Q_shutdown Running)), mon_log = [(3, Push_stored x)]\<rparr>"
    by (rule reach_enter [OF 3, where t = 2 and op = "Q_shutdown Running" and susp = True and m = "CLocked [2]"]) (simp_all add: sim)
  have 5: "?R \<lparr>mon_obj = ?b\<lparr>q_mutex := CLocked []\<rparr>, mon_ph = ?out(2 := Entered (Q_shutdown Running)),
      mon_log = [(1, Drain_started), (3, Push_stored x)]\<rparr>"
    by (rule reach_body [OF 4, where t = 1 and op = Q_shutdown_drain and w = "Some 2" and out = Drain_started
          and obj = "?b\<lparr>q_mutex := CLocked []\<rparr>"]) (auto simp: sim fun_upd_twist)
  have 6: "?R \<lparr>mon_obj = ?b, mon_ph = ?out, mon_log = [(2, Shutdown_lost), (1, Drain_started), (3, Push_stored x)]\<rparr>"
    by (rule reach_body [OF 5, where t = 2 and op = "Q_shutdown Running" and w = None and out = Shutdown_lost and obj = ?b]) (simp_all add: sim)
  show ?thesis by (rule exI, rule conjI [OF 6]) simp
qed

section \<open>Witnesses\<close>

lemma q_demo:
  "reach (mon_init q_init) q_step
     \<lparr>mon_obj = queue_new\<lparr>q_elements := [5 :: nat]\<rparr>, mon_ph = \<lambda>_. Outside, mon_log = [(3, Push_stored 5)]\<rparr>"
proof -
  let ?R = "reach (mon_init q_init) q_step :: (nat queue, nat queue_op, nat queue_out) mon \<Rightarrow> bool"
  have 0: "?R \<lparr>mon_obj = queue_new, mon_ph = \<lambda>_. Outside, mon_log = []\<rparr>"
    by (rule reach_init) (simp add: mon_init_def q_init_def)
  have 1: "?R \<lparr>mon_obj = queue_new\<lparr>q_mutex := CLocked []\<rparr>, mon_ph = (\<lambda>_. Outside)(3 := Entered (Push 5)), mon_log = []\<rparr>"
    by (rule reach_enter [OF 0, where t = 3 and op = "Push 5" and susp = False and m = "CLocked []"])
      (simp_all add: queue_new_def q_can_def q_inside_def)
  show ?thesis
    by (rule reach_body [OF 1, where t = 3 and op = "Push 5" and w = None and out = "Push_stored 5"
          and obj = "queue_new\<lparr>q_elements := [5]\<rparr>"]) (simp_all add: queue_new_def q_body_cases)
qed

theorem queue_fifo_witness:
  "entered [(3, Push_stored (5 :: nat))] = map snd (taken [(3, Push_stored (5 :: nat))]) @ [5] \<and>
   map snd (filter (\<lambda>p. fst p = 3) (taken [(3, Push_stored (5 :: nat))])) = got 3 [(3, Push_stored 5)] @ []"
  using queue_fifo [OF q_demo, of 3] by (simp add: queue_new_def q_pending_def)

text \<open>Coroutine 1 waits in \<open>pop\<close>, coroutine 2 shuts the queue down.\<close>

abbreviation q_log :: "(handle \<times> nat queue_out) list" where
  "q_log \<equiv> [(2, Shutdown_woken [1]), (1, Pop_suspended)]"

abbreviation q_shut :: "nat queue" where
  "q_shut \<equiv> queue_new\<lparr>q_running_state := Stopped, q_resuming := [1 \<mapsto> None]\<rparr>"

lemma q_demo_shutdown:
  "reach (mon_init q_init) q_step \<lparr>mon_obj = q_shut, mon_ph = \<lambda>_. Outside, mon_log = q_log\<rparr>"
proof -
  let ?R = "reach (mon_init q_init) q_step :: (nat queue, nat queue_op, nat queue_out) mon \<Rightarrow> bool"
  let ?out = "\<lambda>_. Outside :: nat queue_op phase" and ?w = "queue_new\<lparr>q_waiters := [1]\<rparr>"
  note sim = queue_new_def q_can_def q_inside_def q_body_cases
  note enter = reach_enter [where susp = False and m = "CLocked []"]
  note body = reach_body [where w = None]
  have 0: "?R \<lparr>mon_obj = queue_new, mon_ph = ?out, mon_log = []\<rparr>"
    by (rule reach_init) (simp add: mon_init_def q_init_def)
  have 1: "?R \<lparr>mon_obj = queue_new\<lparr>q_mutex := CLocked []\<rparr>, mon_ph = ?out(1 := Entered Pop), mon_log = []\<rparr>"
    by (rule enter [OF 0, where t = 1 and op = Pop]) (simp_all add: sim)
  have 2: "?R \<lparr>mon_obj = ?w, mon_ph = ?out, mon_log = drop 1 q_log\<rparr>"
    by (rule body [OF 1, where t = 1 and op = Pop]) (simp_all add: sim)
  have 3: "?R \<lparr>mon_obj = ?w\<lparr>q_mutex := CLocked []\<rparr>, mon_ph = ?out(2 := Entered (Q_shutdown Running)), mon_log = drop 1 q_log\<rparr>"
    by (rule enter [OF 2, where t = 2 and op = "Q_shutdown Running"]) (simp_all add: sim)
  show ?thesis
    by (rule body [OF 3, where t = 2 and op = "Q_shutdown Running"]) (auto simp: sim wake_all_def)
qed

theorem queue_not_stranded_witness:
  "map_of q_log 1 = Some Pop_suspended \<and> (\<exists>r obj. q_free 1 q_shut (Pop_returned r) obj)"
  using queue_not_stranded [OF q_demo_shutdown, of 1] by (simp add: queue_new_def)

end
