(* ===== verification/RingBuffer.thy ===== *)
theory RingBuffer
  imports Monitor
begin

text \<open>
  The bounded ring buffer of \<open>include/coro/ring_buffer.hpp\<close>.  Each operation is the code that runs after the
  mutex has been acquired; a call of \<open>produce\<close>, \<open>consume\<close> or \<open>shutdown\<close> consists of several of
  them, and \<open>rb_ctl\<close> says which comes next for each coroutine.  The slots are an array indexed by the
  64-bit counters \<open>m_front\<close> and \<open>m_back\<close> modulo the capacity.
\<close>

section \<open>The ring buffer\<close>

datatype produce_result = RB_produced | RB_produce_notified | RB_produce_stopped

datatype consume_result = RB_consume_notified | RB_consume_stopped

datatype rb_state_t = RB_running | RB_draining | RB_stopped

text \<open>
  Where a coroutine stands between two locked parts of one call: \<open>produce\<close> with its result, on the
  way to \<open>try_resume_consumers\<close>; \<open>consume\<close> with its result, on the way to \<open>try_resume_producers\<close>;
  \<open>shutdown\<close> between its two critical sections; the loop of \<open>shutdown_drain\<close>.
\<close>

datatype 'a rb_ctl =
    Producing produce_result
  | Consuming "consume_result + 'a"
  | Shutting
  | Drain_loop

text \<open>
  A waiting \<open>produce_operation\<close> carries its element.  The positions \<open>m_front\<close> and \<open>m_back\<close> are counters
  of the width of \<open>std::size_t\<close>.
\<close>

record 'a ring_buffer =
  rb_mutex :: cmutex
  rb_elements :: "'a option list"
  rb_front :: size_t
  rb_back :: size_t
  rb_used :: nat
  rb_produce_waiters :: "(handle \<times> 'a) list"
  rb_consume_waiters :: "handle list"
  rb_running_state :: rb_state_t
  rb_ctl :: "handle \<Rightarrow> 'a rb_ctl option"

definition ring_buffer_new :: "nat \<Rightarrow> 'a ring_buffer" where
  "ring_buffer_new num_elements =
     \<lparr>rb_mutex = CUnlocked, rb_elements = replicate num_elements None, rb_front = 0, rb_back = 0, rb_used = 0,
      rb_produce_waiters = [], rb_consume_waiters = [], rb_running_state = RB_running, rb_ctl = \<lambda>_. None\<rparr>"

definition rb_unlock :: "'a ring_buffer \<Rightarrow> (handle option \<times> 'a ring_buffer) result" where
  "rb_unlock s = (case unlock (rb_mutex s) of Inl e \<Rightarrow> Inl e | Inr (w, m) \<Rightarrow> Inr (w, s\<lparr>rb_mutex := m\<rparr>))"

definition rb_size :: "'a ring_buffer \<Rightarrow> nat" where
  "rb_size s = rb_used s"

definition rb_empty :: "'a ring_buffer \<Rightarrow> bool" where
  "rb_empty s \<longleftrightarrow> rb_size s = 0"

definition rb_full :: "nat \<Rightarrow> 'a ring_buffer \<Rightarrow> bool" where
  "rb_full num_elements s \<longleftrightarrow> rb_size s = num_elements"

text \<open>Storing into the front slot and taking from the back slot.\<close>

definition rb_store :: "nat \<Rightarrow> 'a \<Rightarrow> 'a ring_buffer \<Rightarrow> 'a ring_buffer" where
  "rb_store num_elements x s =
     s\<lparr>rb_elements := (rb_elements s)[unat (rb_front s) mod num_elements := Some x],
       rb_front := rb_front s + 1, rb_used := rb_used s + 1\<rparr>"

definition rb_take :: "nat \<Rightarrow> 'a ring_buffer \<Rightarrow> 'a option \<times> 'a ring_buffer" where
  "rb_take num_elements s =
     (rb_elements s ! (unat (rb_back s) mod num_elements),
      s\<lparr>rb_elements := (rb_elements s)[unat (rb_back s) mod num_elements := None],
        rb_back := rb_back s + 1, rb_used := rb_used s - 1\<rparr>)"

fun consume_await_resume :: "consume_result \<Rightarrow> 'a option \<Rightarrow> consume_result + 'a" where
  "consume_await_resume result (Some x) = Inr x"
| "consume_await_resume result None = Inl result"

text \<open>What a locked part did.  \<open>R\<close> stands for \<open>try_resume\<close>.\<close>

datatype 'a rb_out =
    Prod_stopped
  | Prod_stored 'a
  | Prod_suspended 'a
  | Prod_returned produce_result
  | Cons_stopped
  | Cons_took "'a option"
  | Cons_suspended
  | Cons_returned "consume_result + 'a"
  | R_producer handle 'a
  | R_consumer handle "'a option"
  | Notified_producers "handle list"
  | Notified_consumers "handle list"
  | Notify_early
  | Stop_early
  | Stop_lost
  | Stop_flagged
  | Stop_woken "handle list" "handle list"
  | RB_drain_lost
  | RB_drain_started "handle list"
  | RB_drain_yield
  | RB_drain_exit

text \<open>\<open>co_await produce_operation\<close> with the mutex held.\<close>

definition produce_locked :: "nat \<Rightarrow> 'a \<Rightarrow> handle \<Rightarrow> 'a ring_buffer \<Rightarrow> ('a rb_out \<times> handle option \<times> 'a ring_buffer) result" where
  "produce_locked num_elements x t s =
     (if rb_running_state s \<noteq> RB_running
      then (case rb_unlock s of
              Inl e \<Rightarrow> Inl e
            | Inr (w, s') \<Rightarrow> Inr (Prod_stopped, w, s'\<lparr>rb_ctl := (rb_ctl s')(t := Some (Producing RB_produce_stopped))\<rparr>))
      else if rb_used s < num_elements
      then (case rb_unlock (rb_store num_elements x s) of
              Inl e \<Rightarrow> Inl e
            | Inr (w, s') \<Rightarrow> Inr (Prod_stored x, w, s'\<lparr>rb_ctl := (rb_ctl s')(t := Some (Producing RB_produced))\<rparr>))
      else (case rb_unlock (s\<lparr>rb_produce_waiters := (t, x) # rb_produce_waiters s\<rparr>) of
              Inl e \<Rightarrow> Inl e
            | Inr (w, s') \<Rightarrow> Inr (Prod_suspended x, w, s')))"

text \<open>\<open>co_await consume_operation\<close> with the mutex held.\<close>

definition consume_locked :: "nat \<Rightarrow> handle \<Rightarrow> 'a ring_buffer \<Rightarrow> ('a rb_out \<times> handle option \<times> 'a ring_buffer) result" where
  "consume_locked num_elements t s =
     (if rb_running_state s = RB_stopped
      then (case rb_unlock s of
              Inl e \<Rightarrow> Inl e
            | Inr (w, s') \<Rightarrow> Inr (Cons_stopped, w, s'\<lparr>rb_ctl := (rb_ctl s')(t := Some (Consuming (Inl RB_consume_stopped)))\<rparr>))
      else if 0 < rb_used s
      then (case rb_take num_elements s of
              (m_e, s1) \<Rightarrow>
                (case rb_unlock s1 of
                   Inl e \<Rightarrow> Inl e
                 | Inr (w, s') \<Rightarrow>
                     Inr (Cons_took m_e, w,
                       s'\<lparr>rb_ctl := (rb_ctl s')(t := Some (Consuming (consume_await_resume RB_consume_stopped m_e)))\<rparr>)))
      else (case rb_unlock (s\<lparr>rb_consume_waiters := t # rb_consume_waiters s\<rparr>) of
              Inl e \<Rightarrow> Inl e
            | Inr (w, s') \<Rightarrow> Inr (Cons_suspended, w, s')))"

text \<open>One round of the loop in \<open>try_resume_producers\<close>; without a producer to resume, \<open>consume\<close> returns.\<close>

definition try_resume_producers_locked ::
    "nat \<Rightarrow> (consume_result + 'a) \<Rightarrow> handle \<Rightarrow> 'a ring_buffer \<Rightarrow> ('a rb_out \<times> handle option \<times> 'a ring_buffer) result" where
  "try_resume_producers_locked num_elements r t s =
     (case (if rb_used s < num_elements then rb_produce_waiters s else []) of
        (v, x) # vs \<Rightarrow>
          (case rb_unlock (rb_store num_elements x (s\<lparr>rb_produce_waiters := vs\<rparr>)) of
             Inl e \<Rightarrow> Inl e
           | Inr (w, s') \<Rightarrow> Inr (R_producer v x, w, s'\<lparr>rb_ctl := (rb_ctl s')(v := Some (Producing RB_produced))\<rparr>))
      | [] \<Rightarrow>
          (case rb_unlock s of
             Inl e \<Rightarrow> Inl e
           | Inr (w, s') \<Rightarrow> Inr (Cons_returned r, w, s'\<lparr>rb_ctl := (rb_ctl s')(t := None)\<rparr>)))"

definition try_resume_consumers_locked ::
    "nat \<Rightarrow> produce_result \<Rightarrow> handle \<Rightarrow> 'a ring_buffer \<Rightarrow> ('a rb_out \<times> handle option \<times> 'a ring_buffer) result" where
  "try_resume_consumers_locked num_elements r t s =
     (case (if 0 < rb_used s then rb_consume_waiters s else []) of
        v # vs \<Rightarrow>
          (case rb_take num_elements (s\<lparr>rb_consume_waiters := vs\<rparr>) of
             (m_e, s1) \<Rightarrow>
               (case rb_unlock s1 of
                  Inl e \<Rightarrow> Inl e
                | Inr (w, s') \<Rightarrow>
                    Inr (R_consumer v m_e, w,
                      s'\<lparr>rb_ctl := (rb_ctl s')(v := Some (Consuming (consume_await_resume RB_consume_stopped m_e)))\<rparr>)))
      | [] \<Rightarrow>
          (case rb_unlock s of
             Inl e \<Rightarrow> Inl e
           | Inr (w, s') \<Rightarrow> Inr (Prod_returned r, w, s'\<lparr>rb_ctl := (rb_ctl s')(t := None)\<rparr>)))"

definition notify_producers_locked :: "'a ring_buffer \<Rightarrow> ('a rb_out \<times> handle option \<times> 'a ring_buffer) result" where
  "notify_producers_locked s =
     (case rb_unlock (s\<lparr>rb_produce_waiters := []\<rparr>) of
        Inl e \<Rightarrow> Inl e
      | Inr (w, s') \<Rightarrow>
          Inr (Notified_producers (map fst (rb_produce_waiters s)), w,
            s'\<lparr>rb_ctl := wake_all (map fst (rb_produce_waiters s)) (Producing RB_produce_notified) (rb_ctl s')\<rparr>))"

definition notify_consumers_locked :: "'a ring_buffer \<Rightarrow> ('a rb_out \<times> handle option \<times> 'a ring_buffer) result" where
  "notify_consumers_locked s =
     (case rb_unlock (s\<lparr>rb_consume_waiters := []\<rparr>) of
        Inl e \<Rightarrow> Inl e
      | Inr (w, s') \<Rightarrow>
          Inr (Notified_consumers (rb_consume_waiters s), w,
            s'\<lparr>rb_ctl := wake_all (rb_consume_waiters s) (Consuming (Inl RB_consume_notified)) (rb_ctl s')\<rparr>))"

text \<open>The two critical sections of \<open>shutdown\<close>; \<open>expected\<close> was read before the first.\<close>

definition shutdown_flag_locked ::
    "rb_state_t \<Rightarrow> handle \<Rightarrow> 'a ring_buffer \<Rightarrow> ('a rb_out \<times> handle option \<times> 'a ring_buffer) result" where
  "shutdown_flag_locked expected t s =
     (case compare_exchange False (rb_running_state s) expected RB_stopped of
        (False, _, _) \<Rightarrow> (case rb_unlock s of Inl e \<Rightarrow> Inl e | Inr (w, s') \<Rightarrow> Inr (Stop_lost, w, s'))
      | (True, _, st) \<Rightarrow>
          (case rb_unlock (s\<lparr>rb_running_state := st\<rparr>) of
             Inl e \<Rightarrow> Inl e
           | Inr (w, s') \<Rightarrow> Inr (Stop_flagged, w, s'\<lparr>rb_ctl := (rb_ctl s')(t := Some Shutting)\<rparr>)))"

definition shutdown_wake_locked :: "handle \<Rightarrow> 'a ring_buffer \<Rightarrow> ('a rb_out \<times> handle option \<times> 'a ring_buffer) result" where
  "shutdown_wake_locked t s =
     (case rb_unlock (s\<lparr>rb_produce_waiters := [], rb_consume_waiters := []\<rparr>) of
        Inl e \<Rightarrow> Inl e
      | Inr (w, s') \<Rightarrow>
          Inr (Stop_woken (map fst (rb_produce_waiters s)) (rb_consume_waiters s), w,
            s'\<lparr>rb_ctl := wake_all (rb_consume_waiters s) (Consuming (Inl RB_consume_stopped))
                 (wake_all (map fst (rb_produce_waiters s)) (Producing RB_produce_stopped) ((rb_ctl s')(t := None)))\<rparr>))"

text \<open>\<open>shutdown_drain\<close> resumes the waiting producers with the result they were created with.\<close>

definition shutdown_drain_locked :: "handle \<Rightarrow> 'a ring_buffer \<Rightarrow> ('a rb_out \<times> handle option \<times> 'a ring_buffer) result" where
  "shutdown_drain_locked t s =
     (case compare_exchange False (rb_running_state s) RB_running RB_draining of
        (False, _, _) \<Rightarrow> (case rb_unlock s of Inl e \<Rightarrow> Inl e | Inr (w, s') \<Rightarrow> Inr (RB_drain_lost, w, s'))
      | (True, _, st) \<Rightarrow>
          (case rb_unlock (s\<lparr>rb_running_state := st, rb_produce_waiters := []\<rparr>) of
             Inl e \<Rightarrow> Inl e
           | Inr (w, s') \<Rightarrow>
               Inr (RB_drain_started (map fst (rb_produce_waiters s)), w,
                 s'\<lparr>rb_ctl := wake_all (map fst (rb_produce_waiters s)) (Producing RB_produced)
                      ((rb_ctl s')(t := Some Drain_loop))\<rparr>)))"

section \<open>Concurrent use\<close>

datatype 'a rb_op =
    Produce 'a
  | Consume
  | Resume_consumers
  | Resume_producers
  | Notify_producers
  | Notify_consumers
  | Shutdown_flag rb_state_t
  | Shutdown_wake
  | Shutdown_drain

fun rb_body :: "nat \<Rightarrow> 'a rb_op \<Rightarrow> handle \<Rightarrow> 'a ring_buffer \<Rightarrow> ('a rb_out \<times> handle option \<times> 'a ring_buffer) result" where
  "rb_body n (Produce x) t s = produce_locked n x t s"
| "rb_body n Consume t s = consume_locked n t s"
| "rb_body n Resume_consumers t s =
     (case rb_ctl s t of Some (Producing r) \<Rightarrow> try_resume_consumers_locked n r t s | _ \<Rightarrow> Inl Bad_optional_access)"
| "rb_body n Resume_producers t s =
     (case rb_ctl s t of Some (Consuming r) \<Rightarrow> try_resume_producers_locked n r t s | _ \<Rightarrow> Inl Bad_optional_access)"
| "rb_body n Notify_producers t s = notify_producers_locked s"
| "rb_body n Notify_consumers t s = notify_consumers_locked s"
| "rb_body n (Shutdown_flag expected) t s = shutdown_flag_locked expected t s"
| "rb_body n Shutdown_wake t s = shutdown_wake_locked t s"
| "rb_body n Shutdown_drain t s = shutdown_drain_locked t s"

definition rb_waiting :: "'a ring_buffer \<Rightarrow> handle set" where
  "rb_waiting s = fst ` set (rb_produce_waiters s) \<union> set (rb_consume_waiters s)"

text \<open>A new call starts outside; the later parts of a call follow the control state.\<close>

fun rb_can :: "'a ring_buffer \<Rightarrow> handle \<Rightarrow> 'a rb_op \<Rightarrow> bool" where
  "rb_can s t Resume_consumers = (\<exists>r. rb_ctl s t = Some (Producing r))"
| "rb_can s t Resume_producers = (\<exists>r. rb_ctl s t = Some (Consuming r))"
| "rb_can s t Shutdown_wake = (rb_ctl s t = Some Shutting)"
| "rb_can s t op = (rb_ctl s t = None \<and> t \<notin> rb_waiting s)"

fun rb_start :: "'a ring_buffer \<Rightarrow> handle \<Rightarrow> 'a rb_op \<Rightarrow> bool" where
  "rb_start s t Notify_producers = (rb_running_state s \<noteq> RB_stopped)"
| "rb_start s t Notify_consumers = (rb_running_state s \<noteq> RB_stopped)"
| "rb_start s t (Shutdown_flag expected) = (rb_running_state s = expected \<and> expected \<noteq> RB_stopped)"
| "rb_start s t op = True"

inductive rb_free :: "handle \<Rightarrow> 'a ring_buffer \<Rightarrow> 'a rb_out \<Rightarrow> 'a ring_buffer \<Rightarrow> bool" where
  rb_free_notify: "rb_ctl s t = None \<Longrightarrow> t \<notin> rb_waiting s \<Longrightarrow> rb_running_state s = RB_stopped \<Longrightarrow> rb_free t s Notify_early s"
| rb_free_stop: "rb_ctl s t = None \<Longrightarrow> t \<notin> rb_waiting s \<Longrightarrow> rb_running_state s = RB_stopped \<Longrightarrow> rb_free t s Stop_early s"
| rb_free_yield: "rb_ctl s t = Some Drain_loop \<Longrightarrow> \<not> rb_empty s \<and> rb_running_state s = RB_draining \<Longrightarrow>
     rb_free t s RB_drain_yield s"
| rb_free_exit: "rb_ctl s t = Some Drain_loop \<Longrightarrow> rb_empty s \<or> rb_running_state s \<noteq> RB_draining \<Longrightarrow>
     rb_free t s RB_drain_exit (s\<lparr>rb_ctl := (rb_ctl s)(t := None)\<rparr>)"

abbreviation rb_step ::
    "nat \<Rightarrow> ('a ring_buffer, 'a rb_op, 'a rb_out) mon \<Rightarrow> ('a ring_buffer, 'a rb_op, 'a rb_out) mon \<Rightarrow> bool" where
  "rb_step n \<equiv> mon_step rb_mutex (\<lambda>m s. s\<lparr>rb_mutex := m\<rparr>) rb_start rb_can (rb_body n) rb_free"

text \<open>The capacity is a non-zero value of type \<open>size_t\<close>, as the static assertion demands.\<close>

definition rb_init :: "nat \<Rightarrow> 'a ring_buffer \<Rightarrow> bool" where
  "rb_init n s \<longleftrightarrow> 0 < n \<and> n < 2 ^ 64 \<and> s = ring_buffer_new n"

definition producing :: "(handle \<Rightarrow> 'a rb_ctl option) \<Rightarrow> bool" where
  "producing f \<longleftrightarrow> (\<exists>t r. f t = Some (Producing r))"

definition consuming :: "(handle \<Rightarrow> 'a rb_ctl option) \<Rightarrow> bool" where
  "consuming f \<longleftrightarrow> (\<exists>t r. f t = Some (Consuming r))"

definition shutting :: "(handle \<Rightarrow> 'a rb_ctl option) \<Rightarrow> bool" where
  "shutting f \<longleftrightarrow> (\<exists>t. f t = Some Shutting)"

text \<open>A coroutine is in at most one place.\<close>

definition rb_owned :: "(handle \<times> 'a) list \<Rightarrow> handle list \<Rightarrow> (handle \<Rightarrow> 'a rb_ctl option) \<Rightarrow> bool" where
  "rb_owned pw cw f \<longleftrightarrow>
     distinct (map fst pw @ cw) \<and> (\<forall>t \<in> fst ` set pw \<union> set cw. f t = None)"

text \<open>
  Nobody waits for an element that is there unless a producer is about to look for consumers,
  nobody waits for room that is there unless a consumer is about to look for producers, and after a
  shutdown waiters remain only until \<open>shutdown\<close> has reached its second part.
\<close>

definition rb_wakeups ::
    "nat \<Rightarrow> nat \<Rightarrow> (handle \<times> 'a) list \<Rightarrow> handle list \<Rightarrow> rb_state_t \<Rightarrow> (handle \<Rightarrow> 'a rb_ctl option) \<Rightarrow> bool" where
  "rb_wakeups n used pw cw st f \<longleftrightarrow>
     (cw \<noteq> [] \<and> 0 < used \<longrightarrow> producing f) \<and> (pw \<noteq> [] \<and> used < n \<longrightarrow> consuming f) \<and>
     (pw \<noteq> [] \<and> st \<noteq> RB_running \<longrightarrow> shutting f) \<and> (cw \<noteq> [] \<and> st = RB_stopped \<longrightarrow> shutting f)"

definition rb_inv :: "nat \<Rightarrow> 'a ring_buffer \<Rightarrow> bool" where
  "rb_inv n s \<longleftrightarrow>
     0 < n \<and> n < 2 ^ 64 \<and> length (rb_elements s) = n \<and> rb_used s \<le> n \<and>
     rb_owned (rb_produce_waiters s) (rb_consume_waiters s) (rb_ctl s) \<and>
     rb_wakeups n (rb_used s) (rb_produce_waiters s) (rb_consume_waiters s) (rb_running_state s) (rb_ctl s)"

section \<open>The first-in first-out specification\<close>

text \<open>Read off a log, newest entry first: what was put into the slots and what was taken out.\<close>

fun rb_in :: "'a rb_out \<Rightarrow> 'a list" where
  "rb_in (Prod_stored x) = [x]"
| "rb_in (R_producer v x) = [x]"
| "rb_in out = []"

fun rb_out_of :: "'a rb_out \<Rightarrow> 'a option list" where
  "rb_out_of (Cons_took e) = [e]"
| "rb_out_of (R_consumer v e) = [e]"
| "rb_out_of out = []"

definition stored :: "(handle \<times> 'a rb_out) list \<Rightarrow> 'a list" where
  "stored h = concat (map (rb_in \<circ> snd) (rev h))"

definition consumed :: "(handle \<times> 'a rb_out) list \<Rightarrow> 'a option list" where
  "consumed h = concat (map (rb_out_of \<circ> snd) (rev h))"

text \<open>
  For whom: the producer on whose behalf each element was stored and the consumer on whose behalf it was
  taken; the elements that the \<open>consume\<close> calls of \<open>t\<close> have returned; the argument of the \<open>produce\<close> call
  that \<open>t\<close> is in; the arguments of the \<open>produce\<close> calls of \<open>t\<close> that have returned \<open>produced\<close>.
\<close>

fun rb_put :: "handle \<times> 'a rb_out \<Rightarrow> (handle \<times> 'a) list" where
  "rb_put (t, Prod_stored x) = [(t, x)]"
| "rb_put (t, R_producer v x) = [(v, x)]"
| "rb_put (t, out) = []"

fun rb_taken :: "handle \<times> 'a rb_out \<Rightarrow> (handle \<times> 'a) list" where
  "rb_taken (t, Cons_took (Some x)) = [(t, x)]"
| "rb_taken (t, R_consumer v (Some x)) = [(v, x)]"
| "rb_taken (t, out) = []"

definition rb_puts :: "(handle \<times> 'a rb_out) list \<Rightarrow> (handle \<times> 'a) list" where
  "rb_puts h = concat (map rb_put (rev h))"

definition rb_takes :: "(handle \<times> 'a rb_out) list \<Rightarrow> (handle \<times> 'a) list" where
  "rb_takes h = concat (map rb_taken (rev h))"

definition of_handle :: "handle \<Rightarrow> (handle \<times> 'a) list \<Rightarrow> 'a list" where
  "of_handle t ps = map snd (filter (\<lambda>p. fst p = t) ps)"

fun rb_got :: "handle \<Rightarrow> (handle \<times> 'a rb_out) list \<Rightarrow> 'a list" where
  "rb_got t [] = []"
| "rb_got t ((u, Cons_returned (Inr x)) # h) = rb_got t h @ (if u = t then [x] else [])"
| "rb_got t (e # h) = rb_got t h"

fun rb_arg :: "handle \<Rightarrow> (handle \<times> 'a rb_out) list \<Rightarrow> 'a list" where
  "rb_arg t [] = []"
| "rb_arg t ((u, Prod_stored x) # h) = (if u = t then [x] else rb_arg t h)"
| "rb_arg t ((u, Prod_suspended x) # h) = (if u = t then [x] else rb_arg t h)"
| "rb_arg t (e # h) = rb_arg t h"

fun rb_accepted :: "handle \<Rightarrow> (handle \<times> 'a rb_out) list \<Rightarrow> 'a list" where
  "rb_accepted t [] = []"
| "rb_accepted t ((u, Prod_returned RB_produced) # h) = rb_accepted t h @ (if u = t then rb_arg t h else [])"
| "rb_accepted t (e # h) = rb_accepted t h"

text \<open>Whether a \<open>shutdown_drain\<close> has resumed a waiting \<open>produce\<close> call of \<open>t\<close>.\<close>

fun rb_drained :: "handle \<Rightarrow> (handle \<times> 'a rb_out) list \<Rightarrow> bool" where
  "rb_drained t [] = False"
| "rb_drained t ((u, RB_drain_started ws) # h) = (t \<in> set ws \<or> rb_drained t h)"
| "rb_drained t (e # h) = rb_drained t h"

text \<open>The element that a coroutine is about to return from \<open>consume\<close>; whether it is about to return \<open>produced\<close>.\<close>

fun rb_pending :: "'a rb_ctl option \<Rightarrow> 'a list" where
  "rb_pending (Some (Consuming (Inr x))) = [x]"
| "rb_pending c = []"

fun rb_succeeding :: "'a rb_ctl option \<Rightarrow> bool" where
  "rb_succeeding (Some (Producing RB_produced)) = True"
| "rb_succeeding c = False"

definition rb_delivers :: "(handle \<times> 'a rb_out) list \<Rightarrow> (handle \<times> 'a) list \<Rightarrow> (handle \<Rightarrow> 'a rb_ctl option) \<Rightarrow> bool" where
  "rb_delivers h pw f \<longleftrightarrow>
     (\<forall>t. of_handle t (rb_takes h) = rb_got t h @ rb_pending (f t)) \<and>
     (\<forall>t x. (t, x) \<in> set pw \<longrightarrow> rb_arg t h = [x]) \<and>
     (\<forall>t. \<not> rb_drained t h \<longrightarrow> of_handle t (rb_puts h) = rb_accepted t h @ (if rb_succeeding (f t) then rb_arg t h else []))"

text \<open>The coroutines inside \<open>produce\<close> and \<open>consume\<close>, and the outcomes after which those calls go on.\<close>

definition rb_in_produce :: "'a ring_buffer \<Rightarrow> handle \<Rightarrow> bool" where
  "rb_in_produce s t \<longleftrightarrow> t \<in> fst ` set (rb_produce_waiters s) \<or> (\<exists>r. rb_ctl s t = Some (Producing r))"

definition rb_in_consume :: "'a ring_buffer \<Rightarrow> handle \<Rightarrow> bool" where
  "rb_in_consume s t \<longleftrightarrow> t \<in> set (rb_consume_waiters s) \<or> (\<exists>r. rb_ctl s t = Some (Consuming r))"

fun produce_opens :: "'a rb_out \<Rightarrow> bool" where
  "produce_opens Prod_stopped = True"
| "produce_opens (Prod_stored x) = True"
| "produce_opens (Prod_suspended x) = True"
| "produce_opens (R_consumer v e) = True"
| "produce_opens out = False"

fun consume_opens :: "'a rb_out \<Rightarrow> bool" where
  "consume_opens Cons_stopped = True"
| "consume_opens (Cons_took e) = True"
| "consume_opens Cons_suspended = True"
| "consume_opens (R_producer v x) = True"
| "consume_opens out = False"

text \<open>The \<open>k\<close> elements from position \<open>b\<close> on lie in consecutive slots, the other slots are empty.\<close>

definition rb_slots :: "nat \<Rightarrow> 'a option list \<Rightarrow> nat \<Rightarrow> 'a list \<Rightarrow> bool" where
  "rb_slots n es b xs \<longleftrightarrow>
     length es = n \<and> length xs \<le> n \<and> (\<forall>i<length xs. es ! ((b + i) mod n) = Some (xs ! i))"

text \<open>As long as fewer than \<open>2^64\<close> elements have been stored the counters have not wrapped.\<close>

definition rb_hist :: "nat \<Rightarrow> (handle \<times> 'a rb_out) list \<Rightarrow> 'a ring_buffer \<Rightarrow> bool" where
  "rb_hist n h s \<longleftrightarrow>
     length (stored h) = length (consumed h) + rb_used s \<and>
     rb_front s = of_nat (length (stored h)) \<and> rb_back s = of_nat (length (consumed h)) \<and>
     (length (stored h) < 2 ^ 64 \<longrightarrow>
       (\<exists>xs. map Some (stored h) = consumed h @ map Some xs \<and> rb_slots n (rb_elements s) (length (consumed h)) xs))"

section \<open>Lemmas\<close>

lemma rb_unlock_locked:
  "rb_mutex s = CLocked ws \<Longrightarrow> unlock (CLocked ws) = Inr (w, c) \<Longrightarrow> rb_unlock s = Inr (w, s\<lparr>rb_mutex := c\<rparr>)"
  by (simp add: rb_unlock_def)

lemma rb_store_simps [simp]:
  "rb_mutex (rb_store n x s) = rb_mutex s" "rb_produce_waiters (rb_store n x s) = rb_produce_waiters s"
  "rb_consume_waiters (rb_store n x s) = rb_consume_waiters s" "rb_running_state (rb_store n x s) = rb_running_state s"
  "rb_ctl (rb_store n x s) = rb_ctl s" "rb_used (rb_store n x s) = rb_used s + 1"
  "length (rb_elements (rb_store n x s)) = length (rb_elements s)"
  by (simp_all add: rb_store_def)

lemma rb_take_simps [simp]:
  "rb_mutex (snd (rb_take n s)) = rb_mutex s" "rb_produce_waiters (snd (rb_take n s)) = rb_produce_waiters s"
  "rb_consume_waiters (snd (rb_take n s)) = rb_consume_waiters s" "rb_running_state (snd (rb_take n s)) = rb_running_state s"
  "rb_ctl (snd (rb_take n s)) = rb_ctl s" "rb_used (snd (rb_take n s)) = rb_used s - 1"
  "length (rb_elements (snd (rb_take n s))) = length (rb_elements s)"
  by (simp_all add: rb_take_def)

lemmas rb_defs = produce_locked_def consume_locked_def try_resume_producers_locked_def try_resume_consumers_locked_def
  notify_producers_locked_def notify_consumers_locked_def shutdown_flag_locked_def shutdown_wake_locked_def
  shutdown_drain_locked_def compare_exchange_def

text \<open>The locked parts in full, once the mutex is known to be held.\<close>

lemma produce_locked_cases:
  assumes "rb_mutex s = CLocked ws" and "unlock (CLocked ws) = Inr (w, c)"
  shows "produce_locked n x t s = Inr
    (if rb_running_state s \<noteq> RB_running
     then (Prod_stopped, w, s\<lparr>rb_mutex := c, rb_ctl := (rb_ctl s)(t := Some (Producing RB_produce_stopped))\<rparr>)
     else if rb_used s < n
     then (Prod_stored x, w, (rb_store n x s)\<lparr>rb_mutex := c, rb_ctl := (rb_ctl s)(t := Some (Producing RB_produced))\<rparr>)
     else (Prod_suspended x, w, s\<lparr>rb_produce_waiters := (t, x) # rb_produce_waiters s, rb_mutex := c\<rparr>))"
  using assms by (simp add: rb_defs rb_unlock_locked [OF _ assms(2)])

lemma consume_locked_cases:
  assumes "rb_mutex s = CLocked ws" and "unlock (CLocked ws) = Inr (w, c)"
  shows "consume_locked n t s = Inr
    (if rb_running_state s = RB_stopped
     then (Cons_stopped, w, s\<lparr>rb_mutex := c, rb_ctl := (rb_ctl s)(t := Some (Consuming (Inl RB_consume_stopped)))\<rparr>)
     else if 0 < rb_used s
     then (Cons_took (fst (rb_take n s)), w, (snd (rb_take n s))\<lparr>rb_mutex := c,
       rb_ctl := (rb_ctl s)(t := Some (Consuming (consume_await_resume RB_consume_stopped (fst (rb_take n s)))))\<rparr>)
     else (Cons_suspended, w, s\<lparr>rb_consume_waiters := t # rb_consume_waiters s, rb_mutex := c\<rparr>))"
  using assms by (simp add: rb_defs rb_unlock_locked [OF _ assms(2)] case_prod_unfold)

lemma try_resume_producers_locked_cases:
  assumes "rb_mutex s = CLocked ws" and "unlock (CLocked ws) = Inr (w, c)"
  shows "try_resume_producers_locked n r t s = Inr
    (case (if rb_used s < n then rb_produce_waiters s else []) of
       [] \<Rightarrow> (Cons_returned r, w, s\<lparr>rb_mutex := c, rb_ctl := (rb_ctl s)(t := None)\<rparr>)
     | (v, x) # vs \<Rightarrow> (R_producer v x, w, (rb_store n x (s\<lparr>rb_produce_waiters := vs\<rparr>))\<lparr>rb_mutex := c,
         rb_ctl := (rb_ctl s)(v := Some (Producing RB_produced))\<rparr>))"
  using assms by (simp add: rb_defs rb_unlock_locked [OF _ assms(2)] split: list.splits prod.splits)

lemma try_resume_consumers_locked_cases:
  assumes "rb_mutex s = CLocked ws" and "unlock (CLocked ws) = Inr (w, c)"
  shows "try_resume_consumers_locked n r t s = Inr
    (case (if 0 < rb_used s then rb_consume_waiters s else []) of
       [] \<Rightarrow> (Prod_returned r, w, s\<lparr>rb_mutex := c, rb_ctl := (rb_ctl s)(t := None)\<rparr>)
     | v # vs \<Rightarrow> (let s1 = rb_take n (s\<lparr>rb_consume_waiters := vs\<rparr>) in
         (R_consumer v (fst s1), w, (snd s1)\<lparr>rb_mutex := c,
           rb_ctl := (rb_ctl s)(v := Some (Consuming (consume_await_resume RB_consume_stopped (fst s1))))\<rparr>)))"
  using assms by (simp add: rb_defs rb_unlock_locked [OF _ assms(2)] Let_def case_prod_unfold split: list.splits)

lemma rb_other_cases:
  assumes "rb_mutex s = CLocked ws" and "unlock (CLocked ws) = Inr (w, c)"
  shows "notify_producers_locked s = Inr (Notified_producers (map fst (rb_produce_waiters s)), w,
      s\<lparr>rb_produce_waiters := [], rb_mutex := c,
        rb_ctl := wake_all (map fst (rb_produce_waiters s)) (Producing RB_produce_notified) (rb_ctl s)\<rparr>)"
    and "notify_consumers_locked s = Inr (Notified_consumers (rb_consume_waiters s), w,
      s\<lparr>rb_consume_waiters := [], rb_mutex := c,
        rb_ctl := wake_all (rb_consume_waiters s) (Consuming (Inl RB_consume_notified)) (rb_ctl s)\<rparr>)"
    and "shutdown_flag_locked expected t s = Inr
      (if rb_running_state s = expected
       then (Stop_flagged, w, s\<lparr>rb_running_state := RB_stopped, rb_mutex := c, rb_ctl := (rb_ctl s)(t := Some Shutting)\<rparr>)
       else (Stop_lost, w, s\<lparr>rb_mutex := c\<rparr>))"
    and "shutdown_wake_locked t s = Inr (Stop_woken (map fst (rb_produce_waiters s)) (rb_consume_waiters s), w,
      s\<lparr>rb_produce_waiters := [], rb_consume_waiters := [], rb_mutex := c,
        rb_ctl := wake_all (rb_consume_waiters s) (Consuming (Inl RB_consume_stopped))
          (wake_all (map fst (rb_produce_waiters s)) (Producing RB_produce_stopped) ((rb_ctl s)(t := None)))\<rparr>)"
    and "shutdown_drain_locked t s = Inr
      (if rb_running_state s = RB_running
       then (RB_drain_started (map fst (rb_produce_waiters s)), w,
         s\<lparr>rb_running_state := RB_draining, rb_produce_waiters := [], rb_mutex := c,
           rb_ctl := wake_all (map fst (rb_produce_waiters s)) (Producing RB_produced) ((rb_ctl s)(t := Some Drain_loop))\<rparr>)
       else (RB_drain_lost, w, s\<lparr>rb_mutex := c\<rparr>))"
  using assms by (simp_all add: rb_defs rb_unlock_locked [OF _ assms(2)])

lemmas rb_cases = produce_locked_cases consume_locked_cases try_resume_producers_locked_cases
  try_resume_consumers_locked_cases rb_other_cases

lemma ctl_upd [simp]:
  "producing (f(t := Some (Producing r)))" "consuming (f(t := Some (Consuming q)))" "shutting (f(t := Some Shutting))"
  by (auto simp: producing_def consuming_def shutting_def)

lemma ctl_keep:
  "producing f \<Longrightarrow> \<forall>r. f t \<noteq> Some (Producing r) \<Longrightarrow> producing (f(t := x))"
  "consuming f \<Longrightarrow> \<forall>r. f t \<noteq> Some (Consuming r) \<Longrightarrow> consuming (f(t := x))"
  "shutting f \<Longrightarrow> f t \<noteq> Some Shutting \<Longrightarrow> shutting (f(t := x))"
  unfolding producing_def consuming_def shutting_def by (metis fun_upd_apply)+

lemma ctl_wake:
  "producing f \<Longrightarrow> \<forall>t\<in>set ws. f t = None \<Longrightarrow> producing (wake_all ws x f)"
  "consuming f \<Longrightarrow> \<forall>t\<in>set ws. f t = None \<Longrightarrow> consuming (wake_all ws x f)"
  "shutting f \<Longrightarrow> \<forall>t\<in>set ws. f t = None \<Longrightarrow> shutting (wake_all ws x f)"
  unfolding producing_def consuming_def shutting_def by (metis wake_all_apply option.distinct(1))+

lemma ctl_wake_producers:
  "ws \<noteq> [] \<Longrightarrow> producing (wake_all ws (Producing r) f)" "ws \<noteq> [] \<Longrightarrow> consuming (wake_all ws (Consuming q) f)"
  unfolding producing_def consuming_def by (metis wake_all_apply last_in_set)+

lemma rb_owned_rules:
  "rb_owned pw cw f \<Longrightarrow> f t = None \<Longrightarrow> t \<notin> fst ` set pw \<Longrightarrow> t \<notin> set cw \<Longrightarrow> rb_owned ((t, x) # pw) cw f"
  "rb_owned pw cw f \<Longrightarrow> f t = None \<Longrightarrow> t \<notin> fst ` set pw \<Longrightarrow> t \<notin> set cw \<Longrightarrow> rb_owned pw (t # cw) f"
  "rb_owned pw cw f \<Longrightarrow> t \<notin> fst ` set pw \<Longrightarrow> t \<notin> set cw \<Longrightarrow> rb_owned pw cw (f(t := y))"
  "rb_owned ((v, x) # pw) cw f \<Longrightarrow> rb_owned pw cw (f(v := y))"
  "rb_owned pw (v # cw) f \<Longrightarrow> rb_owned pw cw (f(v := y))"
  "rb_owned pw cw f \<Longrightarrow> rb_owned [] cw (wake_all (map fst pw) z f)"
  "rb_owned pw cw f \<Longrightarrow> rb_owned pw [] (wake_all cw z f)"
  by (auto simp: rb_owned_def)

lemma rb_ownedD:
  "rb_owned pw cw f \<Longrightarrow> t \<in> fst ` set pw \<Longrightarrow> f t = None" "rb_owned pw cw f \<Longrightarrow> t \<in> set cw \<Longrightarrow> f t = None"
  by (auto simp: rb_owned_def)

lemma rb_owned_idle: "rb_owned pw cw f \<Longrightarrow> f t \<noteq> None \<Longrightarrow> t \<notin> fst ` set pw \<and> t \<notin> set cw"
  using rb_ownedD by metis

lemma rb_wakeups_rules:
  "rb_wakeups n u pw cw st f \<Longrightarrow> f t = None \<Longrightarrow> rb_wakeups n u pw cw st (f(t := y))"
  "rb_wakeups n u pw cw st f \<Longrightarrow> f t = None \<Longrightarrow> rb_wakeups n (Suc u) pw cw st (f(t := Some (Producing r)))"
  "rb_wakeups n u pw cw st f \<Longrightarrow> f t = None \<Longrightarrow> rb_wakeups n (u - Suc 0) pw cw st (f(t := Some (Consuming q)))"
  "rb_wakeups n u pw cw RB_running f \<Longrightarrow> \<not> u < n \<Longrightarrow> rb_wakeups n u ((t, x) # pw) cw RB_running f"
  "rb_wakeups n u pw cw st f \<Longrightarrow> st \<noteq> RB_stopped \<Longrightarrow> u = 0 \<Longrightarrow> rb_wakeups n u pw (t # cw) st f"
  "rb_wakeups n u ((v, x) # pw) cw st f \<Longrightarrow> u < n \<Longrightarrow> f v = None \<Longrightarrow>
     rb_wakeups n (Suc u) pw cw st (f(v := Some (Producing r)))"
  "rb_wakeups n u pw (v # cw) st f \<Longrightarrow> 0 < u \<Longrightarrow> f v = None \<Longrightarrow>
     rb_wakeups n (u - Suc 0) pw cw st (f(v := Some (Consuming q)))"
  "rb_wakeups n u pw cw st f \<Longrightarrow> f t = Some (Consuming q) \<Longrightarrow> u < n \<longrightarrow> pw = [] \<Longrightarrow>
     rb_wakeups n u pw cw st (f(t := None))"
  "rb_wakeups n u pw cw st f \<Longrightarrow> f t = Some (Producing r) \<Longrightarrow> 0 < u \<longrightarrow> cw = [] \<Longrightarrow>
     rb_wakeups n u pw cw st (f(t := None))"
  "rb_wakeups n u pw cw st f \<Longrightarrow> f t = None \<Longrightarrow> rb_wakeups n u pw cw RB_stopped (f(t := Some Shutting))"
  "rb_wakeups n u [] [] st f"
  by (auto simp: rb_wakeups_def intro: ctl_keep)

lemma rb_wakeups_wake:
  "rb_wakeups n u pw cw st f \<Longrightarrow> rb_owned pw cw f \<Longrightarrow> rb_wakeups n u [] cw st (wake_all (map fst pw) (Producing r) f)"
  "rb_wakeups n u pw cw st f \<Longrightarrow> rb_owned pw cw f \<Longrightarrow> rb_wakeups n u pw [] st (wake_all cw (Consuming q) f)"
  "rb_wakeups n u pw cw RB_running f \<Longrightarrow> rb_wakeups n u [] cw RB_draining f"
  unfolding rb_wakeups_def rb_owned_def by (intro conjI impI ctl_wake; force)+

text \<open>The invariant, one operation at a time.\<close>

lemma rb_inv_produce:
  assumes s: "rb_mutex s = CLocked ws" and b: "produce_locked n x t s = Inr (out, w, s')"
    and i: "rb_inv n s" and c: "rb_ctl s t = None" "t \<notin> rb_waiting s"
  shows "rb_inv n s'"
proof -
  obtain w0 c0 where u0: "unlock (CLocked ws) = Inr (w0, c0)" using unlock_locked by blast
  show ?thesis
    using b i c
    by (auto simp: produce_locked_cases [OF s u0] rb_inv_def rb_waiting_def
        intro: rb_wakeups_rules rb_owned_rules split: if_splits)
qed

lemma rb_inv_consume:
  assumes s: "rb_mutex s = CLocked ws" and b: "consume_locked n t s = Inr (out, w, s')"
    and i: "rb_inv n s" and c: "rb_ctl s t = None" "t \<notin> rb_waiting s"
  shows "rb_inv n s'"
proof -
  obtain w0 c0 where u0: "unlock (CLocked ws) = Inr (w0, c0)" using unlock_locked by blast
  show ?thesis
    using b i c
    by (auto simp: consume_locked_cases [OF s u0] rb_inv_def rb_waiting_def
        intro: rb_wakeups_rules rb_owned_rules split: if_splits)
qed

lemma rb_inv_resume_producers:
  assumes s: "rb_mutex s = CLocked ws" and b: "try_resume_producers_locked n r t s = Inr (out, w, s')"
    and i: "rb_inv n s" and c: "rb_ctl s t = Some (Consuming r)"
  shows "rb_inv n s'"
proof -
  obtain w0 c0 where u0: "unlock (CLocked ws) = Inr (w0, c0)" using unlock_locked by blast
  note cs = try_resume_producers_locked_cases [OF s u0]
  have own: "rb_owned (rb_produce_waiters s) (rb_consume_waiters s) (rb_ctl s)" using i by (simp add: rb_inv_def)
  show ?thesis
  proof (cases "if rb_used s < n then rb_produce_waiters s else []")
    case Nil
    then have "s' = s\<lparr>rb_mutex := c0, rb_ctl := (rb_ctl s)(t := None)\<rparr>" using b cs by simp
    moreover have "rb_used s < n \<longrightarrow> rb_produce_waiters s = []" using Nil by (simp split: if_splits)
    ultimately show ?thesis using i c rb_owned_idle [OF own, of t]
      by (auto simp: rb_inv_def intro: rb_wakeups_rules rb_owned_rules)
  next
    case (Cons vx vs)
    obtain v x where vx: "vx = (v, x)" by fastforce
    have p: "rb_used s < n" "rb_produce_waiters s = (v, x) # vs" using Cons vx by (auto split: if_splits)
    then have "s' = (rb_store n x (s\<lparr>rb_produce_waiters := vs\<rparr>))\<lparr>rb_mutex := c0, rb_ctl := (rb_ctl s)(v := Some (Producing RB_produced))\<rparr>"
      using b cs by simp
    moreover have "rb_ctl s v = None" using own p by (auto simp: rb_owned_def)
    ultimately show ?thesis using i p by (auto simp: rb_inv_def intro: rb_wakeups_rules rb_owned_rules)
  qed
qed

lemma rb_inv_resume_consumers:
  assumes s: "rb_mutex s = CLocked ws" and b: "try_resume_consumers_locked n r t s = Inr (out, w, s')"
    and i: "rb_inv n s" and c: "rb_ctl s t = Some (Producing r)"
  shows "rb_inv n s'"
proof -
  obtain w0 c0 where u0: "unlock (CLocked ws) = Inr (w0, c0)" using unlock_locked by blast
  note cs = try_resume_consumers_locked_cases [OF s u0]
  have own: "rb_owned (rb_produce_waiters s) (rb_consume_waiters s) (rb_ctl s)" using i by (simp add: rb_inv_def)
  show ?thesis
  proof (cases "if 0 < rb_used s then rb_consume_waiters s else []")
    case Nil
    then have "s' = s\<lparr>rb_mutex := c0, rb_ctl := (rb_ctl s)(t := None)\<rparr>" using b cs by simp
    moreover have "0 < rb_used s \<longrightarrow> rb_consume_waiters s = []" using Nil by (simp split: if_splits)
    ultimately show ?thesis using i c rb_owned_idle [OF own, of t]
      by (auto simp: rb_inv_def intro: rb_wakeups_rules rb_owned_rules)
  next
    case (Cons v vs)
    have p: "0 < rb_used s" "rb_consume_waiters s = v # vs" using Cons by (auto split: if_splits)
    then have "\<exists>q. s' = (snd (rb_take n (s\<lparr>rb_consume_waiters := vs\<rparr>)))\<lparr>rb_mutex := c0, rb_ctl := (rb_ctl s)(v := Some (Consuming q))\<rparr>"
      using b cs by (auto simp: Let_def)
    moreover have "rb_ctl s v = None" using own p by (auto simp: rb_owned_def)
    ultimately show ?thesis using i p by (auto simp: rb_inv_def intro: rb_wakeups_rules rb_owned_rules)
  qed
qed

lemma rb_inv_other:
  assumes s: "rb_mutex s = CLocked ws" and i: "rb_inv n s"
  shows "notify_producers_locked s = Inr (out, w, s') \<Longrightarrow> rb_inv n s'"
    and "notify_consumers_locked s = Inr (out, w, s') \<Longrightarrow> rb_inv n s'"
    and "shutdown_flag_locked expected t s = Inr (out, w, s') \<Longrightarrow> rb_ctl s t = None \<Longrightarrow> t \<notin> rb_waiting s \<Longrightarrow> rb_inv n s'"
    and "shutdown_wake_locked t s = Inr (out, w, s') \<Longrightarrow> rb_ctl s t = Some Shutting \<Longrightarrow> rb_inv n s'"
    and "shutdown_drain_locked t s = Inr (out, w, s') \<Longrightarrow> rb_ctl s t = None \<Longrightarrow> t \<notin> rb_waiting s \<Longrightarrow> rb_inv n s'"
proof -
  obtain w0 c0 where u0: "unlock (CLocked ws) = Inr (w0, c0)" using unlock_locked by blast
  note cs = rb_other_cases [OF s u0]
  have own: "rb_owned (rb_produce_waiters s) (rb_consume_waiters s) (rb_ctl s)" using i by (simp add: rb_inv_def)
  show "rb_inv n s'" if "notify_producers_locked s = Inr (out, w, s')"
    using that i by (auto simp: cs(1) rb_inv_def intro: rb_owned_rules rb_wakeups_wake)
  show "rb_inv n s'" if "notify_consumers_locked s = Inr (out, w, s')"
    using that i by (auto simp: cs(2) rb_inv_def intro: rb_owned_rules rb_wakeups_wake)
  show "rb_inv n s'" if "shutdown_flag_locked expected t s = Inr (out, w, s')" "rb_ctl s t = None" "t \<notin> rb_waiting s"
    using that i by (auto simp: cs(3) rb_inv_def rb_waiting_def intro: rb_owned_rules rb_wakeups_rules split: if_splits)
  show "rb_inv n s'" if "shutdown_wake_locked t s = Inr (out, w, s')" "rb_ctl s t = Some Shutting"
    using that i by (auto simp: cs(4) rb_inv_def rb_owned_def intro: rb_wakeups_rules)
  show "rb_inv n s'" if "shutdown_drain_locked t s = Inr (out, w, s')" and c: "rb_ctl s t = None" "t \<notin> rb_waiting s"
  proof (cases "rb_running_state s = RB_running")
    case True
    let ?f = "(rb_ctl s)(t := Some Drain_loop)"
    have s': "s' = s\<lparr>rb_running_state := RB_draining, rb_produce_waiters := [], rb_mutex := c0,
           rb_ctl := wake_all (map fst (rb_produce_waiters s)) (Producing RB_produced) ?f\<rparr>"
      using that True by (simp add: cs(5))
    have o2: "rb_owned (rb_produce_waiters s) (rb_consume_waiters s) ?f" using own c by (auto simp: rb_waiting_def intro: rb_owned_rules)
    have "rb_wakeups n (rb_used s) (rb_produce_waiters s) (rb_consume_waiters s) RB_running ?f"
      using i True c by (auto simp: rb_inv_def intro: rb_wakeups_rules)
    then have "rb_wakeups n (rb_used s) [] (rb_consume_waiters s) RB_running
        (wake_all (map fst (rb_produce_waiters s)) (Producing RB_produced) ?f)"
      using o2 by (intro rb_wakeups_wake)
    then have "rb_wakeups n (rb_used s) [] (rb_consume_waiters s) RB_draining
        (wake_all (map fst (rb_produce_waiters s)) (Producing RB_produced) ?f)"
      by (rule rb_wakeups_wake)
    then show ?thesis using i s' rb_owned_rules(6) [OF o2] by (auto simp: rb_inv_def)
  next
    case False
    then show ?thesis using that i by (auto simp: cs(5) rb_inv_def)
  qed
qed

text \<open>The slots.\<close>

lemma mod_add_inj: "i < n \<Longrightarrow> j < n \<Longrightarrow> (b + i) mod n = (b + j) mod n \<Longrightarrow> i = (j :: nat)"
proof -
  assume i: "i < n" and j: "j < n" and e: "(b + i) mod n = (b + j) mod n"
  show "i = j"
  proof (cases "i \<le> j")
    case True
    then have "n dvd (b + j) - (b + i)" using e by (metis mod_eq_dvd_iff_nat add_le_cancel_left)
    then show ?thesis using True i j by (metis add_diff_cancel_left dvd_imp_le le_antisym less_imp_diff_less linorder_not_le zero_less_diff)
  next
    case False
    then have "n dvd (b + i) - (b + j)" using e by (metis mod_eq_dvd_iff_nat add_le_cancel_left nat_le_linear)
    then show ?thesis using False i j by (metis add_diff_cancel_left dvd_imp_le less_imp_diff_less linorder_not_le nat_le_linear zero_less_diff)
  qed
qed

lemma rb_slots_store:
  assumes "rb_slots n es b xs" and "length xs < n"
  shows "rb_slots n (es[(b + length xs) mod n := Some x]) b (xs @ [x])"
proof -
  have es: "length es = n" "\<And>i. i < length xs \<Longrightarrow> es ! ((b + i) mod n) = Some (xs ! i)"
    using assms(1) by (auto simp: rb_slots_def)
  have "es[(b + length xs) mod n := Some x] ! ((b + i) mod n) = Some ((xs @ [x]) ! i)" if "i \<le> length xs" for i
  proof (cases "i = length xs")
    case True
    then show ?thesis using es(1) assms(2) by simp
  next
    case False
    then have "(b + length xs) mod n \<noteq> (b + i) mod n" using mod_add_inj [of "length xs" n i b] assms(2) that by auto
    then show ?thesis using es(2) [of i] False that by (simp add: nth_append)
  qed
  then show ?thesis using es assms(2) by (simp add: rb_slots_def less_Suc_eq_le)
qed

lemma rb_slots_take:
  assumes "rb_slots n es b (x # xs)"
  shows "es ! (b mod n) = Some x" and "rb_slots n (es[b mod n := None]) (Suc b) xs"
proof -
  have es: "length es = n" "length xs < n" "\<And>i. i < Suc (length xs) \<Longrightarrow> es ! ((b + i) mod n) = Some ((x # xs) ! i)"
    using assms by (auto simp: rb_slots_def)
  show "es ! (b mod n) = Some x" using es(3) [of 0] by simp
  have "es[b mod n := None] ! ((Suc b + i) mod n) = Some (xs ! i)" if "i < length xs" for i
  proof -
    have "b mod n \<noteq> (Suc b + i) mod n" using mod_add_inj [of 0 n "Suc i" b] es(2) that by auto
    then show ?thesis using es(3) [of "Suc i"] that by simp
  qed
  then show "rb_slots n (es[b mod n := None]) (Suc b) xs" using es by (simp add: rb_slots_def)
qed

lemma rb_log_simps [simp]:
  "stored [] = []" "consumed [] = []"
  "stored (e # h) = stored h @ rb_in (snd e)" "consumed (e # h) = consumed h @ rb_out_of (snd e)"
  by (simp_all add: stored_def consumed_def)

lemma rb_hist_store:
  assumes h: "rb_hist n h s" and u: "rb_used s < n" and out: "rb_in out = [x]" "rb_out_of out = []"
    and s': "rb_elements s' = rb_elements (rb_store n x s)" "rb_front s' = rb_front s + 1" "rb_back s' = rb_back s"
      "rb_used s' = rb_used s + 1"
  shows "rb_hist n ((t, out) # h) s'"
proof -
  have cnt: "length (stored h) = length (consumed h) + rb_used s" "rb_front s = of_nat (length (stored h))"
      "rb_back s = of_nat (length (consumed h))" using h by (auto simp: rb_hist_def)
  have "\<exists>ys. map Some (stored ((t, out) # h)) = consumed ((t, out) # h) @ map Some ys \<and>
      rb_slots n (rb_elements s') (length (consumed ((t, out) # h))) ys"
    if b: "length (stored ((t, out) # h)) < 2 ^ 64"
  proof -
    have lt: "length (stored h) < 2 ^ 64" using b out by simp
    then obtain xs where xs: "map Some (stored h) = consumed h @ map Some xs" "rb_slots n (rb_elements s) (length (consumed h)) xs"
      using h by (auto simp: rb_hist_def)
    have len: "length xs = rb_used s" using arg_cong [OF xs(1), of length] cnt(1) by simp
    have "unat (rb_front s) = length (stored h)" using lt unfolding cnt(2) by (simp add: unat_of_nat)
    then have "unat (rb_front s) = length (consumed h) + length xs" using cnt(1) len by simp
    then have "rb_slots n (rb_elements s') (length (consumed h)) (xs @ [x])"
      using rb_slots_store [OF xs(2), of x] u len s'(1) by (simp add: rb_store_def)
    then show ?thesis using xs(1) out by (intro exI [of _ "xs @ [x]"]) simp
  qed
  then show ?thesis using cnt s' out by (auto simp: rb_hist_def)
qed

lemma rb_hist_take:
  assumes h: "rb_hist n h s" and u: "0 < rb_used s" and out: "rb_in out = []" "rb_out_of out = [fst (rb_take n s)]"
    and s': "rb_elements s' = rb_elements (snd (rb_take n s))" "rb_front s' = rb_front s" "rb_back s' = rb_back s + 1"
      "rb_used s' = rb_used s - 1"
  shows "rb_hist n ((t, out) # h) s'"
proof -
  have cnt: "length (stored h) = length (consumed h) + rb_used s" "rb_front s = of_nat (length (stored h))"
      "rb_back s = of_nat (length (consumed h))" using h by (auto simp: rb_hist_def)
  have "\<exists>ys. map Some (stored ((t, out) # h)) = consumed ((t, out) # h) @ map Some ys \<and>
      rb_slots n (rb_elements s') (length (consumed ((t, out) # h))) ys"
    if b: "length (stored ((t, out) # h)) < 2 ^ 64"
  proof -
    have lt: "length (stored h) < 2 ^ 64" using b out by simp
    then obtain xs where xs: "map Some (stored h) = consumed h @ map Some xs" "rb_slots n (rb_elements s) (length (consumed h)) xs"
      using h by (auto simp: rb_hist_def)
    have len: "length xs = rb_used s" using arg_cong [OF xs(1), of length] cnt(1) by simp
    then obtain y ys where y: "xs = y # ys" using u by (cases xs) auto
    have "unat (rb_back s) = length (consumed h)" using lt cnt(1) unfolding cnt(3) by (simp add: unat_of_nat)
    then have "fst (rb_take n s) = Some y" "rb_slots n (rb_elements s') (Suc (length (consumed h))) ys"
      using rb_slots_take [OF xs(2) [unfolded y]] s'(1) by (auto simp: rb_take_def)
    then show ?thesis using xs(1) out y by (intro exI [of _ ys]) simp
  qed
  then show ?thesis using cnt s' out u by (auto simp: rb_hist_def)
qed

lemma rb_hist_same:
  assumes "rb_hist n h s" and "rb_in out = []" "rb_out_of out = []"
    and "rb_elements s' = rb_elements s" "rb_front s' = rb_front s" "rb_back s' = rb_back s" "rb_used s' = rb_used s"
  shows "rb_hist n ((t, out) # h) s'"
  using assms by (simp add: rb_hist_def)

text \<open>The part of the state that holds the elements.\<close>

definition rb_data :: "'a ring_buffer \<Rightarrow> 'a option list \<times> size_t \<times> size_t \<times> nat" where
  "rb_data s = (rb_elements s, rb_front s, rb_back s, rb_used s)"

lemma rb_data_simps [simp]:
  "rb_data (s\<lparr>rb_mutex := m\<rparr>) = rb_data s" "rb_data (s\<lparr>rb_ctl := f\<rparr>) = rb_data s"
  "rb_data (s\<lparr>rb_produce_waiters := pw\<rparr>) = rb_data s" "rb_data (s\<lparr>rb_consume_waiters := cw\<rparr>) = rb_data s"
  "rb_data (s\<lparr>rb_running_state := st\<rparr>) = rb_data s"
  "rb_data (rb_store n x (s\<lparr>rb_produce_waiters := pw\<rparr>)) = rb_data (rb_store n x s)"
  "rb_data (snd (rb_take n (s\<lparr>rb_consume_waiters := cw\<rparr>))) = rb_data (snd (rb_take n s))"
  "fst (rb_take n (s\<lparr>rb_consume_waiters := cw\<rparr>)) = fst (rb_take n s)"
  by (simp_all add: rb_data_def rb_store_def rb_take_def)

definition rb_moves :: "nat \<Rightarrow> 'a ring_buffer \<Rightarrow> 'a rb_out \<Rightarrow> 'a ring_buffer \<Rightarrow> bool" where
  "rb_moves n s out s' \<longleftrightarrow>
     (\<exists>x. rb_used s < n \<and> rb_in out = [x] \<and> rb_out_of out = [] \<and> rb_data s' = rb_data (rb_store n x s)) \<or>
     (0 < rb_used s \<and> rb_in out = [] \<and> rb_out_of out = [fst (rb_take n s)] \<and> rb_data s' = rb_data (snd (rb_take n s))) \<or>
     (rb_in out = [] \<and> rb_out_of out = [] \<and> rb_data s' = rb_data s)"

lemma rb_hist_moves:
  assumes h: "rb_hist n h s" and m: "rb_moves n s out s'"
  shows "rb_hist n ((t, out) # h) s'"
  using m unfolding rb_moves_def
proof (elim disjE exE conjE)
  fix x assume "rb_used s < n" "rb_in out = [x]" "rb_out_of out = []" "rb_data s' = rb_data (rb_store n x s)"
  then show ?thesis by (intro rb_hist_store [OF h]) (auto simp: rb_data_def rb_store_def)
next
  assume "0 < rb_used s" "rb_in out = []" "rb_out_of out = [fst (rb_take n s)]" "rb_data s' = rb_data (snd (rb_take n s))"
  then show ?thesis by (intro rb_hist_take [OF h]) (auto simp: rb_data_def rb_take_def)
next
  assume "rb_in out = []" "rb_out_of out = []" "rb_data s' = rb_data s"
  then show ?thesis by (intro rb_hist_same [OF h]) (auto simp: rb_data_def)
qed

text \<open>What the operations leave alone.\<close>

lemma rb_can_waiting: "rb_inv n s \<Longrightarrow> u \<in> rb_waiting s \<Longrightarrow> \<not> rb_can s u op"
proof -
  assume "rb_inv n s" and u: "u \<in> rb_waiting s"
  then have "rb_owned (rb_produce_waiters s) (rb_consume_waiters s) (rb_ctl s)" by (simp add: rb_inv_def)
  then have "rb_ctl s u = None" using u unfolding rb_waiting_def by (metis Un_iff rb_ownedD)
  then show ?thesis using u by (cases op) auto
qed

lemma rb_can_keep:
  assumes "rb_can s u op" and "rb_ctl s' u = rb_ctl s u" and "u \<notin> rb_waiting s'"
  shows "rb_can s' u op"
  using assms by (cases op) auto

lemma rb_body_frame:
  assumes s: "rb_mutex s = CLocked ws" and b: "rb_body n op t s = Inr (out, w, s')" and u: "u \<noteq> t" "u \<notin> rb_waiting s"
  shows "rb_ctl s' u = rb_ctl s u \<and> u \<notin> rb_waiting s'"
proof -
  obtain w0 c0 where u0: "unlock (CLocked ws) = Inr (w0, c0)" using unlock_locked by blast
  note cs = rb_cases [OF s u0]
  show ?thesis
    using b u by (cases op) (auto simp: cs rb_waiting_def Let_def split: if_splits list.splits option.splits rb_ctl.splits)
qed

lemma rb_body_unlock:
  assumes s: "rb_mutex s = CLocked ws" and b: "rb_body n op t s = Inr (out, w, s')"
  shows "unlock (CLocked ws) = Inr (w, rb_mutex s')"
proof -
  obtain w0 c0 where u0: "unlock (CLocked ws) = Inr (w0, c0)" using unlock_locked by blast
  note cs = rb_cases [OF s u0]
  show ?thesis
    using b u0 by (cases op) (auto simp: cs Let_def split: if_splits list.splits option.splits rb_ctl.splits)
qed

lemma rb_body_total:
  assumes "rb_mutex s = CLocked ws" and "rb_can s t op"
  shows "\<exists>out w s'. rb_body n op t s = Inr (out, w, s')"
proof -
  obtain w0 c0 where "unlock (CLocked ws) = Inr (w0, c0)" using unlock_locked by blast
  note cs = rb_cases [OF assms(1) this]
  show ?thesis using assms(2) by (cases op) (auto simp: cs Let_def split: if_splits list.splits)
qed

lemma rb_body_inv:
  assumes s: "rb_mutex s = CLocked ws" and b: "rb_body n op t s = Inr (out, w, s')" and i: "rb_inv n s" and c: "rb_can s t op"
  shows "rb_inv n s'"
proof (cases op)
  case (Produce x)
  then show ?thesis using rb_inv_produce [OF s _ i] b c by simp
next
  case Consume
  then show ?thesis using rb_inv_consume [OF s _ i] b c by simp
next
  case Resume_consumers
  then show ?thesis using rb_inv_resume_consumers [OF s _ i] b c by auto
next
  case Resume_producers
  then show ?thesis using rb_inv_resume_producers [OF s _ i] b c by auto
qed (use rb_inv_other [OF s i] b c in simp_all)

lemma rb_body_moves:
  assumes s: "rb_mutex s = CLocked ws" and b: "rb_body n op t s = Inr (out, w, s')"
  shows "rb_moves n s out s'"
proof -
  obtain w0 c0 where u0: "unlock (CLocked ws) = Inr (w0, c0)" using unlock_locked by blast
  note cs = rb_cases [OF s u0]
  show ?thesis
    using b
    by (cases op) (auto simp: cs Let_def rb_moves_def split: if_splits list.splits option.splits rb_ctl.splits)
qed

lemmas rb_body_hist = rb_hist_moves [OF _ rb_body_moves]

lemma rb_free_effect:
  assumes "rb_free t s out s'"
  shows "rb_mutex s' = rb_mutex s" and "rb_inv n s \<Longrightarrow> rb_inv n s'"
    and "rb_inv n s \<Longrightarrow> u \<noteq> t \<Longrightarrow> rb_can s u op \<Longrightarrow> rb_can s' u op" and "rb_hist n h s \<Longrightarrow> rb_hist n ((t, out) # h) s'"
proof -
  show "rb_mutex s' = rb_mutex s" using assms by cases auto
  show "rb_inv n s'" if i: "rb_inv n s"
    using assms
  proof cases
    case rb_free_exit
    then have "rb_owned (rb_produce_waiters s) (rb_consume_waiters s) ((rb_ctl s)(t := None))"
      using i by (auto simp: rb_inv_def rb_owned_def)
    moreover have "rb_wakeups n (rb_used s) (rb_produce_waiters s) (rb_consume_waiters s) (rb_running_state s) ((rb_ctl s)(t := None))"
      using i rb_free_exit by (auto simp: rb_inv_def rb_wakeups_def intro: ctl_keep)
    ultimately show ?thesis using i rb_free_exit by (auto simp: rb_inv_def)
  qed (use i in auto)
  show "rb_can s' u op" if "rb_inv n s" "u \<noteq> t" "rb_can s u op"
  proof -
    have "u \<notin> rb_waiting s" using rb_can_waiting [OF that(1)] that(3) by blast
    moreover have "rb_ctl s' u = rb_ctl s u" using assms that(2) by cases simp_all
    moreover have "rb_waiting s' = rb_waiting s" using assms by cases (simp_all add: rb_waiting_def)
    ultimately show ?thesis using rb_can_keep [OF that(3)] by simp
  qed
  show "rb_hist n ((t, out) # h) s'" if "rb_hist n h s"
  proof -
    have "rb_moves n s out s'" using assms by cases (simp_all add: rb_moves_def)
    then show ?thesis by (rule rb_hist_moves [OF that])
  qed
qed

text \<open>What each outcome means for the producers and consumers.\<close>

lemma rb_delivers_simps [simp]:
  "of_handle t [] = []" "of_handle t (ps @ qs) = of_handle t ps @ of_handle t qs"
  "of_handle t [(u, x)] = (if u = t then [x] else [])"
  "rb_puts [] = []" "rb_takes [] = []" "rb_puts (e # h) = rb_puts h @ rb_put e" "rb_takes (e # h) = rb_takes h @ rb_taken e"
  by (simp_all add: of_handle_def rb_puts_def rb_takes_def)

lemma rb_delivers_produce:
  assumes "rb_delivers h pw f" and "f t = None" and "t \<notin> fst ` set pw"
  shows "rb_delivers ((t, Prod_stopped) # h) pw (f(t := Some (Producing RB_produce_stopped)))"
    and "rb_delivers ((t, Prod_stored x) # h) pw (f(t := Some (Producing RB_produced)))"
    and "rb_delivers ((t, Prod_suspended x) # h) ((t, x) # pw) f"
  using assms by (auto simp: rb_delivers_def image_iff)

lemma rb_delivers_consume:
  assumes "rb_delivers h pw f" and "f t = None"
  shows "rb_delivers ((t, Cons_stopped) # h) pw (f(t := Some (Consuming (Inl RB_consume_stopped))))"
    and "rb_delivers ((t, Cons_took e) # h) pw (f(t := Some (Consuming (consume_await_resume RB_consume_stopped e))))"
    and "rb_delivers ((t, Cons_suspended) # h) pw f"
  using assms by (cases e; auto simp: rb_delivers_def)+

lemma rb_delivers_resume:
  assumes "rb_delivers h pw f"
  shows "pw = (v, x) # vs \<Longrightarrow> f v = None \<Longrightarrow> rb_delivers ((t, R_producer v x) # h) vs (f(v := Some (Producing RB_produced)))"
    and "f v = None \<Longrightarrow>
      rb_delivers ((t, R_consumer v e) # h) pw (f(v := Some (Consuming (consume_await_resume RB_consume_stopped e))))"
  using assms by (cases e; auto simp: rb_delivers_def)+

lemma rb_delivers_return:
  assumes "rb_delivers h pw f"
  shows "f t = Some (Consuming r) \<Longrightarrow> rb_delivers ((t, Cons_returned r) # h) pw (f(t := None))"
    and "f t = Some (Producing p) \<Longrightarrow> rb_delivers ((t, Prod_returned p) # h) pw (f(t := None))"
  using assms by (cases r; cases p; auto simp: rb_delivers_def)+

lemma rb_delivers_wake:
  assumes "rb_delivers h pw f" and "\<forall>v\<in>fst ` set pw. f v = None" and "\<forall>v\<in>set cw. f v = None"
  shows "rb_delivers ((t, Notified_producers ws) # h) [] (wake_all (map fst pw) (Producing RB_produce_notified) f)"
    and "rb_delivers ((t, Notified_consumers ws) # h) pw (wake_all cw (Consuming (Inl RB_consume_notified)) f)"
    and "f t = Some Shutting \<Longrightarrow> rb_delivers ((t, Stop_woken ws ws') # h) []
      (wake_all cw (Consuming (Inl RB_consume_stopped)) (wake_all (map fst pw) (Producing RB_produce_stopped) (f(t := None))))"
    and "f t = None \<Longrightarrow> rb_delivers ((t, RB_drain_started (map fst pw)) # h) []
      (wake_all (map fst pw) (Producing RB_produced) (f(t := Some Drain_loop)))"
  using assms by (auto simp: rb_delivers_def image_iff)

lemma rb_delivers_other:
  assumes "rb_delivers h pw f"
  shows "out \<in> {Stop_lost, RB_drain_lost, Notify_early, Stop_early, RB_drain_yield} \<Longrightarrow> rb_delivers ((t, out) # h) pw f"
    and "f t = None \<Longrightarrow> rb_delivers ((t, Stop_flagged) # h) pw (f(t := Some Shutting))"
    and "f t = Some Drain_loop \<Longrightarrow> rb_delivers ((t, RB_drain_exit) # h) pw (f(t := None))"
  using assms by (auto simp: rb_delivers_def)

lemma rb_arg_suspended: "map_of h t = Some (Prod_suspended x) \<Longrightarrow> rb_arg t h = [x]"
proof (induction h)
  case (Cons e h)
  then show ?case by (cases e; cases "snd e") (auto split: if_splits)
qed simp

text \<open>The elements in the two views of a log; no taken slot is empty as long as the counters have not wrapped.\<close>

lemma rb_puts_stored: "map snd (rb_puts h) = stored h"
proof (induction h)
  case (Cons e h)
  then show ?case by (cases e; cases "snd e") auto
qed simp

lemma rb_takes_consumed: "consumed h = map Some ys \<Longrightarrow> map snd (rb_takes h) = ys"
proof (induction h arbitrary: ys)
  case (Cons e h)
  obtain t out where e: "e = (t, out)" by fastforce
  have "\<exists>zs. consumed h = map Some zs \<and> ys = zs @ map snd (rb_taken e)"
    using Cons.prems unfolding e by (cases out) (auto simp: append_eq_map_conv split: option.splits)
  then show ?case using Cons.IH by auto
qed simp

lemma rb_slots_taken:
  assumes "rb_hist n h s"
  shows "length (rb_puts h) < 2 ^ 64 \<longrightarrow> (\<exists>xs. map snd (rb_puts h) = map snd (rb_takes h) @ xs \<and> length xs = rb_used s)"
proof
  assume "length (rb_puts h) < 2 ^ 64"
  then have "length (stored h) < 2 ^ 64" using rb_puts_stored [of h] by (metis length_map)
  then obtain xs where xs: "map Some (stored h) = consumed h @ map Some xs" using assms by (auto simp: rb_hist_def)
  then obtain ys where ys: "consumed h = map Some ys" "stored h = ys @ xs" by (auto simp: map_eq_append_conv)
  have "length xs = rb_used s" using assms ys by (simp add: rb_hist_def)
  then show "\<exists>xs. map snd (rb_puts h) = map snd (rb_takes h) @ xs \<and> length xs = rb_used s"
    using rb_puts_stored [of h] rb_takes_consumed [OF ys(1)] ys(2) by auto
qed

lemma rb_body_delivers:
  assumes s: "rb_mutex s = CLocked ws" and b: "rb_body n op t s = Inr (out, w, s')" and i: "rb_inv n s" and c: "rb_can s t op"
    and d: "rb_delivers h (rb_produce_waiters s) (rb_ctl s)"
  shows "rb_delivers ((t, out) # h) (rb_produce_waiters s') (rb_ctl s')"
proof -
  obtain w0 c0 where u0: "unlock (CLocked ws) = Inr (w0, c0)" using unlock_locked by blast
  note cs = rb_cases [OF s u0]
  have own: "rb_owned (rb_produce_waiters s) (rb_consume_waiters s) (rb_ctl s)" using i by (simp add: rb_inv_def)
  then have waiting: "\<forall>v\<in>fst ` set (rb_produce_waiters s). rb_ctl s v = None" "\<forall>v\<in>set (rb_consume_waiters s). rb_ctl s v = None"
    by (auto simp: rb_owned_def)
  note wake = rb_delivers_wake [OF d waiting]
  show ?thesis
  proof (cases op)
    case (Produce x)
    then have "t \<notin> fst ` set (rb_produce_waiters s)" "rb_ctl s t = None" using c by (auto simp: rb_waiting_def)
    then show ?thesis using b Produce rb_delivers_produce [OF d] by (auto simp: cs split: if_splits)
  next
    case Consume
    then show ?thesis using b c rb_delivers_consume [OF d] by (auto simp: cs split: if_splits)
  next
    case Resume_consumers
    then obtain r where r: "rb_ctl s t = Some (Producing r)" using c by auto
    show ?thesis
      using b Resume_consumers r rb_delivers_resume(2) [OF d] rb_delivers_return(2) [OF d] waiting(2)
      by (auto simp: cs Let_def split: if_splits list.splits)
  next
    case Resume_producers
    then obtain r where r: "rb_ctl s t = Some (Consuming r)" using c by auto
    show ?thesis
      using b Resume_producers r rb_delivers_resume(1) [OF d] rb_delivers_return(1) [OF d] waiting(1)
      by (auto simp: cs split: if_splits list.splits)
  next
    case (Shutdown_flag expected)
    then show ?thesis using b c rb_delivers_other [OF d] by (auto simp: cs split: if_splits)
  next
    case Shutdown_drain
    then show ?thesis using b c wake(4) rb_delivers_other(1) [OF d] by (auto simp: cs split: if_splits)
  qed (use b c wake in \<open>auto simp: cs\<close>)
qed

lemma rb_free_delivers:
  assumes "rb_free t s out s'" and "rb_delivers h (rb_produce_waiters s) (rb_ctl s)"
  shows "rb_delivers ((t, out) # h) (rb_produce_waiters s') (rb_ctl s')"
  using assms(1) by cases (use rb_delivers_other [OF assms(2)] in auto)

text \<open>Who is inside a call.\<close>

lemma rb_inside_owned:
  assumes "rb_inv n s"
  shows "v \<in> fst ` set (rb_produce_waiters s) \<Longrightarrow> rb_ctl s v = None" and "v \<in> set (rb_consume_waiters s) \<Longrightarrow> rb_ctl s v = None"
    and "fst ` set (rb_produce_waiters s) \<inter> set (rb_consume_waiters s) = {}"
    and "distinct (map fst (rb_produce_waiters s))" and "distinct (rb_consume_waiters s)"
  using assms unfolding rb_inv_def rb_owned_def by auto

lemma rb_body_inside:
  assumes s: "rb_mutex s = CLocked ws" and b: "rb_body n op t s = Inr (out, w, s')" and i: "rb_inv n s" and c: "rb_can s t op"
  shows "rb_in_produce s' u = (if u = t then produce_opens out else rb_in_produce s u) \<and>
     rb_in_consume s' u = (if u = t then consume_opens out else rb_in_consume s u)"
proof -
  obtain w0 c0 where u0: "unlock (CLocked ws) = Inr (w0, c0)" using unlock_locked by blast
  note cs = rb_cases [OF s u0]
  note own = rb_inside_owned [OF i]
  note ins = rb_in_produce_def rb_in_consume_def
  have idle: "t \<notin> fst ` set (rb_produce_waiters s)" "t \<notin> set (rb_consume_waiters s)" if "rb_ctl s t \<noteq> None"
    using own(1,2) [of t] that by blast+
  show ?thesis
  proof (cases op)
    case (Produce x)
    then show ?thesis using b c own(1,2) [of t] by (auto simp: cs ins rb_waiting_def split: if_splits)
  next
    case Consume
    then show ?thesis using b c own(1,2) [of t] by (auto simp: cs ins rb_waiting_def split: if_splits)
  next
    case Resume_consumers
    then obtain r where r: "rb_ctl s t = Some (Producing r)" using c by auto
    show ?thesis
    proof (cases "if 0 < rb_used s then rb_consume_waiters s else []")
      case Nil
      then show ?thesis using b Resume_consumers r idle by (auto simp: cs ins)
    next
      case (Cons v vs)
      then have "rb_consume_waiters s = v # vs" by (simp split: if_splits)
      moreover from this have "v \<notin> fst ` set (rb_produce_waiters s)" using own(3) by auto
      ultimately show ?thesis
        using b Resume_consumers r Cons idle own(2) [of v] own(5) by (auto simp: cs ins Let_def split: if_splits)
    qed
  next
    case Resume_producers
    then obtain r where r: "rb_ctl s t = Some (Consuming r)" using c by auto
    show ?thesis
    proof (cases "if rb_used s < n then rb_produce_waiters s else []")
      case Nil
      then show ?thesis using b Resume_producers r idle by (auto simp: cs ins)
    next
      case (Cons vx vs)
      obtain v x where vx: "vx = (v, x)" by fastforce
      have p: "rb_produce_waiters s = (v, x) # vs" using Cons vx by (simp split: if_splits)
      moreover from this have "v \<notin> set (rb_consume_waiters s)" "v \<notin> fst ` set vs" using own(3,4) by auto
      ultimately show ?thesis
        using b Resume_producers r Cons vx idle own(1) [of v] by (auto simp: cs ins split: if_splits)
    qed
  next
    case Notify_producers
    then have s': "rb_produce_waiters s' = []" "rb_consume_waiters s' = rb_consume_waiters s" "out = Notified_producers (map fst (rb_produce_waiters s))"
      "rb_ctl s' = wake_all (map fst (rb_produce_waiters s)) (Producing RB_produce_notified) (rb_ctl s)"
      using b by (auto simp: cs)
    show ?thesis using c Notify_producers own(1,2) [of u] own(1,2) [of t] own(3) by (auto simp: ins s' rb_waiting_def)
  next
    case Notify_consumers
    then have s': "rb_produce_waiters s' = rb_produce_waiters s" "rb_consume_waiters s' = []" "out = Notified_consumers (rb_consume_waiters s)"
      "rb_ctl s' = wake_all (rb_consume_waiters s) (Consuming (Inl RB_consume_notified)) (rb_ctl s)"
      using b by (auto simp: cs)
    show ?thesis using c Notify_consumers own(1,2) [of u] own(1,2) [of t] own(3) by (auto simp: ins s' rb_waiting_def)
  next
    case (Shutdown_flag expected)
    then show ?thesis using b c own(1,2) [of t] by (auto simp: cs ins rb_waiting_def split: if_splits)
  next
    case Shutdown_wake
    then have s': "rb_produce_waiters s' = []" "rb_consume_waiters s' = []" "out = Stop_woken (map fst (rb_produce_waiters s)) (rb_consume_waiters s)"
      "rb_ctl s' = wake_all (rb_consume_waiters s) (Consuming (Inl RB_consume_stopped))
          (wake_all (map fst (rb_produce_waiters s)) (Producing RB_produce_stopped) ((rb_ctl s)(t := None)))"
      using b by (auto simp: cs)
    show ?thesis using c Shutdown_wake own(1,2) [of u] own(1,2) [of t] own(3) by (auto simp: ins s')
  next
    case Shutdown_drain
    show ?thesis
    proof (cases "rb_running_state s = RB_running")
      case True
      then have s': "rb_produce_waiters s' = []" "rb_consume_waiters s' = rb_consume_waiters s" "out = RB_drain_started (map fst (rb_produce_waiters s))"
        "rb_ctl s' = wake_all (map fst (rb_produce_waiters s)) (Producing RB_produced) ((rb_ctl s)(t := Some Drain_loop))"
        using b Shutdown_drain by (auto simp: cs)
      show ?thesis using c Shutdown_drain own(1,2) [of u] own(1,2) [of t] own(3) by (auto simp: ins s' rb_waiting_def)
    next
      case False
      then show ?thesis using b c Shutdown_drain own(1,2) [of t] by (auto simp: cs ins rb_waiting_def)
    qed
  qed
qed

lemma rb_free_inside:
  assumes "rb_free t s out s'" and i: "rb_inv n s"
  shows "rb_in_produce s' u = (if u = t then produce_opens out else rb_in_produce s u) \<and>
     rb_in_consume s' u = (if u = t then consume_opens out else rb_in_consume s u)"
  using assms(1)
proof cases
  case rb_free_yield
  then have "t \<notin> fst ` set (rb_produce_waiters s)" "t \<notin> set (rb_consume_waiters s)" using rb_inside_owned(1,2) [OF i, of t] by auto
  then show ?thesis using rb_free_yield by (simp add: rb_in_produce_def rb_in_consume_def)
next
  case rb_free_exit
  then have "t \<notin> fst ` set (rb_produce_waiters s)" "t \<notin> set (rb_consume_waiters s)" using rb_inside_owned(1,2) [OF i, of t] by auto
  then show ?thesis using rb_free_exit by (simp add: rb_in_produce_def rb_in_consume_def)
qed (auto simp: rb_in_produce_def rb_in_consume_def rb_waiting_def)

text \<open>The slots and the coroutines together.\<close>

definition rb_log_ok :: "nat \<Rightarrow> (handle \<times> 'a rb_out) list \<Rightarrow> 'a ring_buffer \<Rightarrow> bool" where
  "rb_log_ok n h s \<longleftrightarrow> rb_hist n h s \<and> rb_delivers h (rb_produce_waiters s) (rb_ctl s)"

lemma rb_log_ok_step:
  "rb_mutex s = CLocked ws \<Longrightarrow> rb_body n op t s = Inr (out, w, s') \<Longrightarrow> rb_inv n s \<Longrightarrow> rb_can s t op \<Longrightarrow> rb_log_ok n h s \<Longrightarrow>
     rb_log_ok n ((t, out) # h) s'"
  "rb_free t s out s' \<Longrightarrow> rb_log_ok n h s \<Longrightarrow> rb_log_ok n ((t, out) # h) s'"
  by (auto simp: rb_log_ok_def intro: rb_body_hist rb_body_delivers rb_free_effect(4) rb_free_delivers)

lemma rb_basic [simp]:
  "rb_inv n (s\<lparr>rb_mutex := m\<rparr>) = rb_inv n s" "rb_can (s\<lparr>rb_mutex := m\<rparr>) t op = rb_can s t op"
  "rb_log_ok n h (s\<lparr>rb_mutex := m\<rparr>) = rb_log_ok n h s"
  "rb_in_produce (s\<lparr>rb_mutex := m\<rparr>) t = rb_in_produce s t" "rb_in_consume (s\<lparr>rb_mutex := m\<rparr>) t = rb_in_consume s t"
  by (auto simp: rb_inv_def rb_log_ok_def rb_hist_def rb_in_produce_def rb_in_consume_def rb_waiting_def) (cases op; auto simp: rb_waiting_def)+

lemma rb_init_inv: "rb_init n s \<Longrightarrow> rb_mutex s = CUnlocked" "rb_init n s \<Longrightarrow> rb_inv n s" "rb_init n s \<Longrightarrow> rb_log_ok n [] s"
  "rb_init n s \<Longrightarrow> \<not> rb_in_produce s t" "rb_init n s \<Longrightarrow> \<not> rb_in_consume s t"
  by (auto simp: rb_init_def ring_buffer_new_def rb_inv_def rb_log_ok_def rb_hist_def rb_slots_def rb_owned_def rb_wakeups_def
      rb_delivers_def rb_in_produce_def rb_in_consume_def)

interpretation rb: monitor_history rb_mutex "\<lambda>m s. s\<lparr>rb_mutex := m\<rparr>" rb_start rb_can "rb_body n" rb_free "rb_init n"
  "rb_inv n" "rb_log_ok n" for n
proof
  fix s :: "'a ring_buffer" and t op ws
  assume "rb_inv n s" and c: "rb_can s t op" and l: "rb_mutex s = CLocked ws"
  then show "\<exists>out w s'. rb_body n op t s = Inr (out, w, s') \<and> unlock (CLocked ws) = Inr (w, rb_mutex s')"
    using rb_body_total [OF l c, of n] rb_body_unlock [OF l] by blast
next
  fix s s' :: "'a ring_buffer" and t op ws out w u op'
  assume a: "rb_inv n s" "rb_mutex s = CLocked ws" "rb_body n op t s = Inr (out, w, s')" "u \<noteq> t" "rb_can s u op'"
  then have "u \<notin> rb_waiting s" using rb_can_waiting by blast
  then show "rb_can s' u op'" using rb_body_frame [OF a(2-4)] rb_can_keep [OF a(5)] by blast
qed (simp; fail | blast intro: rb_body_inv rb_log_ok_step rb_free_effect rb_init_inv)+

interpretation rbp: monitor_calls rb_mutex "\<lambda>m s. s\<lparr>rb_mutex := m\<rparr>" rb_start rb_can "rb_body n" rb_free "rb_init n"
  "rb_inv n" rb_in_produce produce_opens for n
  by unfold_locales
    (erule rb_init_inv(4), simp, rule rb_body_inside [THEN conjunct1], assumption+, rule rb_free_inside [THEN conjunct1], assumption+)

interpretation rbc: monitor_calls rb_mutex "\<lambda>m s. s\<lparr>rb_mutex := m\<rparr>" rb_start rb_can "rb_body n" rb_free "rb_init n"
  "rb_inv n" rb_in_consume consume_opens for n
  by unfold_locales
    (erule rb_init_inv(5), simp, rule rb_body_inside [THEN conjunct2], assumption+, rule rb_free_inside [THEN conjunct2], assumption+)

section \<open>Properties\<close>

text \<open>C10: the ring buffer is a bounded first-in first-out channel.  In every execution it holds at most its
  capacity of elements, and as long as fewer than \<open>2^64\<close> elements have been stored, the elements taken out so
  far are, in order, the first ones that were stored, each exactly once, and those stored since are the
  ones held.  What is taken out reaches a consumer: the elements that the \<open>consume\<close> calls of a coroutine
  have returned, in order, are the elements taken out on its behalf, apart from one it is about to
  return.  What is stored comes from \<open>produce\<close>: unless a \<open>shutdown_drain\<close> has resumed a waiting \<open>produce\<close> of the
  coroutine, the elements stored on its behalf, in order, are the arguments of its \<open>produce\<close> calls
  that have returned \<open>produced\<close>, apart from one that is about to.\<close>

theorem ring_buffer_fifo:
  assumes "reach (mon_init (rb_init n)) (rb_step n) s"
  shows "rb_used (mon_obj s) \<le> n \<and>
     (length (rb_puts (mon_log s)) < 2 ^ 64 \<longrightarrow>
       (\<exists>xs. map snd (rb_puts (mon_log s)) = map snd (rb_takes (mon_log s)) @ xs \<and> length xs = rb_used (mon_obj s))) \<and>
     of_handle t (rb_takes (mon_log s)) = rb_got t (mon_log s) @ rb_pending (rb_ctl (mon_obj s) t) \<and>
     (\<not> rb_drained t (mon_log s) \<longrightarrow>
       of_handle t (rb_puts (mon_log s)) =
         rb_accepted t (mon_log s) @ (if rb_succeeding (rb_ctl (mon_obj s) t) then rb_arg t (mon_log s) else []))"
proof -
  have h: "rb_hist n (mon_log s) (mon_obj s)" and d: "rb_delivers (mon_log s) (rb_produce_waiters (mon_obj s)) (rb_ctl (mon_obj s))"
    using rb.history [OF assms] by (simp_all add: rb_log_ok_def)
  have "rb_used (mon_obj s) \<le> n" using rb.obj_inv [OF assms] by (simp add: rb_inv_def)
  moreover note rb_slots_taken [OF h]
  moreover have "of_handle t (rb_takes (mon_log s)) = rb_got t (mon_log s) @ rb_pending (rb_ctl (mon_obj s) t)"
    using d by (simp add: rb_delivers_def)
  moreover have "\<not> rb_drained t (mon_log s) \<longrightarrow> of_handle t (rb_puts (mon_log s)) =
       rb_accepted t (mon_log s) @ (if rb_succeeding (rb_ctl (mon_obj s) t) then rb_arg t (mon_log s) else [])"
    using d by (simp add: rb_delivers_def)
  ultimately show ?thesis by blast
qed

text \<open>C11: nobody is stranded in the ring buffer.  In every execution a consumer that \<open>consume\<close> has
  suspended and that has gone no further has been resumed and is on its way out, or it is on the list of
  waiters; then, if an element is there, some producer has yet to run \<open>try_resume_consumers\<close>, and if
  the buffer has stopped, the \<open>shutdown\<close> call that stopped it has yet to reach its second critical section.
  The same holds of a suspended producer, with its element still on the list, for room in the buffer and
  \<open>try_resume_producers\<close>, and as soon as the buffer no longer runs.  Whenever the mutex is locked, exactly
  one coroutine is inside and its locked part passes the mutex on.\<close>

theorem ring_buffer_not_stranded:
  assumes "reach (mon_init (rb_init n)) (rb_step n) s"
  shows "(map_of (mon_log s) c = Some Cons_suspended \<longrightarrow>
       c \<in> set (rb_consume_waiters (mon_obj s)) \<and>
         (0 < rb_used (mon_obj s) \<longrightarrow> (\<exists>t r. rb_ctl (mon_obj s) t = Some (Producing r))) \<and>
         (rb_running_state (mon_obj s) = RB_stopped \<longrightarrow> (\<exists>t. rb_ctl (mon_obj s) t = Some Shutting)) \<or>
       (\<exists>r. rb_ctl (mon_obj s) c = Some (Consuming r))) \<and>
     (map_of (mon_log s) p = Some (Prod_suspended x) \<longrightarrow>
       (p, x) \<in> set (rb_produce_waiters (mon_obj s)) \<and>
         (rb_used (mon_obj s) < n \<longrightarrow> (\<exists>t r. rb_ctl (mon_obj s) t = Some (Consuming r))) \<and>
         (rb_running_state (mon_obj s) \<noteq> RB_running \<longrightarrow> (\<exists>t. rb_ctl (mon_obj s) t = Some Shutting)) \<or>
       (\<exists>r. rb_ctl (mon_obj s) p = Some (Producing r))) \<and>
     (rb_mutex (mon_obj s) \<noteq> CUnlocked \<longrightarrow>
       (\<exists>t op ws out w obj. mon_ph s t = Entered op \<and> (\<forall>v. (\<exists>op'. mon_ph s v = Entered op') \<longrightarrow> v = t) \<and>
         rb_mutex (mon_obj s) = CLocked ws \<and> rb_body n op t (mon_obj s) = Inr (out, w, obj) \<and>
         unlock (CLocked ws) = Inr (w, rb_mutex obj)))"
proof -
  have w: "rb_wakeups n (rb_used (mon_obj s)) (rb_produce_waiters (mon_obj s)) (rb_consume_waiters (mon_obj s))
      (rb_running_state (mon_obj s)) (rb_ctl (mon_obj s))"
    using rb.obj_inv [OF assms] by (simp add: rb_inv_def)
  have d: "rb_delivers (mon_log s) (rb_produce_waiters (mon_obj s)) (rb_ctl (mon_obj s))"
    using rb.history [OF assms] by (simp add: rb_log_ok_def)
  have c: "c \<in> set (rb_consume_waiters (mon_obj s)) \<or> (\<exists>r. rb_ctl (mon_obj s) c = Some (Consuming r))"
    if "map_of (mon_log s) c = Some Cons_suspended"
    using rbc.inside_iff [OF assms, of c] that by (auto simp: rb_in_consume_def)
  have p: "(p, x) \<in> set (rb_produce_waiters (mon_obj s)) \<or> (\<exists>r. rb_ctl (mon_obj s) p = Some (Producing r))"
    if "map_of (mon_log s) p = Some (Prod_suspended x)"
    using rbp.inside_iff [OF assms, of p] that rb_arg_suspended [OF that] d by (auto simp: rb_in_produce_def rb_delivers_def)
  show ?thesis
    using w c p rb.never_locked_out [OF assms]
    by (auto simp: rb_wakeups_def producing_def consuming_def shutting_def)
qed

text \<open>\<open>shutdown_drain\<close> drops elements that it reports as produced.  There is an execution of a buffer of
  capacity one in which a producer waits with the element \<open>y\<close> because \<open>x\<close> fills the buffer, a drain starts, and
  the waiting \<open>produce\<close> returns \<open>produced\<close> although \<open>y\<close> was never stored and never will be.\<close>

theorem ring_buffer_drain_drops:
  "\<exists>s. reach (mon_init (rb_init 1)) (rb_step 1) s \<and>
     mon_log s = [(2, Prod_returned RB_produced), (3, RB_drain_started [2]), (2, Prod_suspended y),
       (1, Prod_returned RB_produced), (1, Prod_stored x)] \<and>
     stored (mon_log s) = [x] \<and> rb_produce_waiters (mon_obj s) = [] \<and> rb_running_state (mon_obj s) = RB_draining"
proof -
  let ?R = "reach (mon_init (rb_init 1)) (rb_step 1) :: ('a ring_buffer, 'a rb_op, 'a rb_out) mon \<Rightarrow> bool"
  let ?out = "\<lambda>_. Outside :: 'a rb_op phase"
  let ?n = "ring_buffer_new 1 :: 'a ring_buffer"
  let ?a = "rb_store 1 x ?n"
  let ?b = "?a\<lparr>rb_produce_waiters := [(2, y)]\<rparr>"
  let ?c = "?a\<lparr>rb_running_state := RB_draining, rb_ctl := (\<lambda>_. None)(3 := Some Drain_loop, 2 := Some (Producing RB_produced))\<rparr>"
  let ?d = "?c\<lparr>rb_ctl := (\<lambda>_. None)(3 := Some Drain_loop)\<rparr>"
  note sim = ring_buffer_new_def rb_waiting_def rb_cases
  note enter = reach_enter [where susp = False and m = "CLocked []"]
  note body = reach_body [where w = None]
  have 0: "?R \<lparr>mon_obj = ?n, mon_ph = ?out, mon_log = []\<rparr>"
    by (rule reach_init) (simp add: mon_init_def rb_init_def)
  have 1: "?R \<lparr>mon_obj = ?n\<lparr>rb_mutex := CLocked []\<rparr>, mon_ph = ?out(1 := Entered (Produce x)), mon_log = []\<rparr>"
    by (rule enter [OF 0, where t = 1 and op = "Produce x"]) (simp_all add: sim)
  have 2: "?R \<lparr>mon_obj = ?a\<lparr>rb_ctl := (\<lambda>_. None)(1 := Some (Producing RB_produced))\<rparr>, mon_ph = ?out,
      mon_log = [(1, Prod_stored x)]\<rparr>"
    by (rule body [OF 1, where t = 1 and op = "Produce x"]) (simp_all add: sim rb_store_def)
  have 3: "?R \<lparr>mon_obj = ?a\<lparr>rb_mutex := CLocked [], rb_ctl := (\<lambda>_. None)(1 := Some (Producing RB_produced))\<rparr>,
      mon_ph = ?out(1 := Entered Resume_consumers), mon_log = [(1, Prod_stored x)]\<rparr>"
    by (rule enter [OF 2, where t = 1 and op = Resume_consumers]) (simp_all add: sim rb_store_def)
  have 4: "?R \<lparr>mon_obj = ?a, mon_ph = ?out, mon_log = [(1, Prod_returned RB_produced), (1, Prod_stored x)]\<rparr>"
    by (rule body [OF 3, where t = 1 and op = Resume_consumers]) (simp_all add: sim rb_store_def)
  have 5: "?R \<lparr>mon_obj = ?a\<lparr>rb_mutex := CLocked []\<rparr>, mon_ph = ?out(2 := Entered (Produce y)),
      mon_log = [(1, Prod_returned RB_produced), (1, Prod_stored x)]\<rparr>"
    by (rule enter [OF 4, where t = 2 and op = "Produce y"]) (simp_all add: sim rb_store_def)
  have 6: "?R \<lparr>mon_obj = ?b, mon_ph = ?out,
      mon_log = [(2, Prod_suspended y), (1, Prod_returned RB_produced), (1, Prod_stored x)]\<rparr>"
    by (rule body [OF 5, where t = 2 and op = "Produce y"]) (simp_all add: sim rb_store_def)
  have 7: "?R \<lparr>mon_obj = ?b\<lparr>rb_mutex := CLocked []\<rparr>, mon_ph = ?out(3 := Entered Shutdown_drain),
      mon_log = [(2, Prod_suspended y), (1, Prod_returned RB_produced), (1, Prod_stored x)]\<rparr>"
    by (rule enter [OF 6, where t = 3 and op = Shutdown_drain]) (simp_all add: sim rb_store_def)
  have 8: "?R \<lparr>mon_obj = ?c, mon_ph = ?out, mon_log = [(3, RB_drain_started [2]), (2, Prod_suspended y),
      (1, Prod_returned RB_produced), (1, Prod_stored x)]\<rparr>"
    by (rule body [OF 7, where t = 3 and op = Shutdown_drain]) (auto simp: sim rb_store_def wake_all_def)
  have 9: "?R \<lparr>mon_obj = ?c\<lparr>rb_mutex := CLocked []\<rparr>, mon_ph = ?out(2 := Entered Resume_consumers),
      mon_log = [(3, RB_drain_started [2]), (2, Prod_suspended y), (1, Prod_returned RB_produced), (1, Prod_stored x)]\<rparr>"
    by (rule enter [OF 8, where t = 2 and op = Resume_consumers]) (simp_all add: sim rb_store_def)
  have 10: "?R \<lparr>mon_obj = ?d, mon_ph = ?out, mon_log = [(2, Prod_returned RB_produced), (3, RB_drain_started [2]),
      (2, Prod_suspended y), (1, Prod_returned RB_produced), (1, Prod_stored x)]\<rparr>"
    by (rule body [OF 9, where t = 2 and op = Resume_consumers]) (auto simp: sim rb_store_def fun_upd_twist)
  show ?thesis by (rule exI, rule conjI [OF 10]) (simp add: sim rb_store_def)
qed

section \<open>Witnesses\<close>

text \<open>Coroutine 2 waits in \<open>consume\<close>; coroutine 1 produces 7 and hands it over; both return.\<close>

abbreviation rb_log :: "(handle \<times> nat rb_out) list" where
  "rb_log \<equiv> [(1, Prod_returned RB_produced), (2, Cons_returned (Inr 7)), (1, R_consumer 2 (Some 7)), (1, Prod_stored 7), (2, Cons_suspended)]"

abbreviation rb_waits :: "nat ring_buffer" where
  "rb_waits \<equiv> (rb_store 2 7 (ring_buffer_new 2))\<lparr>rb_consume_waiters := [2], rb_ctl := [1 \<mapsto> Producing RB_produced]\<rparr>"

abbreviation rb_over :: "nat ring_buffer" where
  "rb_over \<equiv> (ring_buffer_new 2)\<lparr>rb_front := 1, rb_back := 1\<rparr>"

lemma rb_demo_waits:
  "reach (mon_init (rb_init 2)) (rb_step 2) \<lparr>mon_obj = rb_waits, mon_ph = \<lambda>_. Outside, mon_log = drop 3 rb_log\<rparr>"
proof -
  let ?R = "reach (mon_init (rb_init 2)) (rb_step 2) :: (nat ring_buffer, nat rb_op, nat rb_out) mon \<Rightarrow> bool"
  let ?n = "ring_buffer_new 2 :: nat ring_buffer" and ?out = "\<lambda>_. Outside :: nat rb_op phase"
  note sim = ring_buffer_new_def rb_waiting_def rb_cases rb_store_def
  note enter = reach_enter [where susp = False and m = "CLocked []"]
  note body = reach_body [where w = None]
  have 0: "?R \<lparr>mon_obj = ?n, mon_ph = ?out, mon_log = []\<rparr>"
    by (rule reach_init) (simp add: mon_init_def rb_init_def)
  have 1: "?R \<lparr>mon_obj = ?n\<lparr>rb_mutex := CLocked []\<rparr>, mon_ph = ?out(2 := Entered Consume), mon_log = []\<rparr>"
    by (rule enter [OF 0, where t = 2 and op = Consume]) (simp_all add: sim)
  have 2: "?R \<lparr>mon_obj = ?n\<lparr>rb_consume_waiters := [2]\<rparr>, mon_ph = ?out, mon_log = drop 4 rb_log\<rparr>"
    by (rule body [OF 1, where t = 2 and op = Consume]) (simp_all add: sim)
  have 3: "?R \<lparr>mon_obj = ?n\<lparr>rb_consume_waiters := [2], rb_mutex := CLocked []\<rparr>, mon_ph = ?out(1 := Entered (Produce 7)), mon_log = drop 4 rb_log\<rparr>"
    by (rule enter [OF 2, where t = 1 and op = "Produce 7"]) (simp_all add: sim)
  show ?thesis by (rule body [OF 3, where t = 1 and op = "Produce 7"]) (simp_all add: sim)
qed

lemma rb_demo_over:
  "reach (mon_init (rb_init 2)) (rb_step 2) \<lparr>mon_obj = rb_over, mon_ph = \<lambda>_. Outside, mon_log = rb_log\<rparr>"
proof -
  let ?R = "reach (mon_init (rb_init 2)) (rb_step 2) :: (nat ring_buffer, nat rb_op, nat rb_out) mon \<Rightarrow> bool"
  let ?out = "\<lambda>_. Outside :: nat rb_op phase"
  let ?t = "rb_over\<lparr>rb_ctl := [1 \<mapsto> Producing RB_produced, 2 \<mapsto> Consuming (Inr 7)]\<rparr>"
  let ?u = "rb_over\<lparr>rb_ctl := [1 \<mapsto> Producing RB_produced]\<rparr>"
  note sim = ring_buffer_new_def rb_waiting_def rb_cases rb_store_def rb_take_def
  note enter = reach_enter [where susp = False and m = "CLocked []"]
  note body = reach_body [where w = None]
  have 1: "?R \<lparr>mon_obj = rb_waits\<lparr>rb_mutex := CLocked []\<rparr>, mon_ph = ?out(1 := Entered Resume_consumers), mon_log = drop 3 rb_log\<rparr>"
    by (rule enter [OF rb_demo_waits, where t = 1 and op = Resume_consumers]) (simp_all add: sim)
  have 2: "?R \<lparr>mon_obj = ?t, mon_ph = ?out, mon_log = drop 2 rb_log\<rparr>"
    by (rule body [OF 1, where t = 1 and op = Resume_consumers]) (simp_all add: sim numeral_2_eq_2)
  have 3: "?R \<lparr>mon_obj = ?t\<lparr>rb_mutex := CLocked []\<rparr>, mon_ph = ?out(2 := Entered Resume_producers), mon_log = drop 2 rb_log\<rparr>"
    by (rule enter [OF 2, where t = 2 and op = Resume_producers]) (simp_all add: sim)
  have 4: "?R \<lparr>mon_obj = ?u, mon_ph = ?out, mon_log = drop 1 rb_log\<rparr>"
    by (rule body [OF 3, where t = 2 and op = Resume_producers]) (simp_all add: sim fun_upd_twist)
  have 5: "?R \<lparr>mon_obj = ?u\<lparr>rb_mutex := CLocked []\<rparr>, mon_ph = ?out(1 := Entered Resume_consumers), mon_log = drop 1 rb_log\<rparr>"
    by (rule enter [OF 4, where t = 1 and op = Resume_consumers]) (simp_all add: sim)
  show ?thesis by (rule body [OF 5, where t = 1 and op = Resume_consumers]) (simp_all add: sim)
qed

theorem ring_buffer_fifo_witness:
  "map snd (rb_puts rb_log) = map snd (rb_takes rb_log) @ [] \<and> of_handle 2 (rb_takes rb_log) = rb_got 2 rb_log \<and>
   rb_got 2 rb_log = [7] \<and> rb_accepted 1 rb_log = [7]"
  using ring_buffer_fifo [OF rb_demo_over, of 2] by (simp add: ring_buffer_new_def)

theorem ring_buffer_not_stranded_witness:
  "map_of (drop 3 rb_log) 2 = Some Cons_suspended \<and> 2 \<in> set (rb_consume_waiters rb_waits) \<and> rb_used rb_waits = 1 \<and>
   (\<exists>t r. rb_ctl rb_waits t = Some (Producing r))"
  using ring_buffer_not_stranded [OF rb_demo_waits, of 2] by (simp add: ring_buffer_new_def)

end
