(* ===== verification/SharedMutex.thy ===== *)
theory SharedMutex
  imports Monitor
begin

text \<open>
  The readers-writer lock of \<open>include/coro/shared_mutex.hpp\<close>.  Its operations run under an internal
  \<open>coro::mutex\<close>; waiters form one list in order of arrival.  The lemmas relate the pointers, the two
  counters and the state to the list of waiters and to the coroutines that hold the lock.
\<close>

section \<open>The shared mutex\<close>

datatype sm_state_t = SM_unlocked | SM_locked_shared | SM_locked_exclusive

datatype sm_hold = Hold_shared | Hold_exclusive

text \<open>
  The waiters form a list from \<open>m_head_waiter\<close> to \<open>m_tail_waiter\<close>; \<open>sm_exclusive\<close> is the mode that each
  \<open>shared_lock_operation\<close> was created with.  \<open>sm_holds\<close> records which coroutine has been let through and
  in which mode.
\<close>

record shared_mutex =
  sm_mutex :: cmutex
  sm_state :: sm_state_t
  sm_shared_users :: nat
  sm_exclusive_waiters :: nat
  sm_head :: ptr
  sm_tail :: ptr
  sm_next :: heap
  sm_exclusive :: "addr \<Rightarrow> bool"
  sm_holds :: "handle \<Rightarrow> sm_hold option"

text \<open>The constructor; the argument says whether the executor pointer is null.\<close>

definition shared_mutex_new :: "bool \<Rightarrow> shared_mutex result" where
  "shared_mutex_new null_executor =
     (if null_executor then Inl (Runtime_error ''coro::shared_mutex cannot have a nullptr executor'')
      else Inr \<lparr>sm_mutex = CUnlocked, sm_state = SM_unlocked, sm_shared_users = 0, sm_exclusive_waiters = 0,
        sm_head = None, sm_tail = None, sm_next = \<lambda>_. None, sm_exclusive = \<lambda>_. False, sm_holds = \<lambda>_. None\<rparr>)"

definition sm_unlock :: "shared_mutex \<Rightarrow> (handle option \<times> shared_mutex) result" where
  "sm_unlock s = (case unlock (sm_mutex s) of Inl e \<Rightarrow> Inl e | Inr (w, m) \<Rightarrow> Inr (w, s\<lparr>sm_mutex := m\<rparr>))"

definition try_lock_shared_locked :: "shared_mutex \<Rightarrow> bool \<times> shared_mutex" where
  "try_lock_shared_locked s =
     (if sm_state s = SM_unlocked
      then (True, s\<lparr>sm_state := SM_locked_shared, sm_shared_users := sm_shared_users s + 1\<rparr>)
      else if sm_state s = SM_locked_shared \<and> sm_exclusive_waiters s = 0
      then (True, s\<lparr>sm_shared_users := sm_shared_users s + 1\<rparr>)
      else (False, s))"

definition try_lock_locked :: "shared_mutex \<Rightarrow> bool \<times> shared_mutex" where
  "try_lock_locked s =
     (if sm_state s = SM_unlocked then (True, s\<lparr>sm_state := SM_locked_exclusive\<rparr>) else (False, s))"

definition sm_try :: "bool \<Rightarrow> shared_mutex \<Rightarrow> bool \<times> shared_mutex" where
  "sm_try exclusive s = (if exclusive then try_lock_locked s else try_lock_shared_locked s)"

fun hold_mode :: "bool \<Rightarrow> sm_hold" where
  "hold_mode True = Hold_exclusive"
| "hold_mode False = Hold_shared"

text \<open>What a locked part did.\<close>

datatype sm_out =
    Lock_ready bool
  | Lock_suspended bool
  | Try_failed bool
  | Unlock_quiet
  | Unlock_free
  | Unlock_woke "handle list"

text \<open>\<open>shared_lock_operation::await_suspend\<close>: append to the list of waiters.\<close>

definition sm_enqueue :: "bool \<Rightarrow> handle \<Rightarrow> shared_mutex \<Rightarrow> shared_mutex" where
  "sm_enqueue exclusive t s =
     (let s = s\<lparr>sm_next := (sm_next s)(t := None), sm_exclusive := (sm_exclusive s)(t := exclusive)\<rparr>;
          s = (case sm_tail s of
                 None \<Rightarrow> s\<lparr>sm_head := Some t, sm_tail := Some t\<rparr>
               | Some tail \<Rightarrow> s\<lparr>sm_next := (sm_next s)(tail := Some t), sm_tail := Some t\<rparr>)
      in if exclusive then s\<lparr>sm_exclusive_waiters := sm_exclusive_waiters s + 1\<rparr> else s)"

text \<open>\<open>lock\<close> and \<open>lock_shared\<close> after the internal mutex has been acquired.\<close>

definition sm_lock_locked :: "bool \<Rightarrow> handle \<Rightarrow> shared_mutex \<Rightarrow> (sm_out \<times> handle option \<times> shared_mutex) result" where
  "sm_lock_locked exclusive t s =
     (case sm_try exclusive s of
        (True, s1) \<Rightarrow>
          (case sm_unlock s1 of
             Inl e \<Rightarrow> Inl e
           | Inr (w, s') \<Rightarrow> Inr (Lock_ready exclusive, w, s'\<lparr>sm_holds := (sm_holds s')(t := Some (hold_mode exclusive))\<rparr>))
      | (False, s1) \<Rightarrow>
          (case sm_unlock (sm_enqueue exclusive t s1) of
             Inl e \<Rightarrow> Inl e
           | Inr (w, s') \<Rightarrow> Inr (Lock_suspended exclusive, w, s')))"

text \<open>\<open>try_lock\<close> and \<open>try_lock_shared\<close> after a successful \<open>try_lock\<close> of the internal mutex.\<close>

definition sm_try_lock_locked :: "bool \<Rightarrow> handle \<Rightarrow> shared_mutex \<Rightarrow> (sm_out \<times> handle option \<times> shared_mutex) result" where
  "sm_try_lock_locked exclusive t s =
     (case sm_try exclusive s of
        (True, s1) \<Rightarrow>
          (case sm_unlock s1 of
             Inl e \<Rightarrow> Inl e
           | Inr (w, s') \<Rightarrow> Inr (Lock_ready exclusive, w, s'\<lparr>sm_holds := (sm_holds s')(t := Some (hold_mode exclusive))\<rparr>))
      | (False, s1) \<Rightarrow>
          (case sm_unlock s1 of Inl e \<Rightarrow> Inl e | Inr (w, s') \<Rightarrow> Inr (Try_failed exclusive, w, s')))"

text \<open>Taking the first waiter off the list.\<close>

definition sm_advance :: "addr \<Rightarrow> shared_mutex \<Rightarrow> shared_mutex" where
  "sm_advance w s =
     (if sm_next s w = None then s\<lparr>sm_head := None, sm_tail := None\<rparr> else s\<lparr>sm_head := sm_next s w\<rparr>)"

partial_function (option) wake_shared :: "shared_mutex \<Rightarrow> handle list \<Rightarrow> (handle list \<times> shared_mutex) option" where
  "wake_shared s acc =
     (case sm_head s of
        None \<Rightarrow> Some (acc, s)
      | Some w \<Rightarrow>
          if sm_exclusive s w then Some (acc, s)
          else wake_shared
            ((sm_advance w s)\<lparr>sm_shared_users := sm_shared_users s + 1, sm_holds := (sm_holds s)(w := Some Hold_shared)\<rparr>)
            (acc @ [w]))"

definition wake_waiters :: "addr \<Rightarrow> shared_mutex \<Rightarrow> (sm_out \<times> handle option \<times> shared_mutex) result" where
  "wake_waiters head_waiter s =
     (if sm_exclusive s head_waiter
      then (let s1 = (sm_advance head_waiter (s\<lparr>sm_state := SM_locked_exclusive\<rparr>))
                       \<lparr>sm_exclusive_waiters := sm_exclusive_waiters s - 1\<rparr>
            in case sm_unlock s1 of
                 Inl e \<Rightarrow> Inl e
               | Inr (w, s') \<Rightarrow>
                   Inr (Unlock_woke [head_waiter], w, s'\<lparr>sm_holds := (sm_holds s')(head_waiter := Some Hold_exclusive)\<rparr>))
      else (case wake_shared (s\<lparr>sm_state := SM_locked_shared\<rparr>) [] of
              None \<Rightarrow> Inl Diverges
            | Some (ws, s1) \<Rightarrow>
                (case sm_unlock s1 of Inl e \<Rightarrow> Inl e | Inr (w, s') \<Rightarrow> Inr (Unlock_woke ws, w, s'))))"

definition sm_free_or_wake :: "shared_mutex \<Rightarrow> (sm_out \<times> handle option \<times> shared_mutex) result" where
  "sm_free_or_wake s =
     (case sm_head s of
        Some head_waiter \<Rightarrow> wake_waiters head_waiter s
      | None \<Rightarrow>
          (case sm_unlock (s\<lparr>sm_state := SM_unlocked\<rparr>) of Inl e \<Rightarrow> Inl e | Inr (w, s') \<Rightarrow> Inr (Unlock_free, w, s')))"

definition unlock_shared_locked :: "handle \<Rightarrow> shared_mutex \<Rightarrow> (sm_out \<times> handle option \<times> shared_mutex) result" where
  "unlock_shared_locked t s =
     (let users = sm_shared_users s;
          s1 = s\<lparr>sm_shared_users := users - 1, sm_holds := (sm_holds s)(t := None)\<rparr>
      in if users = 1 then sm_free_or_wake s1
         else (case sm_unlock s1 of Inl e \<Rightarrow> Inl e | Inr (w, s') \<Rightarrow> Inr (Unlock_quiet, w, s')))"

definition unlock_exclusive_locked :: "handle \<Rightarrow> shared_mutex \<Rightarrow> (sm_out \<times> handle option \<times> shared_mutex) result" where
  "unlock_exclusive_locked t s = sm_free_or_wake (s\<lparr>sm_holds := (sm_holds s)(t := None)\<rparr>)"

section \<open>Concurrent use\<close>

datatype sm_op = SM_lock bool | SM_try_lock bool | SM_unlock_shared | SM_unlock

primrec sm_body :: "sm_op \<Rightarrow> handle \<Rightarrow> shared_mutex \<Rightarrow> (sm_out \<times> handle option \<times> shared_mutex) result" where
  "sm_body (SM_lock exclusive) t s = sm_lock_locked exclusive t s"
| "sm_body (SM_try_lock exclusive) t s = sm_try_lock_locked exclusive t s"
| "sm_body SM_unlock_shared t s = unlock_shared_locked t s"
| "sm_body SM_unlock t s = unlock_exclusive_locked t s"

text \<open>Membership in the list of waiters, read off the pointers.\<close>

definition sm_waiting :: "shared_mutex \<Rightarrow> handle \<Rightarrow> bool" where
  "sm_waiting s t \<longleftrightarrow> (\<exists>xs. lst (sm_next s) (sm_head s) xs \<and> t \<in> set xs)"

text \<open>The callers unlock what they hold, and lock when they hold nothing and are not waiting.\<close>

fun sm_can :: "shared_mutex \<Rightarrow> handle \<Rightarrow> sm_op \<Rightarrow> bool" where
  "sm_can s t SM_unlock_shared = (sm_holds s t = Some Hold_shared)"
| "sm_can s t SM_unlock = (sm_holds s t = Some Hold_exclusive)"
| "sm_can s t op = (sm_holds s t = None \<and> \<not> sm_waiting s t)"

fun sm_start :: "shared_mutex \<Rightarrow> handle \<Rightarrow> sm_op \<Rightarrow> bool" where
  "sm_start s t (SM_try_lock exclusive) = fst (try_lock (sm_mutex s))"
| "sm_start s t op = True"

text \<open>Without the internal mutex: a try that does not get it.\<close>

inductive sm_free :: "handle \<Rightarrow> shared_mutex \<Rightarrow> sm_out \<Rightarrow> shared_mutex \<Rightarrow> bool" where
  sm_free_try: "sm_can s t (SM_try_lock exclusive) \<Longrightarrow> \<not> fst (try_lock (sm_mutex s)) \<Longrightarrow> sm_free t s (Try_failed exclusive) s"

abbreviation sm_step :: "(shared_mutex, sm_op, sm_out) mon \<Rightarrow> (shared_mutex, sm_op, sm_out) mon \<Rightarrow> bool" where
  "sm_step \<equiv> mon_step sm_mutex (\<lambda>m s. s\<lparr>sm_mutex := m\<rparr>) sm_start sm_can sm_body sm_free"

definition sm_init :: "shared_mutex \<Rightarrow> bool" where
  "sm_init s \<longleftrightarrow> shared_mutex_new False = Inr s"

text \<open>
  An operation without contention for the internal mutex, run to its end; \<open>None\<close> where it would wait.
\<close>

definition sm_run :: "sm_op \<Rightarrow> handle \<Rightarrow> shared_mutex \<Rightarrow> (sm_out \<times> shared_mutex) option" where
  "sm_run op t s =
     (case lock_await (sm_mutex s) t of
        (True, m) \<Rightarrow> None
      | (False, m) \<Rightarrow>
          (case sm_body op t (s\<lparr>sm_mutex := m\<rparr>) of Inl e \<Rightarrow> None | Inr (out, w, s') \<Rightarrow> Some (out, s')))"

text \<open>\<open>scoped_lock\<close> and \<open>scoped_lock_shared\<close> with the result \<open>r\<close> of the scoped task.\<close>

definition sm_scoped_lock :: "bool \<Rightarrow> handle \<Rightarrow> unit result \<Rightarrow> shared_mutex \<Rightarrow> (unit result \<times> shared_mutex) option" where
  "sm_scoped_lock exclusive t r s =
     (case sm_run (SM_lock exclusive) t s of
        Some (Lock_ready b, s1) \<Rightarrow>
          (case r of
             Inl e \<Rightarrow> Some (Inl e, s1)
           | Inr u \<Rightarrow> map_option (\<lambda>(out, s2). (Inr u, s2)) (sm_run (if exclusive then SM_unlock else SM_unlock_shared) t s1))
      | _ \<Rightarrow> None)"

section \<open>The readers-writer specification\<close>

text \<open>The list of waiters, and what the counters and the state have to do with it and with the holders.\<close>

definition sm_queue :: "shared_mutex \<Rightarrow> handle list \<Rightarrow> bool" where
  "sm_queue s xs \<longleftrightarrow>
     lst (sm_next s) (sm_head s) xs \<and> sm_tail s = (if xs = [] then None else Some (last xs)) \<and>
     sm_exclusive_waiters s = length (filter (sm_exclusive s) xs) \<and> (\<forall>t\<in>set xs. sm_holds s t = None)"

definition holding :: "sm_hold \<Rightarrow> (handle \<Rightarrow> sm_hold option) \<Rightarrow> handle set" where
  "holding m h = {t. h t = Some m}"

definition sm_mode :: "sm_state_t \<Rightarrow> nat \<Rightarrow> (handle \<Rightarrow> sm_hold option) \<Rightarrow> (handle \<Rightarrow> bool) \<Rightarrow> handle list \<Rightarrow> bool" where
  "sm_mode st users h exclusive xs \<longleftrightarrow>
     finite (holding Hold_shared h) \<and> card (holding Hold_shared h) = users \<and>
     (case st of
        SM_unlocked \<Rightarrow> holding Hold_shared h = {} \<and> holding Hold_exclusive h = {} \<and> xs = []
      | SM_locked_shared \<Rightarrow>
          holding Hold_shared h \<noteq> {} \<and> holding Hold_exclusive h = {} \<and> (xs = [] \<or> exclusive (hd xs))
      | SM_locked_exclusive \<Rightarrow> holding Hold_shared h = {} \<and> (\<exists>t. holding Hold_exclusive h = {t}))"

definition sm_inv :: "shared_mutex \<Rightarrow> bool" where
  "sm_inv s \<longleftrightarrow> (\<exists>xs. sm_queue s xs \<and> sm_mode (sm_state s) (sm_shared_users s) (sm_holds s) (sm_exclusive s) xs)"

text \<open>Who gets the lock next: the first waiter if it is a writer, otherwise all readers before the first writer.\<close>

definition sm_next_batch :: "(handle \<Rightarrow> bool) \<Rightarrow> handle list \<Rightarrow> handle list" where
  "sm_next_batch exclusive xs =
     (case xs of [] \<Rightarrow> [] | x # _ \<Rightarrow> if exclusive x then [x] else takeWhile (\<lambda>t. \<not> exclusive t) xs)"

section \<open>Lemmas\<close>

lemma sm_unlock_locked:
  "sm_mutex s = CLocked ws \<Longrightarrow> unlock (CLocked ws) = Inr (w, c) \<Longrightarrow> sm_unlock s = Inr (w, s\<lparr>sm_mutex := c\<rparr>)"
  by (simp add: sm_unlock_def)

lemma holding_upd [simp]:
  "holding m (h(t := Some m')) = (if m = m' then insert t (holding m h) else holding m h - {t})"
  "holding m (h(t := None)) = holding m h - {t}"
  "holding m (wake_all ws m' h) = (if m = m' then holding m h \<union> set ws else holding m h - set ws)"
  by (auto simp: holding_def)

lemma holding_iff: "t \<in> holding m h \<longleftrightarrow> h t = Some m"
  by (simp add: holding_def)

lemma sm_waiting_queue: "sm_queue s xs \<Longrightarrow> sm_waiting s t \<longleftrightarrow> t \<in> set xs"
  using lst_unique by (auto simp: sm_waiting_def sm_queue_def)

text \<open>The list of waiters.\<close>

lemma lst_snoc:
  "lst h p xs \<Longrightarrow> xs \<noteq> [] \<Longrightarrow> e \<notin> set xs \<Longrightarrow> h e = None \<Longrightarrow> lst (h(last xs := Some e)) p (xs @ [e])"
proof (induction xs arbitrary: p)
  case (Cons x xs)
  have d: "distinct (x # xs)" using Cons.prems(1) by (rule lst_distinct)
  show ?case
  proof (cases "xs = []")
    case False
    then have "x \<noteq> last xs" using d by auto
    then show ?thesis using Cons False by simp
  qed (use Cons.prems in auto)
qed simp

lemma sm_enqueue_fields [simp]:
  "sm_mutex (sm_enqueue b t s) = sm_mutex s" "sm_state (sm_enqueue b t s) = sm_state s"
  "sm_shared_users (sm_enqueue b t s) = sm_shared_users s" "sm_holds (sm_enqueue b t s) = sm_holds s"
  "sm_exclusive (sm_enqueue b t s) = (sm_exclusive s)(t := b)"
  "sm_exclusive_waiters (sm_enqueue b t s) = sm_exclusive_waiters s + (if b then 1 else 0)"
  "sm_head (sm_enqueue b t s) = (if sm_tail s = None then Some t else sm_head s)" "sm_tail (sm_enqueue b t s) = Some t"
  "sm_next (sm_enqueue b t s) = (case sm_tail s of None \<Rightarrow> (sm_next s)(t := None) | Some l \<Rightarrow> (sm_next s)(t := None, l := Some t))"
  by (auto simp: sm_enqueue_def Let_def split: option.splits)

lemma filter_exclusive_upd: "t \<notin> set xs \<Longrightarrow> filter (f(t := b)) xs = filter f xs"
  by (rule filter_cong) auto

lemma sm_enqueue_queue:
  assumes "sm_queue s xs" and "t \<notin> set xs" and "sm_holds s t = None"
  shows "sm_queue (sm_enqueue b t s) (xs @ [t])"
proof (cases "xs = []")
  case True
  then show ?thesis using assms by (auto simp: sm_queue_def)
next
  case False
  then have "lst ((sm_next s)(t := None, last xs := Some t)) (sm_head s) (xs @ [t])"
    using assms lst_snoc [of "(sm_next s)(t := None)" "sm_head s" xs t] by (simp add: sm_queue_def)
  then show ?thesis using False assms by (simp add: sm_queue_def filter_exclusive_upd)
qed

lemma wake_shared_run:
  assumes "lst (sm_next s) (sm_head s) xs" and "xs = [] \<Longrightarrow> sm_tail s = None"
  shows "wake_shared s acc = Some (acc @ takeWhile (\<lambda>t. \<not> sm_exclusive s t) xs,
    s\<lparr>sm_head := case dropWhile (\<lambda>t. \<not> sm_exclusive s t) xs of [] \<Rightarrow> None | x # _ \<Rightarrow> Some x,
      sm_tail := if dropWhile (\<lambda>t. \<not> sm_exclusive s t) xs = [] then None else sm_tail s,
      sm_shared_users := sm_shared_users s + length (takeWhile (\<lambda>t. \<not> sm_exclusive s t) xs),
      sm_holds := wake_all (takeWhile (\<lambda>t. \<not> sm_exclusive s t) xs) Hold_shared (sm_holds s)\<rparr>)"
  using assms
proof (induction xs arbitrary: s acc)
  case Nil
  then show ?case by (subst wake_shared.simps) (auto simp: wake_all_def)
next
  case (Cons x xs)
  show ?case
  proof (cases "sm_exclusive s x")
    case True
    then show ?thesis using Cons.prems by (subst wake_shared.simps) (auto simp: wake_all_def)
  next
    case False
    let ?s = "(sm_advance x s)\<lparr>sm_shared_users := sm_shared_users s + 1, sm_holds := (sm_holds s)(x := Some Hold_shared)\<rparr>"
    have hx: "sm_head s = Some x" "lst (sm_next s) (sm_next s x) xs" using Cons.prems by auto
    have wa: "wake_all (x # ws) Hold_shared h = wake_all ws Hold_shared (h(x := Some Hold_shared))" for ws h
      by (auto simp: wake_all_def)
    have n: "sm_next s x = None \<longleftrightarrow> xs = []" using hx(2) by (cases xs) auto
    have l: "lst (sm_next ?s) (sm_head ?s) xs" "xs = [] \<Longrightarrow> sm_tail ?s = None" using hx n by (auto simp: sm_advance_def)
    have e: "sm_exclusive ?s = sm_exclusive s" "sm_tail ?s = (if xs = [] then None else sm_tail s)"
      using n by (simp_all add: sm_advance_def)
    have "wake_shared s acc = wake_shared ?s (acc @ [x])" using hx False by (subst wake_shared.simps) simp
    also note Cons.IH [OF l, of "acc @ [x]", unfolded e]
    finally show ?thesis using False n by (cases "xs = []") (simp_all add: wa sm_advance_def del: wake_all_apply fun_upd_apply)
  qed
qed

text \<open>The locked parts in full.\<close>

lemma sm_lock_locked_cases:
  assumes "sm_mutex s = CLocked ws" and "unlock (CLocked ws) = Inr (w, c)"
  shows "sm_lock_locked b t s = Inr
    (if sm_state s = SM_unlocked then
       (Lock_ready b, w, s\<lparr>sm_state := (if b then SM_locked_exclusive else SM_locked_shared),
          sm_shared_users := sm_shared_users s + (if b then 0 else 1), sm_mutex := c,
          sm_holds := (sm_holds s)(t := Some (hold_mode b))\<rparr>)
     else if \<not> b \<and> sm_state s = SM_locked_shared \<and> sm_exclusive_waiters s = 0 then
       (Lock_ready b, w, s\<lparr>sm_shared_users := sm_shared_users s + 1, sm_mutex := c, sm_holds := (sm_holds s)(t := Some Hold_shared)\<rparr>)
     else (Lock_suspended b, w, (sm_enqueue b t s)\<lparr>sm_mutex := c\<rparr>))"
  using assms
  by (auto simp: sm_lock_locked_def sm_try_def try_lock_locked_def try_lock_shared_locked_def sm_unlock_locked [OF _ assms(2)])

lemma sm_try_lock_locked_cases:
  assumes "sm_mutex s = CLocked ws" and "unlock (CLocked ws) = Inr (w, c)"
  shows "sm_try_lock_locked b t s =
    (case sm_lock_locked b t s of
       Inr (Lock_suspended b, w, s') \<Rightarrow> Inr (Try_failed b, w, s\<lparr>sm_mutex := c\<rparr>)
     | r \<Rightarrow> r)"
  using assms
  by (auto simp: sm_try_lock_locked_def sm_lock_locked_def sm_try_def try_lock_locked_def try_lock_shared_locked_def
    sm_unlock_locked [OF _ assms(2)])

lemma sm_free_or_wake_cases:
  assumes "sm_mutex s = CLocked ws" and "unlock (CLocked ws) = Inr (w, c)" and "sm_queue s xs"
  shows "sm_free_or_wake s = Inr
    (case xs of
       [] \<Rightarrow> (Unlock_free, w, s\<lparr>sm_state := SM_unlocked, sm_mutex := c\<rparr>)
     | x # r \<Rightarrow>
         if sm_exclusive s x then
           (Unlock_woke [x], w, s\<lparr>sm_state := SM_locked_exclusive, sm_head := sm_next s x,
              sm_tail := (if r = [] then None else sm_tail s), sm_exclusive_waiters := sm_exclusive_waiters s - 1,
              sm_mutex := c, sm_holds := (sm_holds s)(x := Some Hold_exclusive)\<rparr>)
         else
           (Unlock_woke (takeWhile (\<lambda>t. \<not> sm_exclusive s t) xs), w,
            s\<lparr>sm_state := SM_locked_shared,
              sm_head := case dropWhile (\<lambda>t. \<not> sm_exclusive s t) xs of [] \<Rightarrow> None | x # _ \<Rightarrow> Some x,
              sm_tail := if dropWhile (\<lambda>t. \<not> sm_exclusive s t) xs = [] then None else sm_tail s,
              sm_shared_users := sm_shared_users s + length (takeWhile (\<lambda>t. \<not> sm_exclusive s t) xs),
              sm_holds := wake_all (takeWhile (\<lambda>t. \<not> sm_exclusive s t) xs) Hold_shared (sm_holds s), sm_mutex := c\<rparr>))"
proof (cases xs)
  case Nil
  then show ?thesis using assms by (simp add: sm_free_or_wake_def sm_queue_def sm_unlock_locked [OF _ assms(2)])
next
  case (Cons x r)
  then have l: "sm_head s = Some x" "lst (sm_next s) (sm_next s x) r" using assms(3) by (auto simp: sm_queue_def)
  have n: "sm_next s x = None \<longleftrightarrow> r = []" using l(2) by (cases r) auto
  have "lst (sm_next (s\<lparr>sm_state := SM_locked_shared\<rparr>)) (sm_head (s\<lparr>sm_state := SM_locked_shared\<rparr>)) xs"
    using assms(3) by (simp add: sm_queue_def)
  note wake = wake_shared_run [OF this, of "[]"]
  show ?thesis
  proof (cases "sm_exclusive s x")
    case True
    then show ?thesis using Cons l n assms
      by (auto simp: sm_free_or_wake_def wake_waiters_def sm_advance_def sm_unlock_locked [OF _ assms(2)])
  next
    case False
    then show ?thesis using Cons l assms wake
      by (simp add: sm_free_or_wake_def wake_waiters_def sm_unlock_locked [OF _ assms(2)])
  qed
qed

text \<open>
  What a locked part of \<open>t\<close> does to the waiters \<open>xs\<close> and to the coroutines outside.
\<close>

definition sm_after :: "handle \<Rightarrow> handle list \<Rightarrow> shared_mutex \<Rightarrow> shared_mutex \<Rightarrow> handle list \<Rightarrow> bool" where
  "sm_after t xs s s' ys \<longleftrightarrow>
     sm_queue s' ys \<and> sm_mode (sm_state s') (sm_shared_users s') (sm_holds s') (sm_exclusive s') ys \<and>
     set ys \<subseteq> insert t (set xs) \<and> (\<forall>u. u \<noteq> t \<longrightarrow> u \<notin> set xs \<longrightarrow> sm_holds s' u = sm_holds s u)"

lemma lst_dropWhile:
  "lst h p xs \<Longrightarrow> lst h (case dropWhile P xs of [] \<Rightarrow> None | x # _ \<Rightarrow> Some x) (dropWhile P xs)"
  by (induction xs arbitrary: p) auto

lemma last_dropWhile_ne: "dropWhile P xs \<noteq> [] \<Longrightarrow> last (dropWhile P xs) = last xs"
  by (induction xs) (auto split: if_splits)

lemma filter_dropWhile_not: "filter P (dropWhile (\<lambda>t. \<not> P t) xs) = filter P xs"
  by (induction xs) auto

lemma queue_dropWhile:
  assumes "sm_queue s xs"
  defines "r \<equiv> dropWhile (\<lambda>t. \<not> sm_exclusive s t) xs" and "b \<equiv> takeWhile (\<lambda>t. \<not> sm_exclusive s t) xs"
  shows "sm_queue (s\<lparr>sm_state := st, sm_head := case r of [] \<Rightarrow> None | x # _ \<Rightarrow> Some x,
     sm_tail := if r = [] then None else sm_tail s, sm_shared_users := n, sm_holds := wake_all b Hold_shared (sm_holds s),
     sm_mutex := c\<rparr>) r"
proof -
  have l: "lst (sm_next s) (case r of [] \<Rightarrow> None | x # _ \<Rightarrow> Some x) r"
    using assms lst_dropWhile unfolding sm_queue_def r_def by blast
  have d: "distinct (b @ r)" using assms(1) lst_distinct unfolding sm_queue_def b_def r_def by (metis takeWhile_dropWhile_id)
  have "set r \<subseteq> set xs" unfolding r_def by (meson set_dropWhileD subsetI)
  then have "\<forall>t\<in>set r. wake_all b Hold_shared (sm_holds s) t = None" using d assms(1) by (auto simp: sm_queue_def)
  moreover have "r \<noteq> [] \<Longrightarrow> sm_tail s = Some (last r)"
    using assms(1) last_dropWhile_ne [of _ xs] unfolding r_def sm_queue_def by (cases "xs = []") auto
  ultimately show ?thesis using assms(1) l
    by (auto simp: sm_queue_def r_def filter_dropWhile_not simp del: wake_all_apply)
qed

lemma mode_batch_shared:
  assumes "holding Hold_shared h = {}" "holding Hold_exclusive h = {}" "distinct b" "b \<noteq> []"
    and "xs = [] \<or> ex (hd xs)"
  shows "sm_mode SM_locked_shared (length b) (wake_all b Hold_shared h) ex xs"
  using assms by (simp add: sm_mode_def distinct_card)

lemma sm_free_or_wake_after:
  assumes m: "sm_mutex s = CLocked ws" "unlock (CLocked ws) = Inr (w, c)" and q: "sm_queue s xs"
    and n: "holding Hold_shared (sm_holds s) = {}" "holding Hold_exclusive (sm_holds s) = {}" "sm_shared_users s = 0"
    and b: "sm_free_or_wake s = Inr (out, w', s')"
  shows "w' = w \<and> sm_mutex s' = c \<and> (\<exists>ys. sm_after t xs s s' ys) \<and>
    out = (if xs = [] then Unlock_free else Unlock_woke (sm_next_batch (sm_exclusive s) xs))"
proof (cases xs)
  case Nil
  have "sm_after t xs s (s\<lparr>sm_state := SM_unlocked, sm_mutex := c\<rparr>) []"
    using n q Nil by (simp add: sm_after_def sm_mode_def sm_queue_def)
  then show ?thesis using b Nil unfolding sm_free_or_wake_cases [OF m q] by auto
next
  case (Cons x r)
  have d: "distinct xs" using q lst_distinct unfolding sm_queue_def by blast
  show ?thesis
  proof (cases "sm_exclusive s x")
    case True
    let ?s = "s\<lparr>sm_state := SM_locked_exclusive, sm_head := sm_next s x,
              sm_tail := (if r = [] then None else sm_tail s), sm_exclusive_waiters := sm_exclusive_waiters s - 1,
              sm_mutex := c, sm_holds := (sm_holds s)(x := Some Hold_exclusive)\<rparr>"
    have "sm_queue ?s r" using q Cons True d by (auto simp: sm_queue_def)
    then have "sm_after t xs s ?s r" using n Cons by (auto simp: sm_after_def sm_mode_def)
    then show ?thesis using b Cons True unfolding sm_free_or_wake_cases [OF m q] by (auto simp: sm_next_batch_def)
  next
    case False
    let ?b = "takeWhile (\<lambda>t. \<not> sm_exclusive s t) xs" and ?r = "dropWhile (\<lambda>t. \<not> sm_exclusive s t) xs"
    have r: "set ?r \<subseteq> set xs" "set ?b \<subseteq> set xs" by (meson set_dropWhileD set_takeWhileD subsetI)+
    have "sm_mode SM_locked_shared (length ?b) (wake_all ?b Hold_shared (sm_holds s)) (sm_exclusive s) ?r"
      by (rule mode_batch_shared) (use n d False Cons hd_dropWhile [of "\<lambda>t. \<not> sm_exclusive s t" xs] in \<open>auto simp: distinct_takeWhile dest: set_takeWhileD\<close>)
    then have "sm_after t xs s (s\<lparr>sm_state := SM_locked_shared, sm_head := case ?r of [] \<Rightarrow> None | x # _ \<Rightarrow> Some x,
        sm_tail := if ?r = [] then None else sm_tail s, sm_shared_users := sm_shared_users s + length ?b,
        sm_holds := wake_all ?b Hold_shared (sm_holds s), sm_mutex := c\<rparr>) ?r"
      unfolding sm_after_def using queue_dropWhile [OF q] n r by auto
    then show ?thesis using b Cons False unfolding sm_free_or_wake_cases [OF m q]
      by (auto simp: sm_next_batch_def simp del: wake_all_apply takeWhile.simps dropWhile.simps)
  qed
qed

lemma sm_free_or_wake_total:
  assumes "sm_mutex s = CLocked ws" "unlock (CLocked ws) = Inr (w, c)" "sm_queue s xs"
  shows "\<exists>out s'. sm_free_or_wake s = Inr (out, w, s')"
  unfolding sm_free_or_wake_cases [OF assms] by (cases xs) auto

lemma sm_lock_after:
  assumes m: "sm_mutex s = CLocked ws" "unlock (CLocked ws) = Inr (w, c)" and q: "sm_queue s xs"
    and i: "sm_mode (sm_state s) (sm_shared_users s) (sm_holds s) (sm_exclusive s) xs"
    and t: "sm_holds s t = None" "t \<notin> set xs"
  shows "\<exists>out s' ys. sm_lock_locked b t s = Inr (out, w, s') \<and> sm_mutex s' = c \<and> sm_after t xs s s' ys"
proof -
  have nt: "t \<notin> holding Hold_shared (sm_holds s)" using t by (simp add: holding_def)
  consider "sm_state s = SM_unlocked" | "\<not> b" "sm_state s = SM_locked_shared" "sm_exclusive_waiters s = 0"
    | "sm_state s \<noteq> SM_unlocked" "\<not> (\<not> b \<and> sm_state s = SM_locked_shared \<and> sm_exclusive_waiters s = 0)" by (cases "sm_state s = SM_unlocked") auto
  then show ?thesis
  proof cases
    case 1
    let ?s = "s\<lparr>sm_state := (if b then SM_locked_exclusive else SM_locked_shared),
          sm_shared_users := sm_shared_users s + (if b then 0 else 1), sm_mutex := c,
          sm_holds := (sm_holds s)(t := Some (hold_mode b))\<rparr>"
    have "sm_queue ?s []" "xs = []" using q i 1 by (auto simp: sm_queue_def sm_mode_def)
    moreover have "sm_mode (sm_state ?s) (sm_shared_users ?s) (sm_holds ?s) (sm_exclusive ?s) []"
      using i 1 nt by (cases b) (auto simp: sm_mode_def)
    ultimately have "sm_after t xs s ?s []" by (simp add: sm_after_def)
    then show ?thesis using 1 unfolding sm_lock_locked_cases [OF m] by (intro exI conjI) auto
  next
    case 2
    let ?s = "s\<lparr>sm_shared_users := sm_shared_users s + 1, sm_mutex := c, sm_holds := (sm_holds s)(t := Some Hold_shared)\<rparr>"
    have xs: "xs = []" using 2 q i by (cases xs) (auto simp: sm_queue_def sm_mode_def)
    then have "sm_queue ?s []" using q by (simp add: sm_queue_def)
    moreover have "sm_mode (sm_state ?s) (sm_shared_users ?s) (sm_holds ?s) (sm_exclusive ?s) []"
      using i 2 nt t by (auto simp: sm_mode_def)
    ultimately have "sm_after t xs s ?s []" by (simp add: sm_after_def)
    then show ?thesis using 2 unfolding sm_lock_locked_cases [OF m] by (intro exI conjI) auto
  next
    case 3
    let ?s = "(sm_enqueue b t s)\<lparr>sm_mutex := c\<rparr>"
    have "sm_queue ?s (xs @ [t])" using sm_enqueue_queue [OF q t(2,1), of b] by (simp add: sm_queue_def)
    moreover have "xs = [] \<Longrightarrow> sm_state s = SM_locked_shared \<Longrightarrow> b" using 3 q by (auto simp: sm_queue_def)
    then have "sm_mode (sm_state s) (sm_shared_users s) (sm_holds s) ((sm_exclusive s)(t := b)) (xs @ [t])"
      using i 3(1) t(2) by (cases xs) (auto simp: sm_mode_def split: sm_state_t.splits)
    ultimately have "sm_after t xs s ?s (xs @ [t])" by (simp add: sm_after_def)
    then show ?thesis using 3 unfolding sm_lock_locked_cases [OF m] by (intro exI conjI) auto
  qed
qed

lemma sm_try_after:
  assumes m: "sm_mutex s = CLocked ws" "unlock (CLocked ws) = Inr (w, c)" and q: "sm_queue s xs"
    and i: "sm_mode (sm_state s) (sm_shared_users s) (sm_holds s) (sm_exclusive s) xs"
    and t: "sm_holds s t = None" "t \<notin> set xs"
  shows "\<exists>out s' ys. sm_try_lock_locked b t s = Inr (out, w, s') \<and> sm_mutex s' = c \<and> sm_after t xs s s' ys"
proof (cases "\<exists>b' s'. sm_lock_locked b t s = Inr (Lock_suspended b', w, s')")
  case True
  have "sm_after t xs s (s\<lparr>sm_mutex := c\<rparr>) xs" using q i by (auto simp: sm_after_def sm_queue_def)
  moreover from True obtain b' where "sm_try_lock_locked b t s = Inr (Try_failed b', w, s\<lparr>sm_mutex := c\<rparr>)"
    unfolding sm_try_lock_locked_cases [OF m] by auto
  ultimately show ?thesis by (intro exI conjI) auto
next
  case False
  from sm_lock_after [OF assms, of b] obtain out s' ys
    where o: "sm_lock_locked b t s = Inr (out, w, s')" "sm_mutex s' = c" "sm_after t xs s s' ys" by blast
  then have "sm_try_lock_locked b t s = Inr (out, w, s')" using False unfolding sm_try_lock_locked_cases [OF m]
    by (cases out) auto
  then show ?thesis using o by blast
qed

lemma sm_unlock_after:
  assumes m: "sm_mutex s = CLocked ws" "unlock (CLocked ws) = Inr (w, c)" and q: "sm_queue s xs"
    and t: "sm_holds s t \<noteq> None"
    and n: "holding Hold_shared (sm_holds s) - {t} = {}" "holding Hold_exclusive (sm_holds s) - {t} = {}" "users = 0"
  shows "\<exists>out s' ys. sm_free_or_wake (s\<lparr>sm_shared_users := users, sm_holds := (sm_holds s)(t := None)\<rparr>) = Inr (out, w, s') \<and>
    sm_mutex s' = c \<and> sm_after t xs s s' ys \<and>
    out = (if xs = [] then Unlock_free else Unlock_woke (sm_next_batch (sm_exclusive s) xs))"
proof -
  let ?s = "s\<lparr>sm_shared_users := users, sm_holds := (sm_holds s)(t := None)\<rparr>"
  have m': "sm_mutex ?s = CLocked ws" and q': "sm_queue ?s xs" using m q t by (auto simp: sm_queue_def)
  have n': "holding Hold_shared (sm_holds ?s) = {}" "holding Hold_exclusive (sm_holds ?s) = {}" "sm_shared_users ?s = 0"
    using n by simp_all
  obtain out s' where b: "sm_free_or_wake ?s = Inr (out, w, s')"
    using sm_free_or_wake_total [OF m' m(2) q'] by blast
  from sm_free_or_wake_after [OF m' m(2) q' n' b, of t] obtain ys
    where "sm_mutex s' = c" "sm_after t xs ?s s' ys"
      "out = (if xs = [] then Unlock_free else Unlock_woke (sm_next_batch (sm_exclusive ?s) xs))" by blast
  moreover from this(2) have "sm_after t xs s s' ys" by (simp add: sm_after_def)
  ultimately show ?thesis using b by auto
qed

lemma sm_body_after:
  assumes m: "sm_mutex s = CLocked ws" "unlock (CLocked ws) = Inr (w, c)" and q: "sm_queue s xs"
    and i: "sm_mode (sm_state s) (sm_shared_users s) (sm_holds s) (sm_exclusive s) xs" and can: "sm_can s t op"
  shows "\<exists>out s' ys. sm_body op t s = Inr (out, w, s') \<and> sm_mutex s' = c \<and> sm_after t xs s s' ys"
proof (cases op)
  case (SM_lock b)
  then show ?thesis using sm_lock_after [OF m q i] can sm_waiting_queue [OF q] by simp
next
  case (SM_try_lock b)
  then show ?thesis using sm_try_after [OF m q i] can sm_waiting_queue [OF q] by simp
next
  case SM_unlock
  then have t: "sm_holds s t = Some Hold_exclusive" using can by simp
  then have "t \<in> holding Hold_exclusive (sm_holds s)" by (simp add: holding_def)
  then have "holding Hold_shared (sm_holds s) = {}" "holding Hold_exclusive (sm_holds s) = {t}" "sm_shared_users s = 0"
    using i by (auto simp: sm_mode_def split: sm_state_t.splits)
  moreover from this have "sm_body op t s = sm_free_or_wake (s\<lparr>sm_shared_users := 0, sm_holds := (sm_holds s)(t := None)\<rparr>)"
    using SM_unlock by (cases s) (simp add: unlock_exclusive_locked_def)
  ultimately show ?thesis using sm_unlock_after [OF m q, of t 0] t by (simp; blast)
next
  case SM_unlock_shared
  then have t: "sm_holds s t = Some Hold_shared" using can by simp
  then have tin: "t \<in> holding Hold_shared (sm_holds s)" by (simp add: holding_def)
  then have r: "finite (holding Hold_shared (sm_holds s))" "card (holding Hold_shared (sm_holds s)) = sm_shared_users s"
    "holding Hold_exclusive (sm_holds s) = {}" "sm_state s = SM_locked_shared" "xs = [] \<or> sm_exclusive s (hd xs)"
    using i by (auto simp: sm_mode_def split: sm_state_t.splits)
  show ?thesis
  proof (cases "sm_shared_users s = 1")
    case True
    then have "holding Hold_shared (sm_holds s) = {t}" using r tin by (metis card_1_singletonE singletonD)
    then show ?thesis using sm_unlock_after [OF m q, of t 0] t r True SM_unlock_shared
      by (auto simp: unlock_shared_locked_def)
  next
    case False
    let ?s = "s\<lparr>sm_shared_users := sm_shared_users s - 1, sm_holds := (sm_holds s)(t := None), sm_mutex := c\<rparr>"
    have "card (holding Hold_shared (sm_holds s) - {t}) = sm_shared_users s - 1" using r tin by simp
    moreover have "sm_shared_users s \<noteq> 0" using r(1,2) tin card_eq_0_iff [of "holding Hold_shared (sm_holds s)"] by auto
    moreover have "holding Hold_shared (sm_holds s) - {t} \<noteq> {}"
    proof
      assume "holding Hold_shared (sm_holds s) - {t} = {}"
      then have "holding Hold_shared (sm_holds s) = {t}" using tin by blast
      then show False using r(2) False by simp
    qed
    ultimately have "sm_mode SM_locked_shared (sm_shared_users s - 1) ((sm_holds s)(t := None)) (sm_exclusive s) xs"
      using r by (simp add: sm_mode_def)
    then have "sm_after t xs s ?s xs" using q r t by (auto simp: sm_after_def sm_queue_def)
    then show ?thesis using False SM_unlock_shared m
      by (intro exI conjI) (auto simp: unlock_shared_locked_def Let_def sm_unlock_locked [OF _ m(2)])
  qed
qed

lemma sm_body_effect:
  assumes m: "sm_mutex s = CLocked ws" and b: "sm_body op t s = Inr (out, w, s')" and i: "sm_inv s" and c: "sm_can s t op"
  shows "unlock (CLocked ws) = Inr (w, sm_mutex s')" and "sm_inv s'" and "u \<noteq> t \<Longrightarrow> sm_can s u op' \<Longrightarrow> sm_can s' u op'"
proof -
  obtain w0 c0 where u0: "unlock (CLocked ws) = Inr (w0, c0)" using unlock_locked by blast
  obtain xs where xs: "sm_queue s xs" "sm_mode (sm_state s) (sm_shared_users s) (sm_holds s) (sm_exclusive s) xs"
    using i by (auto simp: sm_inv_def)
  from sm_body_after [OF m u0 xs c] b obtain ys where ys: "w = w0" "sm_mutex s' = c0" "sm_after t xs s s' ys" by auto
  show "unlock (CLocked ws) = Inr (w, sm_mutex s')" using u0 ys by simp
  show "sm_inv s'" using ys by (auto simp: sm_inv_def sm_after_def)
  assume u: "u \<noteq> t" "sm_can s u op'"
  have "u \<notin> set xs" using u(2) xs(1) sm_waiting_queue [OF xs(1)] by (cases op') (auto simp: sm_queue_def)
  then have "sm_holds s' u = sm_holds s u" "\<not> sm_waiting s' u"
    using u(1) ys(3) sm_waiting_queue [of s' ys] unfolding sm_after_def by auto
  then show "sm_can s' u op'" using u(2) by (cases op') auto
qed

lemma sm_body_total:
  assumes "sm_mutex s = CLocked ws" "sm_inv s" "sm_can s t op"
  shows "\<exists>out w s'. sm_body op t s = Inr (out, w, s')"
  using unlock_locked [of ws] sm_body_after [OF assms(1) _ _ _ assms(3)] assms(2) unfolding sm_inv_def by blast

lemma sm_basic [simp]:
  "sm_inv (s\<lparr>sm_mutex := m\<rparr>) = sm_inv s" "sm_can (s\<lparr>sm_mutex := m\<rparr>) t op = sm_can s t op"
  by (auto simp: sm_inv_def sm_queue_def) (cases op; simp add: sm_waiting_def)+

lemma sm_init_inv: "sm_init s \<Longrightarrow> sm_mutex s = CUnlocked" "sm_init s \<Longrightarrow> sm_inv s"
proof -
  assume "sm_init s"
  then have s: "Inr s = shared_mutex_new False" by (simp add: sm_init_def)
  then show "sm_mutex s = CUnlocked" by (simp add: shared_mutex_new_def)
  have "sm_queue s [] \<and> sm_mode (sm_state s) (sm_shared_users s) (sm_holds s) (sm_exclusive s) []"
    using s by (simp add: shared_mutex_new_def sm_queue_def sm_mode_def holding_def)
  then show "sm_inv s" unfolding sm_inv_def by blast
qed

lemma sm_free_effect: "sm_free t s out s' \<Longrightarrow> s' = s"
  by (cases rule: sm_free.cases) auto

interpretation sm: monitor sm_mutex "\<lambda>m s. s\<lparr>sm_mutex := m\<rparr>" sm_start sm_can sm_body sm_free sm_init sm_inv
proof
  fix s :: shared_mutex and t op ws
  assume i: "sm_inv s" and c: "sm_can s t op" and l: "sm_mutex s = CLocked ws"
  show "\<exists>out w s'. sm_body op t s = Inr (out, w, s') \<and> unlock (CLocked ws) = Inr (w, sm_mutex s')"
    using sm_body_total [OF l i c] sm_body_effect(1) [OF l _ i c] by blast
next
  fix s s' :: shared_mutex and t out
  assume i: "sm_inv s" and f: "sm_free t s out s'"
  show "sm_mutex s' = sm_mutex s" "sm_inv s'" using i sm_free_effect [OF f] by simp_all
  show "u \<noteq> t \<Longrightarrow> sm_can s u op' \<Longrightarrow> sm_can s' u op'" for u op' using sm_free_effect [OF f] by simp
qed (simp; fail | rule sm_body_effect sm_init_inv, assumption+ | rule sm_init_inv sm_body_effect)+

text \<open>The last release, with the holders it leaves.\<close>

lemma sm_release_holders:
  assumes m: "sm_mutex s = CLocked ws" "unlock (CLocked ws) = Inr (w, c)" and q: "sm_queue s xs"
    and n: "\<And>u. sm_holds s u = None"
  shows "\<exists>obj. sm_free_or_wake s = Inr (if xs = [] then Unlock_free else Unlock_woke (sm_next_batch (sm_exclusive s) xs), w, obj) \<and>
    sm_holds obj = (\<lambda>u. if u \<in> set (sm_next_batch (sm_exclusive s) xs) then Some (hold_mode (sm_exclusive s (hd xs))) else None)"
proof (cases xs)
  case Nil
  then show ?thesis using n unfolding sm_free_or_wake_cases [OF m q] by (auto simp: sm_next_batch_def)
next
  case (Cons x r)
  then show ?thesis using n unfolding sm_free_or_wake_cases [OF m q]
    by (cases "sm_exclusive s x") (auto simp: sm_next_batch_def fun_eq_iff simp del: takeWhile.simps)
qed

lemma sm_try_waiting:
  assumes "sm_queue s xs" and "sm_mode (sm_state s) (sm_shared_users s) (sm_holds s) (sm_exclusive s) xs" and "xs \<noteq> []"
  shows "sm_try b s = (False, s)"
  using assms by (cases xs)
    (auto simp: sm_try_def try_lock_locked_def try_lock_shared_locked_def sm_mode_def sm_queue_def split: sm_state_t.splits if_splits)

lemma sm_last_release:
  assumes m: "sm_mutex s = CLocked ws" and q: "sm_queue s xs"
    and i: "sm_mode (sm_state s) (sm_shared_users s) (sm_holds s) (sm_exclusive s) xs" and can: "sm_can s t op"
    and op: "op = SM_unlock \<or> op = SM_unlock_shared \<and> sm_shared_users s = 1"
  shows "\<exists>w obj. sm_body op t s = Inr (if xs = [] then Unlock_free else Unlock_woke (sm_next_batch (sm_exclusive s) xs), w, obj) \<and>
    sm_holds obj = (\<lambda>u. if u \<in> set (sm_next_batch (sm_exclusive s) xs) then Some (hold_mode (sm_exclusive s (hd xs))) else None)"
proof -
  obtain w c where u: "unlock (CLocked ws) = Inr (w, c)" using unlock_locked by blast
  have only: "v = t" if "sm_holds s v = Some h" for v h
  proof -
    have "v \<in> holding h (sm_holds s)" using that by (simp add: holding_def)
    moreover have "op = SM_unlock \<Longrightarrow> t \<in> holding Hold_exclusive (sm_holds s)"
      "op = SM_unlock_shared \<Longrightarrow> t \<in> holding Hold_shared (sm_holds s)" using can by (auto simp: holding_def)
    moreover have "sm_shared_users s = 1 \<Longrightarrow> \<exists>x. holding Hold_shared (sm_holds s) = {x}"
      using i by (simp add: sm_mode_def card_1_singleton_iff)
    ultimately show ?thesis using i op
      by (cases h) (auto simp: sm_mode_def split: sm_state_t.splits)
  qed
  let ?s = "if op = SM_unlock then s\<lparr>sm_holds := (sm_holds s)(t := None)\<rparr>
    else s\<lparr>sm_shared_users := sm_shared_users s - 1, sm_holds := (sm_holds s)(t := None)\<rparr>"
  have "sm_mutex ?s = CLocked ws" "sm_queue ?s xs" "sm_exclusive ?s = sm_exclusive s" using m q by (auto simp: sm_queue_def)
  moreover have "sm_holds ?s v = None" for v using only [of v] by (cases "sm_holds s v") auto
  moreover have "sm_body op t s = sm_free_or_wake ?s"
    using op by (auto simp: unlock_exclusive_locked_def unlock_shared_locked_def)
  ultimately show ?thesis using sm_release_holders [of ?s ws w c xs] u by metis
qed

lemma sm_queue_empty: "sm_head s = None \<Longrightarrow> sm_tail s = None \<Longrightarrow> sm_exclusive_waiters s = 0 \<Longrightarrow> sm_queue s []"
  by (simp add: sm_queue_def)

section \<open>Properties\<close>

text \<open>C12: the shared mutex excludes.  In every execution a coroutine that holds the lock in exclusive mode is the
  only holder in any mode, \<open>m_shared_users\<close> is the number of coroutines that hold it in shared mode,
  \<open>m_exclusive_waiters\<close> is the number of writers in the list of waiters, and while nobody holds the lock
  nobody waits for it.\<close>

theorem shared_mutex_excludes:
  assumes "reach (mon_init sm_init) sm_step s"
  shows "(sm_holds (mon_obj s) u = Some Hold_exclusive \<and> sm_holds (mon_obj s) v \<noteq> None \<longrightarrow> v = u) \<and>
    sm_shared_users (mon_obj s) = card (holding Hold_shared (sm_holds (mon_obj s))) \<and>
    (\<exists>xs. lst (sm_next (mon_obj s)) (sm_head (mon_obj s)) xs \<and>
       sm_exclusive_waiters (mon_obj s) = length (filter (sm_exclusive (mon_obj s)) xs) \<and>
       ((\<forall>t. sm_holds (mon_obj s) t = None) \<longrightarrow> xs = []))"
proof -
  obtain xs where xs: "sm_queue (mon_obj s) xs"
      "sm_mode (sm_state (mon_obj s)) (sm_shared_users (mon_obj s)) (sm_holds (mon_obj s)) (sm_exclusive (mon_obj s)) xs"
    using sm.obj_inv [OF assms] by (auto simp: sm_inv_def)
  have "v = u" if "sm_holds (mon_obj s) u = Some Hold_exclusive" "sm_holds (mon_obj s) v = Some h" for h
  proof -
    have "u \<in> holding Hold_exclusive (sm_holds (mon_obj s))" "v \<in> holding h (sm_holds (mon_obj s))" using that by (simp_all add: holding_def)
    then show ?thesis using xs(2) by (cases h) (auto simp: sm_mode_def split: sm_state_t.splits)
  qed
  moreover have "xs = []" if "\<forall>t. sm_holds (mon_obj s) t = None"
  proof -
    have "holding h (sm_holds (mon_obj s)) = {}" for h using that by (simp add: holding_def)
    then show ?thesis using xs(2) by (auto simp: sm_mode_def split: sm_state_t.splits)
  qed
  moreover have "sm_shared_users (mon_obj s) = card (holding Hold_shared (sm_holds (mon_obj s)))"
    using xs(2) by (simp add: sm_mode_def)
  ultimately show ?thesis using xs(1) unfolding sm_queue_def by blast
qed

text \<open>C13: the shared mutex serves in order of arrival.  While anybody waits, no further request gets through, in
  either mode; and the release by the last holder runs to its end and hands the lock over to the first
  waiter if that is a writer, and otherwise to all readers before the first waiting writer: these are the
  holders afterwards, and nobody else is.\<close>

theorem shared_mutex_fifo:
  assumes "reach (mon_init sm_init) sm_step s" and "lst (sm_next (mon_obj s)) (sm_head (mon_obj s)) xs"
  shows "(xs \<noteq> [] \<longrightarrow> sm_try b (mon_obj s) = (False, mon_obj s)) \<and>
    (mon_ph s t = Entered op \<and> (op = SM_unlock \<or> op = SM_unlock_shared \<and> sm_shared_users (mon_obj s) = 1) \<longrightarrow>
      (\<exists>w obj. sm_body op t (mon_obj s) =
          Inr (if xs = [] then Unlock_free else Unlock_woke (sm_next_batch (sm_exclusive (mon_obj s)) xs), w, obj) \<and>
        sm_holds obj = (\<lambda>u. if u \<in> set (sm_next_batch (sm_exclusive (mon_obj s)) xs)
          then Some (hold_mode (sm_exclusive (mon_obj s) (hd xs))) else None)))"
proof -
  have m: "sm.minv s" by (rule sm.minv_reach [OF assms(1)])
  obtain ys where ys: "sm_queue (mon_obj s) ys"
      "sm_mode (sm_state (mon_obj s)) (sm_shared_users (mon_obj s)) (sm_holds (mon_obj s)) (sm_exclusive (mon_obj s)) ys"
    using sm.obj_inv [OF assms(1)] by (auto simp: sm_inv_def)
  have "ys = xs" using lst_unique assms(2) ys(1) unfolding sm_queue_def by blast
  note xs = ys [unfolded this]
  have "\<exists>ws. sm_mutex (mon_obj s) = CLocked ws" "sm_can (mon_obj s) t op" if "mon_ph s t = Entered op"
    using sm.entered_locked [OF m that] m that by (auto simp: sm.minv_def)
  then show ?thesis using sm_try_waiting [OF xs] sm_last_release [OF _ xs] by blast
qed

text \<open>A scoped task that throws leaves the shared mutex locked.  \<open>scoped_lock\<close> and \<open>scoped_lock_shared\<close>
  release the lock when the scoped task returns; when it throws, the exception leaves before the
  call of \<open>unlock\<close>, and the lock stays held for ever.\<close>

theorem shared_mutex_scoped_throw_leaks:
  assumes "shared_mutex_new False = Inr s"
  shows "(\<exists>s'. sm_scoped_lock exclusive t (Inr ()) s = Some (Inr (), s') \<and> sm_state s' = SM_unlocked \<and> sm_holds s' t = None) \<and>
    (\<exists>s'. sm_scoped_lock exclusive t (Inl e) s = Some (Inl e, s') \<and> sm_state s' \<noteq> SM_unlocked \<and>
       sm_holds s' t = Some (hold_mode exclusive))"
proof -
  let ?l = "s\<lparr>sm_state := (if exclusive then SM_locked_exclusive else SM_locked_shared),
          sm_shared_users := (if exclusive then 0 else 1), sm_mutex := CUnlocked,
          sm_holds := (\<lambda>_. None)(t := Some (hold_mode exclusive))\<rparr>"
  have s: "s = the (case shared_mutex_new False of Inr s \<Rightarrow> Some s | _ \<Rightarrow> None)" using assms by simp
  have "sm_run (SM_lock exclusive) t s = Some (Lock_ready exclusive, ?l)"
    unfolding s by (simp add: sm_run_def shared_mutex_new_def sm_lock_locked_cases [of _ "[]" None CUnlocked])
  moreover have q: "sm_head s = None" "sm_tail s = None" "sm_exclusive_waiters s = 0"
    unfolding s by (simp_all add: shared_mutex_new_def)
  have "\<exists>s'. sm_run (if exclusive then SM_unlock else SM_unlock_shared) t ?l = Some (Unlock_free, s') \<and>
      sm_state s' = SM_unlocked \<and> sm_holds s' t = None"
    by (cases exclusive)
      (simp_all add: sm_run_def unlock_exclusive_locked_def unlock_shared_locked_def
        sm_free_or_wake_cases [OF _ _ sm_queue_empty, of _ "[]" None CUnlocked] q)
  ultimately show ?thesis by (auto simp: sm_scoped_lock_def)
qed

section \<open>Witnesses\<close>

definition sm_demo0 :: shared_mutex where
  "sm_demo0 = \<lparr>sm_mutex = CUnlocked, sm_state = SM_unlocked, sm_shared_users = 0, sm_exclusive_waiters = 0,
     sm_head = None, sm_tail = None, sm_next = \<lambda>_. None, sm_exclusive = \<lambda>_. False, sm_holds = \<lambda>_. None\<rparr>"

text \<open>Coroutine 1 holds the lock in exclusive mode and has entered \<open>unlock\<close>; coroutine 2 waits to read.\<close>

lemma sm_demo:
  "reach (mon_init sm_init) sm_step
    \<lparr>mon_obj = sm_demo0\<lparr>sm_mutex := CLocked [], sm_state := SM_locked_exclusive, sm_head := Some 2, sm_tail := Some 2,
       sm_holds := (\<lambda>_. None)(1 := Some Hold_exclusive)\<rparr>,
     mon_ph = (\<lambda>_. Outside)(1 := Entered SM_unlock), mon_log = [(2, Lock_suspended False), (1, Lock_ready True)]\<rparr>"
proof -
  let ?R = "reach (mon_init sm_init) sm_step"
  let ?out = "\<lambda>_. Outside :: sm_op phase"
  let ?a = "sm_demo0\<lparr>sm_state := SM_locked_exclusive, sm_holds := (\<lambda>_. None)(1 := Some Hold_exclusive)\<rparr>"
  let ?b = "?a\<lparr>sm_head := Some 2, sm_tail := Some 2\<rparr>"
  have 0: "?R \<lparr>mon_obj = sm_demo0, mon_ph = ?out, mon_log = []\<rparr>"
    by (rule reach_init) (simp add: mon_init_def sm_init_def shared_mutex_new_def sm_demo0_def)
  have 1: "?R \<lparr>mon_obj = sm_demo0\<lparr>sm_mutex := CLocked []\<rparr>, mon_ph = ?out(1 := Entered (SM_lock True)), mon_log = []\<rparr>"
    by (rule reach_enter [OF 0, where t = 1 and op = "SM_lock True" and susp = False and m = "CLocked []"])
      (simp_all add: sm_demo0_def sm_waiting_def)
  have 2: "?R \<lparr>mon_obj = ?a, mon_ph = ?out, mon_log = [(1, Lock_ready True)]\<rparr>"
    by (rule reach_body [OF 1, where t = 1 and op = "SM_lock True" and w = None and out = "Lock_ready True" and obj = ?a])
      (simp_all add: sm_demo0_def sm_lock_locked_cases [of _ "[]" None CUnlocked])
  have 3: "?R \<lparr>mon_obj = ?a\<lparr>sm_mutex := CLocked []\<rparr>, mon_ph = ?out(2 := Entered (SM_lock False)), mon_log = [(1, Lock_ready True)]\<rparr>"
    by (rule reach_enter [OF 2, where t = 2 and op = "SM_lock False" and susp = False and m = "CLocked []"])
      (simp_all add: sm_demo0_def sm_waiting_def)
  have 4: "?R \<lparr>mon_obj = ?b, mon_ph = ?out, mon_log = [(2, Lock_suspended False), (1, Lock_ready True)]\<rparr>"
    by (rule reach_body [OF 3, where t = 2 and op = "SM_lock False" and w = None and out = "Lock_suspended False" and obj = ?b])
      (simp_all add: sm_demo0_def sm_lock_locked_cases [of _ "[]" None CUnlocked] sm_enqueue_def)
  show ?thesis
    by (rule reach_enter [OF 4, where t = 1 and op = SM_unlock and susp = False and m = "CLocked []"])
      (simp_all add: sm_demo0_def)
qed

theorem shared_mutex_excludes_witness:
  "card (holding Hold_shared (sm_holds (sm_demo0\<lparr>sm_holds := (\<lambda>_. None)(1 := Some Hold_exclusive)\<rparr>))) = 0"
  using shared_mutex_excludes [OF sm_demo, of 1 1] by (simp add: sm_demo0_def)

theorem shared_mutex_fifo_witness:
  "\<exists>w obj. sm_body SM_unlock 1 (sm_demo0\<lparr>sm_mutex := CLocked [], sm_state := SM_locked_exclusive, sm_head := Some 2,
       sm_tail := Some 2, sm_holds := (\<lambda>_. None)(1 := Some Hold_exclusive)\<rparr>) = Inr (Unlock_woke [2], w, obj) \<and>
     sm_holds obj = (\<lambda>u. if u = 2 then Some Hold_shared else None)"
  using shared_mutex_fifo [OF sm_demo, of "[2]" True 1 SM_unlock]
  by (simp add: sm_demo0_def sm_next_batch_def cong: if_cong)

theorem shared_mutex_scoped_throw_leaks_witness:
  "\<exists>s'. sm_scoped_lock True 1 (Inl (User_exn 7)) sm_demo0 = Some (Inl (User_exn 7), s') \<and> sm_holds s' 1 = Some Hold_exclusive"
  using shared_mutex_scoped_throw_leaks [of sm_demo0 True 1 "User_exn 7"] by (auto simp: shared_mutex_new_def sm_demo0_def)

end
