(* ===== verification/ThreadPool.thy ===== *)
theory ThreadPool
  imports Prelude "HOL-Library.Multiset"
begin

text \<open>
  The thread pool of \<open>include/coro/thread_pool.hpp\<close> and \<open>src/thread_pool.cpp\<close>: any number of callers and a fixed number of
  executor threads.  Each atomic operation and each section under \<open>m_wait_mutex\<close> is one step, and all
  interleavings are considered, spurious wake-ups of the condition variable included.  The body of a resumed coroutine shows
  up as the calls it makes.  The invariants account for \<open>m_size\<close>, for the queue, for the notifications
  and for what precedes a shutdown.
\<close>

section \<open>State\<close>

text \<open>
  Where an executor thread is in \<open>executor\<close>: before the start functor; at the test of the first loop;
  about to lock \<open>m_wait_mutex\<close>; asleep on \<open>m_wait_cv\<close>, notified or not; resuming a coroutine, or just
  after that; at the test of the second loop, about to lock there; before the stop functor; returned.
  The flag of the middle two tells the loops apart.
\<close>

datatype wphase =
    W_start
  | W_test
  | W_lock
  | W_asleep bool
  | W_run handle bool
  | W_ran bool
  | W_drain_test
  | W_drain
  | W_stop
  | W_done

datatype tp_op =
    Op_schedule
  | Op_resume ptr
  | Op_spawn_detached handle
  | Op_resume_range "ptr list"
  | Op_shutdown

text \<open>Where a caller is inside an operation of the pool.\<close>

datatype cphase =
    C_idle
  | C_sched_check
  | C_sched_undo
  | C_sched_op
  | C_spawn handle
  | C_resume_check handle
  | C_resume_undo
  | C_resume_push handle
  | C_range "ptr list"
  | C_range_nulls nat nat
  | C_notify_all nat
  | C_notify nat nat
  | C_shut_notify
  | C_shut_join

datatype tp_ret = Ret_throw exn | Ret_suspended | Ret_bool bool | Ret_count nat | Ret_unit

text \<open>
  \<open>tp_done\<close> is \<open>coroutine_handle::done\<close>; \<open>tp_live\<close> are the wrapper tasks of \<open>spawn_detached\<close> that have not reached
  their final suspend point.  The last fields record an execution: the handles put into the queue, those
  taken from it, those whose \<open>resume\<close> has returned, how many had been put in when the shutdown was
  requested, how many scheduled handles were dropped, and what the calls returned.
\<close>

record thread_pool =
  tp_queue :: "handle list"
  tp_size :: nat
  tp_shutdown_requested :: bool
  tp_thread_count :: nat
  tp_worker :: "nat \<Rightarrow> wphase"
  tp_client :: "handle \<Rightarrow> cphase"
  tp_done :: "handle \<Rightarrow> bool"
  tp_live :: "handle set"
  tp_accepted :: "handle list"
  tp_taken :: "handle list"
  tp_resumed :: "handle list"
  tp_cut :: "nat option"
  tp_dropped :: nat
  tp_log :: "(handle \<times> tp_ret) list"

definition thread_pool_new :: "nat \<Rightarrow> thread_pool" where
  "thread_pool_new thread_count =
     \<lparr>tp_queue = [], tp_size = 0, tp_shutdown_requested = False, tp_thread_count = thread_count,
      tp_worker = \<lambda>_. W_start, tp_client = \<lambda>_. C_idle, tp_done = \<lambda>_. False, tp_live = {},
      tp_accepted = [], tp_taken = [], tp_resumed = [], tp_cut = None, tp_dropped = 0, tp_log = []\<rparr>"

definition tp_is_shutdown :: "thread_pool \<Rightarrow> bool" where
  "tp_is_shutdown s = tp_shutdown_requested s"

definition tp_empty :: "thread_pool \<Rightarrow> bool" where
  "tp_empty s \<longleftrightarrow> tp_size s = 0"

definition tp_queue_size :: "thread_pool \<Rightarrow> nat" where
  "tp_queue_size s = length (tp_queue s)"

definition tp_queue_empty :: "thread_pool \<Rightarrow> bool" where
  "tp_queue_empty s \<longleftrightarrow> tp_queue_size s = 0"

section \<open>The condition variable and the queue\<close>

definition asleep :: "thread_pool \<Rightarrow> nat \<Rightarrow> bool" where
  "asleep s w \<longleftrightarrow> w < tp_thread_count s \<and> tp_worker s w = W_asleep False"

text \<open>
  \<open>notify_one\<close> wakes some thread that is blocked on the condition variable; which one is the argument, \<open>None\<close>
  when none is blocked.
\<close>

definition notify_one :: "nat option \<Rightarrow> thread_pool \<Rightarrow> thread_pool option" where
  "notify_one v s =
     (case v of
        None \<Rightarrow> if list_all (\<lambda>w. \<not> asleep s w) [0..<tp_thread_count s] then Some s else None
      | Some w \<Rightarrow> if asleep s w then Some (s\<lparr>tp_worker := (tp_worker s)(w := W_asleep True)\<rparr>) else None)"

definition notify_all :: "thread_pool \<Rightarrow> thread_pool" where
  "notify_all s = s\<lparr>tp_worker := (\<lambda>w. if asleep s w then W_asleep True else tp_worker s w)\<rparr>"

definition enqueue :: "handle list \<Rightarrow> thread_pool \<Rightarrow> thread_pool" where
  "enqueue hs s = s\<lparr>tp_queue := tp_queue s @ hs, tp_accepted := tp_accepted s @ hs\<rparr>"

text \<open>\<open>schedule_impl\<close>: nothing for a coroutine that is done.\<close>

definition schedule_impl :: "nat option \<Rightarrow> handle \<Rightarrow> thread_pool \<Rightarrow> thread_pool option" where
  "schedule_impl v h s =
     (if tp_done s h then Some (s\<lparr>tp_dropped := tp_dropped s + 1\<rparr>) else notify_one v (enqueue [h] s))"

section \<open>The executor threads\<close>

definition take_front :: "nat \<Rightarrow> bool \<Rightarrow> thread_pool \<Rightarrow> thread_pool option" where
  "take_front w drain s =
     (case tp_queue s of
        [] \<Rightarrow> None
      | h # q \<Rightarrow> Some (s\<lparr>tp_queue := q, tp_taken := tp_taken s @ [h], tp_worker := (tp_worker s)(w := W_run h drain)\<rparr>))"

definition goto :: "nat \<Rightarrow> wphase \<Rightarrow> thread_pool \<Rightarrow> thread_pool" where
  "goto w p s = s\<lparr>tp_worker := (tp_worker s)(w := p)\<rparr>"

text \<open>The wait of the first loop with \<open>m_wait_mutex\<close> held: sleep unless the predicate holds.\<close>

definition wait_locked :: "nat \<Rightarrow> thread_pool \<Rightarrow> thread_pool option" where
  "wait_locked w s =
     (if tp_queue s \<noteq> [] \<or> tp_shutdown_requested s
      then (if tp_queue s = [] then Some (goto w W_test s) else take_front w False s)
      else Some (goto w (W_asleep False) s))"

text \<open>\<open>executor\<close>, one step of thread \<open>w\<close>; the body of a resumed coroutine is not a step of its own.\<close>

definition executor :: "nat \<Rightarrow> thread_pool \<Rightarrow> thread_pool option" where
  "executor w s =
     (case tp_worker s w of
        W_start \<Rightarrow> Some (goto w W_test s)
      | W_test \<Rightarrow> Some (goto w (if tp_shutdown_requested s then W_drain_test else W_lock) s)
      | W_lock \<Rightarrow> wait_locked w s
      | W_asleep notified \<Rightarrow> wait_locked w s
      | W_run h drain \<Rightarrow> None
      | W_ran drain \<Rightarrow>
          Some (goto w (if drain then W_drain_test else W_test) (s\<lparr>tp_size := tp_size s - 1\<rparr>))
      | W_drain_test \<Rightarrow> Some (goto w (if 0 < tp_size s then W_drain else W_stop) s)
      | W_drain \<Rightarrow> if tp_queue s = [] then Some (goto w W_stop s) else take_front w True s
      | W_stop \<Rightarrow> Some (goto w W_done s)
      | W_done \<Rightarrow> None)"

text \<open>\<open>handle.resume()\<close> returns: the coroutine has suspended again or it is done.\<close>

definition resume_returns :: "nat \<Rightarrow> bool \<Rightarrow> thread_pool \<Rightarrow> thread_pool option" where
  "resume_returns w finished s =
     (case tp_worker s w of
        W_run h drain \<Rightarrow>
          Some (goto w (W_ran drain) (s\<lparr>tp_resumed := tp_resumed s @ [h], tp_done := (tp_done s)(h := finished)\<rparr>))
      | _ \<Rightarrow> None)"

section \<open>The operations\<close>

definition at :: "handle \<Rightarrow> cphase \<Rightarrow> thread_pool \<Rightarrow> thread_pool" where
  "at c p s = s\<lparr>tp_client := (tp_client s)(c := p)\<rparr>"

definition returns :: "handle \<Rightarrow> tp_ret \<Rightarrow> thread_pool \<Rightarrow> thread_pool" where
  "returns c r s = at c C_idle (s\<lparr>tp_log := (c, r) # tp_log s\<rparr>)"

definition fetch_add :: "nat \<Rightarrow> thread_pool \<Rightarrow> thread_pool" where
  "fetch_add n s = s\<lparr>tp_size := tp_size s + n\<rparr>"

definition fetch_sub :: "nat \<Rightarrow> thread_pool \<Rightarrow> thread_pool" where
  "fetch_sub n s = s\<lparr>tp_size := tp_size s - n\<rparr>"

text \<open>
  The first atomic step of an operation that \<open>c\<close> calls.  \<open>spawn_detached\<close> wraps its task in a coroutine of its
  own, which is new.  \<open>shutdown\<close> does nothing when it is not the first.
\<close>

primrec call :: "handle \<Rightarrow> tp_op \<Rightarrow> thread_pool \<Rightarrow> thread_pool option" where
  "call c Op_schedule s = Some (at c C_sched_check (fetch_add 1 s))"
| "call c (Op_resume p) s =
     (case p of
        None \<Rightarrow> Some (returns c (Ret_bool False) s)
      | Some h \<Rightarrow> if tp_done s h then Some (returns c (Ret_bool False) s) else Some (at c (C_resume_check h) (fetch_add 1 s)))"
| "call c (Op_spawn_detached h) s =
     (if h \<in> tp_live s \<or> tp_done s h then None
      else Some (at c (C_spawn h) (fetch_add 1 (s\<lparr>tp_live := insert h (tp_live s)\<rparr>))))"
| "call c (Op_resume_range hs) s = Some (at c (C_range hs) (fetch_add (length hs) s))"
| "call c Op_shutdown s =
     (if tp_shutdown_requested s then Some (returns c Ret_unit s)
      else Some (at c C_shut_notify (s\<lparr>tp_shutdown_requested := True, tp_cut := Some (length (tp_accepted s))\<rparr>)))"

definition null_count :: "ptr list \<Rightarrow> nat" where
  "null_count hs = length (filter (\<lambda>p. p = None) hs)"

text \<open>The further steps; \<open>v\<close> is the thread that a \<open>notify_one\<close> wakes.\<close>

definition continue_call :: "nat option \<Rightarrow> handle \<Rightarrow> thread_pool \<Rightarrow> thread_pool option" where
  "continue_call v c s =
     (case tp_client s c of
        C_idle \<Rightarrow> None
      | C_sched_check \<Rightarrow> Some (at c (if tp_shutdown_requested s then C_sched_undo else C_sched_op) s)
      | C_sched_undo \<Rightarrow>
          Some (returns c (Ret_throw (Runtime_error ''coro::thread_pool is shutting down, unable to schedule new tasks.''))
            (fetch_sub 1 s))
      | C_sched_op \<Rightarrow> map_option (returns c Ret_suspended) (schedule_impl v c s)
      | C_spawn h \<Rightarrow> Some (at c (C_resume_check h) (fetch_add 1 s))
      | C_resume_check h \<Rightarrow> Some (at c (if tp_shutdown_requested s then C_resume_undo else C_resume_push h) s)
      | C_resume_undo \<Rightarrow> Some (returns c (Ret_bool False) (fetch_sub 1 s))
      | C_resume_push h \<Rightarrow> map_option (returns c (Ret_bool True)) (schedule_impl v h s)
      | C_range hs \<Rightarrow>
          Some (at c (C_range_nulls (null_count hs) (length hs - null_count hs)) (enqueue (List.map_filter id hs) s))
      | C_range_nulls nulls n \<Rightarrow>
          Some (at c (if tp_thread_count s \<le> n then C_notify_all n else C_notify n n) (fetch_sub nulls s))
      | C_notify_all n \<Rightarrow> Some (returns c (Ret_count n) (notify_all s))
      | C_notify i n \<Rightarrow>
          if i = 0 then Some (returns c (Ret_count n) s) else map_option (at c (C_notify (i - 1) n)) (notify_one v s)
      | C_shut_notify \<Rightarrow> Some (at c C_shut_join (notify_all s))
      | C_shut_join \<Rightarrow>
          if list_all (\<lambda>w. tp_worker s w = W_done) [0..<tp_thread_count s] then Some (returns c Ret_unit s) else None)"

text \<open>A wrapper task that has run reaches its final suspend point and calls the function given to \<open>user_final_suspend\<close>.\<close>

definition detached_final_suspend :: "handle \<Rightarrow> thread_pool \<Rightarrow> thread_pool option" where
  "detached_final_suspend h s =
     (if h \<in> tp_live s \<and> h \<in> set (tp_taken s) then Some (fetch_sub 1 (s\<lparr>tp_live := tp_live s - {h}\<rparr>)) else None)"

section \<open>Executions\<close>

inductive tp_step :: "thread_pool \<Rightarrow> thread_pool \<Rightarrow> bool" where
  tp_worker: "w < tp_thread_count s \<Longrightarrow> executor w s = Some s' \<Longrightarrow> tp_step s s'"
| tp_resume: "w < tp_thread_count s \<Longrightarrow> resume_returns w finished s = Some s' \<Longrightarrow> tp_step s s'"
| tp_call: "tp_client s c = C_idle \<Longrightarrow> call c op s = Some s' \<Longrightarrow> tp_step s s'"
| tp_continue: "continue_call v c s = Some s' \<Longrightarrow> tp_step s s'"
| tp_final: "detached_final_suspend h s = Some s' \<Longrightarrow> tp_step s s'"

definition tp_init :: "nat \<Rightarrow> thread_pool \<Rightarrow> bool" where
  "tp_init n s \<longleftrightarrow> s = thread_pool_new n"

section \<open>The invariants\<close>

text \<open>What a caller has added to \<open>m_size\<close> beyond what is in the queue, and the notifications it still owes.\<close>

fun reserved :: "cphase \<Rightarrow> nat" where
  "reserved C_sched_check = 1"
| "reserved C_sched_undo = 1"
| "reserved C_sched_op = 1"
| "reserved (C_resume_check h) = 1"
| "reserved C_resume_undo = 1"
| "reserved (C_resume_push h) = 1"
| "reserved (C_range hs) = length hs"
| "reserved (C_range_nulls k n) = k"
| "reserved _ = 0"

fun owed :: "cphase \<Rightarrow> nat" where
  "owed (C_range_nulls k n) = n"
| "owed (C_notify_all n) = n"
| "owed (C_notify i n) = i"
| "owed _ = 0"

fun shutting :: "cphase \<Rightarrow> nat" where
  "shutting C_shut_notify = 1"
| "shutting _ = 0"

fun busy :: "wphase \<Rightarrow> nat" where
  "busy (W_run h d) = 1"
| "busy (W_ran d) = 1"
| "busy _ = 0"

fun running :: "wphase \<Rightarrow> handle multiset" where
  "running (W_run h d) = {#h#}"
| "running _ = {#}"

fun awakened :: "wphase \<Rightarrow> nat" where
  "awakened (W_asleep True) = 1"
| "awakened _ = 0"

fun draining :: "wphase \<Rightarrow> bool" where
  "draining (W_run h d) = d"
| "draining (W_ran d) = d"
| "draining W_drain_test = True"
| "draining W_drain = True"
| "draining _ = False"

definition stopped :: "wphase \<Rightarrow> bool" where
  "stopped p \<longleftrightarrow> p = W_stop \<or> p = W_done"

definition tp_size_ok :: "thread_pool \<Rightarrow> bool" where
  "tp_size_ok s \<longleftrightarrow>
     tp_size s = length (tp_queue s) + wsum busy (tp_thread_count s) (tp_worker s) + tally reserved (tp_client s) +
       card (tp_live s) + tp_dropped s"

definition tp_queue_ok :: "thread_pool \<Rightarrow> bool" where
  "tp_queue_ok s \<longleftrightarrow> tp_taken s @ tp_queue s = tp_accepted s \<and>
     mset (tp_taken s) = mset (tp_resumed s) + wsum running (tp_thread_count s) (tp_worker s)"

definition tp_cut_ok :: "thread_pool \<Rightarrow> bool" where
  "tp_cut_ok s \<longleftrightarrow> tp_shutdown_requested s = (tp_cut s \<noteq> None) \<and>
     (\<forall>w<tp_thread_count s. draining (tp_worker s w) \<longrightarrow> tp_cut s \<noteq> None) \<and>
     (\<forall>w<tp_thread_count s. stopped (tp_worker s w) \<longrightarrow> (\<exists>k. tp_cut s = Some k \<and> k \<le> length (tp_taken s))) \<and>
     (\<forall>k. tp_cut s = Some k \<longrightarrow> k \<le> length (tp_accepted s))"

definition tp_wake_ok :: "thread_pool \<Rightarrow> bool" where
  "tp_wake_ok s \<longleftrightarrow> (\<exists>w. asleep s w) \<longrightarrow>
     length (tp_queue s) \<le> wsum awakened (tp_thread_count s) (tp_worker s) + tally owed (tp_client s) \<and>
     (tp_cut s \<noteq> None \<longrightarrow> tally shutting (tp_client s) \<noteq> 0)"

definition tp_finite :: "thread_pool \<Rightarrow> bool" where
  "tp_finite s \<longleftrightarrow> few reserved (tp_client s) \<and> few owed (tp_client s) \<and> few shutting (tp_client s) \<and> finite (tp_live s)"

definition tp_inv :: "thread_pool \<Rightarrow> bool" where
  "tp_inv s \<longleftrightarrow> tp_finite s \<and> tp_size_ok s \<and> tp_queue_ok s \<and> tp_cut_ok s \<and> tp_wake_ok s"

section \<open>Lemmas\<close>

lemma wsum_ge_mset: "w < n \<Longrightarrow> g (f w) \<subseteq># wsum g n f" for g :: "'p \<Rightarrow> 'x multiset"
  unfolding wsum_def by (simp add: sum.remove [of "{..<n}" w])

lemmas tp_moves = goto_def at_def returns_def fetch_add_def fetch_sub_def enqueue_def

lemma notify_oneD:
  assumes "notify_one v s = Some s'"
  shows "(v = None \<and> s' = s \<and> (\<forall>w. \<not> asleep s w)) \<or>
    (\<exists>w. v = Some w \<and> asleep s w \<and> s' = s\<lparr>tp_worker := (tp_worker s)(w := W_asleep True)\<rparr>)"
proof (cases v)
  case None
  then have "s' = s" "\<forall>w<tp_thread_count s. \<not> asleep s w"
    using assms by (auto simp: notify_one_def list_all_iff split: if_splits)
  then show ?thesis using None by (auto simp: asleep_def)
next
  case (Some w)
  then show ?thesis using assms by (auto simp: notify_one_def split: if_splits)
qed

lemma take_frontD:
  "take_front w d s = Some s' \<Longrightarrow> \<exists>h q. tp_queue s = h # q \<and>
     s' = s\<lparr>tp_queue := q, tp_taken := tp_taken s @ [h], tp_worker := (tp_worker s)(w := W_run h d)\<rparr>"
  by (auto simp: take_front_def split: list.splits)

text \<open>The steps of an executor thread, one by one.\<close>

lemma wait_locked_cases:
  assumes "wait_locked w s = Some s'"
  obtains (again) "tp_queue s = []" "tp_shutdown_requested s" "s' = s\<lparr>tp_worker := (tp_worker s)(w := W_test)\<rparr>"
    | (take) h q where "tp_queue s = h # q"
        "s' = s\<lparr>tp_queue := q, tp_taken := tp_taken s @ [h], tp_worker := (tp_worker s)(w := W_run h False)\<rparr>"
    | (sleep) "tp_queue s = []" "\<not> tp_shutdown_requested s" "s' = s\<lparr>tp_worker := (tp_worker s)(w := W_asleep False)\<rparr>"
  using assms by (auto simp: wait_locked_def goto_def dest: take_frontD split: if_splits)

lemma executor_cases:
  assumes "executor w s = Some s'"
  obtains (start) "tp_worker s w = W_start" "s' = s\<lparr>tp_worker := (tp_worker s)(w := W_test)\<rparr>"
    | (test) "tp_worker s w = W_test"
        "s' = s\<lparr>tp_worker := (tp_worker s)(w := if tp_shutdown_requested s then W_drain_test else W_lock)\<rparr>"
    | (wait) "tp_worker s w = W_lock \<or> tp_worker s w = W_asleep False \<or> tp_worker s w = W_asleep True" "wait_locked w s = Some s'"
    | (ran) d where "tp_worker s w = W_ran d"
        "s' = s\<lparr>tp_size := tp_size s - 1, tp_worker := (tp_worker s)(w := if d then W_drain_test else W_test)\<rparr>"
    | (size) "tp_worker s w = W_drain_test"
        "s' = s\<lparr>tp_worker := (tp_worker s)(w := if 0 < tp_size s then W_drain else W_stop)\<rparr>"
    | (break) "tp_worker s w = W_drain" "tp_queue s = []" "s' = s\<lparr>tp_worker := (tp_worker s)(w := W_stop)\<rparr>"
    | (take) h q where "tp_worker s w = W_drain" "tp_queue s = h # q"
        "s' = s\<lparr>tp_queue := q, tp_taken := tp_taken s @ [h], tp_worker := (tp_worker s)(w := W_run h True)\<rparr>"
    | (stop) "tp_worker s w = W_stop" "s' = s\<lparr>tp_worker := (tp_worker s)(w := W_done)\<rparr>"
proof (cases "tp_worker s w")
  case (W_asleep b)
  then show ?thesis using assms wait by (cases b) (simp_all add: executor_def)
next
  case W_drain
  then show ?thesis using assms break take
    by (auto simp: executor_def goto_def dest: take_frontD split: if_splits)
next
  case W_start
  show ?thesis by (rule start) (use W_start assms in \<open>simp_all add: executor_def goto_def\<close>)
next
  case W_test
  show ?thesis by (rule test) (use W_test assms in \<open>simp_all add: executor_def goto_def\<close>)
next
  case W_lock
  show ?thesis by (rule wait) (use W_lock assms in \<open>simp_all add: executor_def goto_def\<close>)
next
  case (W_ran d)
  show ?thesis by (rule ran) (use W_ran assms in \<open>auto simp: executor_def goto_def\<close>)
next
  case W_drain_test
  show ?thesis by (rule size) (use W_drain_test assms in \<open>simp_all add: executor_def goto_def\<close>)
next
  case W_stop
  show ?thesis by (rule stop) (use W_stop assms in \<open>simp_all add: executor_def goto_def\<close>)
qed (use assms in \<open>simp_all add: executor_def\<close>)

lemma resume_returnsD:
  assumes "resume_returns w finished s = Some s'"
  shows "\<exists>h d. tp_worker s w = W_run h d \<and> s' = s\<lparr>tp_resumed := tp_resumed s @ [h], tp_done := (tp_done s)(h := finished),
    tp_worker := (tp_worker s)(w := W_ran d)\<rparr>"
  using assms by (auto simp: resume_returns_def goto_def split: wphase.splits)

lemma schedule_implD:
  assumes "schedule_impl v h s = Some s'"
  shows "(tp_done s h \<and> s' = s\<lparr>tp_dropped := tp_dropped s + 1\<rparr>) \<or>
    (\<not> tp_done s h \<and> notify_one v (s\<lparr>tp_queue := tp_queue s @ [h], tp_accepted := tp_accepted s @ [h]\<rparr>) = Some s')"
  using assms by (auto simp: schedule_impl_def enqueue_def split: if_splits)

lemma null_count_le: "null_count hs \<le> length hs"
  by (simp add: null_count_def)

lemma map_filter_count: "length (List.map_filter id hs) = length hs - null_count hs"
  by (induction hs) (auto simp: map_filter_def null_count_def Suc_diff_le split: option.splits)

lemmas tp_ok_defs = tp_size_ok_def tp_queue_ok_def tp_cut_ok_def tp_wake_ok_def tp_finite_def asleep_def

text \<open>Steps that change a caller only, or a caller and \<open>m_size\<close> by as much as the caller accounts for.\<close>

lemma tp_inv_client:
  assumes "tp_inv s" and "tp_size s + reserved p = n + reserved (tp_client s c)"
    and "owed p = owed (tp_client s c)" and "shutting p = shutting (tp_client s c)"
  shows "tp_inv (s\<lparr>tp_size := n, tp_log := l, tp_client := (tp_client s)(c := p)\<rparr>)"
proof -
  have f: "few reserved (tp_client s)" "few owed (tp_client s)" "few shutting (tp_client s)"
    using assms(1) by (simp_all add: tp_inv_def tp_finite_def)
  have "tally owed ((tp_client s)(c := p)) = tally owed (tp_client s)"
    "tally shutting ((tp_client s)(c := p)) = tally shutting (tp_client s)"
    using f assms(3,4) by (simp_all del: fun_upd_apply)
  moreover have "n + tally reserved (tp_client s) = tp_size s + tally reserved ((tp_client s)(c := p))"
    using tally_upd_add [OF f(1), of c p] assms(2) by linarith
  ultimately show ?thesis using assms(1) by (simp add: tp_inv_def tp_ok_defs del: fun_upd_apply tally_upd)
qed

lemma tp_inv_enqueue:
  assumes "tp_inv s" and "reserved (tp_client s c) = reserved p + length hs"
    and "owed p = owed (tp_client s c) + length hs" and "shutting p = shutting (tp_client s c)"
  shows "tp_inv (s\<lparr>tp_queue := tp_queue s @ hs, tp_accepted := tp_accepted s @ hs, tp_client := (tp_client s)(c := p)\<rparr>)"
proof -
  have f: "few reserved (tp_client s)" "few owed (tp_client s)" "few shutting (tp_client s)"
    using assms(1) by (simp_all add: tp_inv_def tp_finite_def)
  have "tally owed ((tp_client s)(c := p)) = tally owed (tp_client s) + length hs"
    "tally shutting ((tp_client s)(c := p)) = tally shutting (tp_client s)"
    using f assms(3,4) by (simp_all del: fun_upd_apply)
  moreover have "tally reserved (tp_client s) = tally reserved ((tp_client s)(c := p)) + length hs"
    using tally_upd_add [OF f(1), of c p] assms(2) by linarith
  moreover have "tp_taken s @ tp_queue s @ hs = tp_accepted s @ hs"
    using assms(1) by (simp add: tp_inv_def tp_queue_ok_def flip: append_assoc)
  ultimately show ?thesis using assms(1)
    by (auto simp add: tp_inv_def tp_ok_defs trans_le_add1 simp del: fun_upd_apply tally_upd)
qed

text \<open>Notifications.\<close>

lemma tp_inv_notified:
  assumes "tp_inv s" and "asleep s w" and "owed (tp_client s c) \<le> owed p + 1"
    and "reserved p = reserved (tp_client s c)" and "shutting p = shutting (tp_client s c)"
  shows "tp_inv (s\<lparr>tp_worker := (tp_worker s)(w := W_asleep True), tp_log := l, tp_client := (tp_client s)(c := p)\<rparr>)"
proof -
  have f: "few reserved (tp_client s)" "few owed (tp_client s)" "few shutting (tp_client s)"
    using assms(1) by (simp_all add: tp_inv_def tp_finite_def)
  have "tally reserved ((tp_client s)(c := p)) = tally reserved (tp_client s)"
    "tally shutting ((tp_client s)(c := p)) = tally shutting (tp_client s)"
    using f assms(4,5) by (simp_all del: fun_upd_apply)
  moreover have "tally owed (tp_client s) \<le> tally owed ((tp_client s)(c := p)) + 1"
    using tally_upd_add [OF f(2), of c p] assms(3) by linarith
  moreover have w: "w < tp_thread_count s" "tp_worker s w = W_asleep False" using assms(2) by (auto simp: asleep_def)
  ultimately show ?thesis using assms(1)
    by (auto simp: tp_inv_def tp_ok_defs stopped_def simp del: tally_upd)
qed

lemma tp_inv_nobody_asleep:
  assumes "tp_inv s" and "\<And>w. \<not> asleep s w" and "reserved p = reserved (tp_client s c)"
  shows "tp_inv (s\<lparr>tp_log := l, tp_client := (tp_client s)(c := p)\<rparr>)"
proof -
  have f: "few reserved (tp_client s)" using assms(1) by (simp add: tp_inv_def tp_finite_def)
  have "tally reserved ((tp_client s)(c := p)) = tally reserved (tp_client s)"
    using f assms(3) by (simp del: fun_upd_apply)
  moreover have "\<not> asleep (s\<lparr>tp_log := l, tp_client := (tp_client s)(c := p)\<rparr>) w" for w using assms(2) [of w] by (simp add: asleep_def)
  ultimately show ?thesis using assms(1)
    by (simp add: tp_inv_def tp_size_ok_def tp_queue_ok_def tp_cut_ok_def tp_wake_ok_def tp_finite_def del: tally_upd)
qed

lemma notify_all_inv:
  assumes "tp_inv s"
  shows "tp_inv (notify_all s)" and "\<not> asleep (notify_all s) w"
proof -
  show a: "\<not> asleep (notify_all s) w" for w by (simp add: asleep_def notify_all_def)
  have "wsum busy (tp_thread_count s) (tp_worker (notify_all s)) = wsum busy (tp_thread_count s) (tp_worker s)"
    "wsum running (tp_thread_count s) (tp_worker (notify_all s)) = wsum running (tp_thread_count s) (tp_worker s)"
    by (auto simp: notify_all_def asleep_def intro!: wsum_cong)
  moreover have "draining (tp_worker (notify_all s) w) = draining (tp_worker s w)"
    "stopped (tp_worker (notify_all s) w) = stopped (tp_worker s w)" for w
    by (auto simp: notify_all_def asleep_def stopped_def)
  moreover have "tp_thread_count (notify_all s) = tp_thread_count s" "tp_size (notify_all s) = tp_size s"
    "tp_queue (notify_all s) = tp_queue s" "tp_client (notify_all s) = tp_client s" "tp_live (notify_all s) = tp_live s"
    "tp_dropped (notify_all s) = tp_dropped s" "tp_taken (notify_all s) = tp_taken s" "tp_accepted (notify_all s) = tp_accepted s"
    "tp_resumed (notify_all s) = tp_resumed s" "tp_cut (notify_all s) = tp_cut s"
    "tp_shutdown_requested (notify_all s) = tp_shutdown_requested s" by (simp_all add: notify_all_def)
  ultimately show "tp_inv (notify_all s)" using assms a
    by (simp add: tp_inv_def tp_size_ok_def tp_queue_ok_def tp_cut_ok_def tp_wake_ok_def tp_finite_def)
qed

text \<open>Steps of an executor thread.\<close>

lemma tp_inv_worker:
  assumes "tp_inv s" and "w < tp_thread_count s"
    and "n + busy (tp_worker s w) = tp_size s + busy p" and "running p = running (tp_worker s w)"
    and "draining p \<Longrightarrow> tp_shutdown_requested s"
    and "stopped p \<Longrightarrow> \<exists>k. tp_cut s = Some k \<and> k \<le> length (tp_taken s)"
    and "p = W_asleep False \<Longrightarrow> tp_queue s = [] \<and> \<not> tp_shutdown_requested s"
    and "p \<noteq> W_asleep False \<Longrightarrow> awakened (tp_worker s w) \<le> awakened p \<or> tp_queue s = []"
  shows "tp_inv (s\<lparr>tp_size := n, tp_worker := (tp_worker s)(w := p)\<rparr>)"
proof -
  let ?N = "tp_thread_count s" and ?f = "(tp_worker s)(w := p)"
  let ?s = "s\<lparr>tp_size := n, tp_worker := ?f\<rparr>"
  have i: "tp_finite s" "tp_size_ok s" "tp_queue_ok s" "tp_cut_ok s" "tp_wake_ok s" using assms(1) by (simp_all add: tp_inv_def)
  have b: "wsum busy ?N ?f + busy (tp_worker s w) = wsum busy ?N (tp_worker s) + busy p"
    and r: "wsum running ?N ?f = wsum running ?N (tp_worker s)"
    and a: "wsum awakened ?N ?f + awakened (tp_worker s w) = wsum awakened ?N (tp_worker s) + awakened p"
    using wsum_upd_add [OF assms(2)] wsum_upd [OF assms(2), of running] assms(4) by (simp_all del: wsum_upd)
  have "tp_size_ok ?s" using i(2) b assms(3) by (simp add: tp_size_ok_def del: wsum_upd)
  moreover have "tp_queue_ok ?s" using i(3) r by (simp add: tp_queue_ok_def del: wsum_upd)
  moreover have "tp_cut_ok ?s" using i(4) assms(5,6) by (auto simp: tp_cut_ok_def)
  moreover have "tp_wake_ok ?s"
  proof (cases "p = W_asleep False")
    case True
    then show ?thesis using assms(7) i(4) by (auto simp: tp_wake_ok_def tp_cut_ok_def)
  next
    case False
    then have "asleep ?s v \<Longrightarrow> asleep s v" for v by (auto simp: asleep_def split: if_split_asm)
    moreover have "length (tp_queue s) \<le> wsum awakened ?N (tp_worker s) + tally owed (tp_client s) \<Longrightarrow>
        length (tp_queue s) \<le> wsum awakened ?N ?f + tally owed (tp_client s)" using a assms(8) [OF False] by auto
    ultimately show ?thesis using i(5) by (auto simp: tp_wake_ok_def simp del: wsum_upd)
  qed
  moreover have "tp_finite ?s" using i(1) by (simp add: tp_finite_def)
  ultimately show ?thesis by (simp add: tp_inv_def)
qed

lemma tp_inv_take:
  assumes "tp_inv s" and "w < tp_thread_count s" and "tp_queue s = h # q" and "busy (tp_worker s w) = 0"
    and "running (tp_worker s w) = {#}" and "d \<Longrightarrow> tp_shutdown_requested s" and "awakened (tp_worker s w) \<le> 1"
  shows "tp_inv (s\<lparr>tp_queue := q, tp_taken := tp_taken s @ [h], tp_worker := (tp_worker s)(w := W_run h d)\<rparr>)"
proof -
  let ?N = "tp_thread_count s" and ?f = "(tp_worker s)(w := W_run h d)"
  let ?s = "s\<lparr>tp_queue := q, tp_taken := tp_taken s @ [h], tp_worker := ?f\<rparr>"
  have i: "tp_finite s" "tp_size_ok s" "tp_queue_ok s" "tp_cut_ok s" "tp_wake_ok s" using assms(1) by (simp_all add: tp_inv_def)
  have b: "wsum busy ?N ?f = wsum busy ?N (tp_worker s) + 1"
    and r: "wsum running ?N ?f = wsum running ?N (tp_worker s) + {#h#}"
    and a: "wsum awakened ?N (tp_worker s) \<le> wsum awakened ?N ?f + 1"
    using assms(2,4,5) wsum_upd_add [OF assms(2), of awakened "tp_worker s" "W_run h d"] assms(7)
    by (simp_all del: fun_upd_apply)
  have "tp_size_ok ?s" using i(2) b assms(3) by (simp add: tp_size_ok_def del: wsum_upd)
  moreover have "tp_queue_ok ?s" using i(3) r assms(3) by (simp add: tp_queue_ok_def del: wsum_upd)
  moreover have "tp_cut_ok ?s" using i(4) assms(6) by (auto simp: tp_cut_ok_def stopped_def intro: le_SucI)
  moreover have "tp_wake_ok ?s"
  proof -
    have "asleep ?s v \<Longrightarrow> asleep s v" for v by (auto simp: asleep_def split: if_split_asm)
    then show ?thesis using i(5) a assms(3) by (auto simp: tp_wake_ok_def simp del: wsum_upd)
  qed
  moreover have "tp_finite ?s" using i(1) by (simp add: tp_finite_def)
  ultimately show ?thesis by (simp add: tp_inv_def)
qed

text \<open>A thread that finds the queue empty after the shutdown has been requested has seen everything that came before.\<close>

lemma queue_empty_cut:
  assumes "tp_inv s" and "tp_queue s = []" and "tp_shutdown_requested s"
  shows "\<exists>k. tp_cut s = Some k \<and> k \<le> length (tp_taken s)"
  using assms by (auto simp: tp_inv_def tp_queue_ok_def tp_cut_ok_def)

lemma size_0_queue: "tp_inv s \<Longrightarrow> tp_size s = 0 \<Longrightarrow> tp_queue s = []"
  by (simp add: tp_inv_def tp_size_ok_def)

lemma draining_shutdown: "tp_inv s \<Longrightarrow> w < tp_thread_count s \<Longrightarrow> draining (tp_worker s w) \<Longrightarrow> tp_shutdown_requested s"
  by (auto simp: tp_inv_def tp_cut_ok_def)

lemma stopped_cut:
  "tp_inv s \<Longrightarrow> w < tp_thread_count s \<Longrightarrow> stopped (tp_worker s w) \<Longrightarrow> \<exists>k. tp_cut s = Some k \<and> k \<le> length (tp_taken s)"
  by (auto simp: tp_inv_def tp_cut_ok_def)

lemma same_size: "s\<lparr>tp_worker := f\<rparr> = s\<lparr>tp_size := tp_size s, tp_worker := f\<rparr>" for s :: thread_pool
  by simp

lemma wait_locked_inv:
  assumes i: "tp_inv s" and w: "w < tp_thread_count s" and st: "wait_locked w s = Some s'"
    and p: "tp_worker s w = W_lock \<or> tp_worker s w = W_asleep False \<or> tp_worker s w = W_asleep True"
  shows "tp_inv s'"
proof -
  have z: "busy (tp_worker s w) = 0" "running (tp_worker s w) = {#}" "awakened (tp_worker s w) \<le> 1" using p by auto
  from st show ?thesis
  proof (cases rule: wait_locked_cases)
    case again
    then show ?thesis unfolding again(3) by (subst same_size, intro tp_inv_worker [OF i w]) (use z in \<open>auto simp: stopped_def\<close>)
  next
    case sleep
    then show ?thesis unfolding sleep(3) by (subst same_size, intro tp_inv_worker [OF i w]) (use z in \<open>auto simp: stopped_def\<close>)
  next
    case (take h q)
    then show ?thesis unfolding take(2) by (intro tp_inv_take [OF i w]) (use z in auto)
  qed
qed

lemma executor_inv:
  assumes i: "tp_inv s" and w: "w < tp_thread_count s" and st: "executor w s = Some s'"
  shows "tp_inv s'"
  using st
proof (cases rule: executor_cases)
  case start
  then show ?thesis unfolding start(2) by (subst same_size, intro tp_inv_worker [OF i w]) (auto simp: stopped_def)
next
  case test
  then show ?thesis unfolding test(2)
    by (subst same_size, intro tp_inv_worker [OF i w]) (auto simp: stopped_def split: if_splits)
next
  case wait
  then show ?thesis using wait_locked_inv [OF i w] by blast
next
  case (ran d)
  have "0 < tp_size s"
    using i ran(1) wsum_ge [OF w, of busy "tp_worker s"] by (auto simp: tp_inv_def tp_size_ok_def)
  moreover have "d \<Longrightarrow> tp_shutdown_requested s" using draining_shutdown [OF i w] ran(1) by simp
  ultimately show ?thesis unfolding ran(2)
    using ran(1) by (intro tp_inv_worker [OF i w]) (auto simp: stopped_def split: if_splits)
next
  case size
  then show ?thesis unfolding size(2)
    by (subst same_size, intro tp_inv_worker [OF i w])
      (use draining_shutdown [OF i w] queue_empty_cut [OF i size_0_queue [OF i]] in \<open>auto simp: stopped_def split: if_splits\<close>)
next
  case break
  then show ?thesis unfolding break(3)
    by (subst same_size, intro tp_inv_worker [OF i w])
      (use draining_shutdown [OF i w] queue_empty_cut [OF i break(2)] in \<open>auto simp: stopped_def\<close>)
next
  case (take h q)
  then show ?thesis unfolding take(3) by (intro tp_inv_take [OF i w]) (use draining_shutdown [OF i w] in auto)
next
  case stop
  then show ?thesis unfolding stop(2)
    by (subst same_size, intro tp_inv_worker [OF i w]) (use stopped_cut [OF i w] in \<open>auto simp: stopped_def\<close>)
qed

lemma resume_returns_inv:
  assumes i: "tp_inv s" and w: "w < tp_thread_count s" and st: "resume_returns w finished s = Some s'"
  shows "tp_inv s'"
proof -
  obtain h d where h: "tp_worker s w = W_run h d" and s': "s' = s\<lparr>tp_resumed := tp_resumed s @ [h],
      tp_done := (tp_done s)(h := finished), tp_worker := (tp_worker s)(w := W_ran d)\<rparr>"
    using resume_returnsD [OF st] by blast
  have "{#h#} \<subseteq># wsum running (tp_thread_count s) (tp_worker s)" using wsum_ge_mset [OF w, of running "tp_worker s"] h by simp
  then have "wsum running (tp_thread_count s) (tp_worker s) =
      wsum running (tp_thread_count s) ((tp_worker s)(w := W_ran d)) + {#h#}" using w h by simp
  moreover have "wsum busy (tp_thread_count s) ((tp_worker s)(w := W_ran d)) = wsum busy (tp_thread_count s) (tp_worker s)"
    "wsum awakened (tp_thread_count s) ((tp_worker s)(w := W_ran d)) = wsum awakened (tp_thread_count s) (tp_worker s)"
    using w h by simp_all
  moreover have "d \<Longrightarrow> tp_cut s \<noteq> None" using draining_shutdown [OF i w] h i by (auto simp: tp_inv_def tp_cut_ok_def)
  ultimately show ?thesis using i unfolding s'
    by (auto simp: tp_inv_def tp_ok_defs stopped_def simp del: wsum_upd)
qed

text \<open>Steps of the callers.\<close>

lemma tp_inv_dropped:
  assumes "tp_inv s" and "reserved (tp_client s c) = 1" and "owed (tp_client s c) = 0" and "shutting (tp_client s c) = 0"
  shows "tp_inv (s\<lparr>tp_dropped := tp_dropped s + 1, tp_log := l, tp_client := (tp_client s)(c := C_idle)\<rparr>)"
proof -
  have f: "few reserved (tp_client s)" "few owed (tp_client s)" "few shutting (tp_client s)"
    using assms(1) by (simp_all add: tp_inv_def tp_finite_def)
  have "tally owed ((tp_client s)(c := C_idle)) = tally owed (tp_client s)"
    "tally shutting ((tp_client s)(c := C_idle)) = tally shutting (tp_client s)"
    using f assms(3,4) by (simp_all del: fun_upd_apply)
  moreover have "tally reserved (tp_client s) = tally reserved ((tp_client s)(c := C_idle)) + 1"
    using tally_upd_add [OF f(1), of c C_idle] assms(2) by simp
  ultimately show ?thesis using assms(1) by (simp add: tp_inv_def tp_ok_defs del: fun_upd_apply tally_upd)
qed

lemma schedule_impl_inv:
  assumes i: "tp_inv s" and st: "schedule_impl v h s = Some s'"
    and c: "reserved (tp_client s c) = 1" "owed (tp_client s c) = 0" "shutting (tp_client s c) = 0"
  shows "tp_inv (returns c r s')"
proof -
  consider "tp_done s h" "s' = s\<lparr>tp_dropped := tp_dropped s + 1\<rparr>"
    | "notify_one v (s\<lparr>tp_queue := tp_queue s @ [h], tp_accepted := tp_accepted s @ [h]\<rparr>) = Some s'"
    using schedule_implD [OF st] by blast
  then show ?thesis
  proof cases
    case 1
    then show ?thesis using tp_inv_dropped [OF i c] by (simp add: returns_def at_def)
  next
    case 2
    let ?p = "C_range_nulls 0 1"
    let ?s = "s\<lparr>tp_queue := tp_queue s @ [h], tp_accepted := tp_accepted s @ [h], tp_client := (tp_client s)(c := ?p)\<rparr>"
    have e: "tp_inv ?s" by (rule tp_inv_enqueue [OF i]) (use c in auto)
    have a: "asleep ?s w = asleep (s\<lparr>tp_queue := tp_queue s @ [h], tp_accepted := tp_accepted s @ [h]\<rparr>) w" for w
      by (simp add: asleep_def)
    from notify_oneD [OF 2] show ?thesis
    proof (elim disjE exE conjE)
      fix w assume w: "asleep (s\<lparr>tp_queue := tp_queue s @ [h], tp_accepted := tp_accepted s @ [h]\<rparr>) w"
        and s': "s' = s\<lparr>tp_queue := tp_queue s @ [h], tp_accepted := tp_accepted s @ [h],
          tp_worker := (tp_worker (s\<lparr>tp_queue := tp_queue s @ [h], tp_accepted := tp_accepted s @ [h]\<rparr>))(w := W_asleep True)\<rparr>"
      have "tp_inv (?s\<lparr>tp_worker := (tp_worker ?s)(w := W_asleep True), tp_log := (c, r) # tp_log s, tp_client := (tp_client ?s)(c := C_idle)\<rparr>)"
        by (rule tp_inv_notified [OF e]) (use w a in auto)
      then show ?thesis using s' by (simp add: returns_def at_def)
    next
      assume w: "\<forall>w. \<not> asleep (s\<lparr>tp_queue := tp_queue s @ [h], tp_accepted := tp_accepted s @ [h]\<rparr>) w"
        and s': "s' = s\<lparr>tp_queue := tp_queue s @ [h], tp_accepted := tp_accepted s @ [h]\<rparr>"
      have "tp_inv (?s\<lparr>tp_log := (c, r) # tp_log s, tp_client := (tp_client ?s)(c := C_idle)\<rparr>)"
        by (rule tp_inv_nobody_asleep [OF e]) (use w a in auto)
      then show ?thesis using s' by (simp add: returns_def at_def)
    qed
  qed
qed

lemma notify_one_inv:
  assumes i: "tp_inv s" and st: "notify_one v s = Some s'" and c: "tp_client s c = C_notify k n" "k \<noteq> 0"
  shows "tp_inv (at c (C_notify (k - 1) n) s')"
  using notify_oneD [OF st]
proof (elim disjE exE conjE)
  fix w assume w: "asleep s w" and s': "s' = s\<lparr>tp_worker := (tp_worker s)(w := W_asleep True)\<rparr>"
  have "tp_inv (s\<lparr>tp_worker := (tp_worker s)(w := W_asleep True), tp_log := tp_log s, tp_client := (tp_client s)(c := C_notify (k - 1) n)\<rparr>)"
    by (rule tp_inv_notified [OF i w]) (use c in auto)
  then show ?thesis using s' by (simp add: at_def)
next
  assume w: "\<forall>w. \<not> asleep s w" and s': "s' = s"
  have "tp_inv (s\<lparr>tp_log := tp_log s, tp_client := (tp_client s)(c := C_notify (k - 1) n)\<rparr>)"
    by (rule tp_inv_nobody_asleep [OF i]) (use w c in auto)
  then show ?thesis using s' by (simp add: at_def)
qed

lemma notify_all_moves:
  assumes "tp_inv s" and "reserved p = reserved (tp_client s c)"
  shows "tp_inv ((notify_all s)\<lparr>tp_log := l, tp_client := (tp_client s)(c := p)\<rparr>)"
  using tp_inv_nobody_asleep [OF notify_all_inv(1) [OF assms(1)] notify_all_inv(2) [OF assms(1)], of p c l] assms(2)
  by (simp add: notify_all_def)

lemma reserved_le_size: "tp_inv s \<Longrightarrow> reserved (tp_client s c) \<le> tp_size s"
  using tally_ge [of reserved "tp_client s" c] by (simp add: tp_inv_def tp_finite_def tp_size_ok_def)

lemma tp_inv_move:
  assumes "tp_inv s" and "tp_size s + reserved p = n + reserved (tp_client s c)"
    and "owed p = owed (tp_client s c)" and "shutting p = shutting (tp_client s c)"
  shows "tp_inv (at c p (s\<lparr>tp_size := n\<rparr>))"
  using tp_inv_client [OF assms, of "tp_log s"] by (simp add: at_def)

lemma tp_inv_return:
  assumes "tp_inv s" and "tp_size s = n + reserved (tp_client s c)"
    and "owed (tp_client s c) = 0" and "shutting (tp_client s c) = 0"
  shows "tp_inv (returns c r (s\<lparr>tp_size := n\<rparr>))"
  using tp_inv_client [of s C_idle n c "(c, r) # tp_log s"] assms by (simp add: returns_def at_def)

lemma continue_call_inv:
  assumes i: "tp_inv s" and st: "continue_call v c s = Some s'"
  shows "tp_inv s'"
proof (cases "tp_client s c")
  case C_sched_op
  then show ?thesis using st schedule_impl_inv [OF i, of v c _ c] by (auto simp: continue_call_def)
next
  case (C_resume_push h)
  then show ?thesis using st schedule_impl_inv [OF i, of v h _ c] by (auto simp: continue_call_def)
next
  case (C_range hs)
  have "tp_inv (s\<lparr>tp_queue := tp_queue s @ List.map_filter id hs, tp_accepted := tp_accepted s @ List.map_filter id hs,
      tp_client := (tp_client s)(c := C_range_nulls (null_count hs) (length hs - null_count hs))\<rparr>)"
    by (rule tp_inv_enqueue [OF i]) (use C_range null_count_le [of hs] in \<open>auto simp: map_filter_count\<close>)
  then show ?thesis using st C_range by (auto simp: continue_call_def at_def enqueue_def)
next
  case (C_notify k n)
  then show ?thesis using st notify_one_inv [OF i _ C_notify] tp_inv_return [OF i, of "tp_size s" c]
    by (auto simp: continue_call_def split: if_splits)
next
  case (C_notify_all n)
  then show ?thesis using st notify_all_moves [OF i, of C_idle c] by (auto simp: continue_call_def returns_def at_def notify_all_def)
next
  case C_shut_notify
  then show ?thesis using st notify_all_moves [OF i, of C_shut_join c "tp_log s"]
    by (auto simp: continue_call_def at_def notify_all_def)
next
  case C_shut_join
  then show ?thesis using st tp_inv_return [OF i, of "tp_size s" c] by (auto simp: continue_call_def split: if_splits)
next
  case (C_range_nulls k n)
  then show ?thesis using st reserved_le_size [OF i, of c] tp_inv_move [OF i, of _ "tp_size s - k" c]
    by (auto simp: continue_call_def fetch_sub_def)
next
  case C_sched_check
  then show ?thesis using st tp_inv_move [OF i, of _ "tp_size s" c] by (auto simp: continue_call_def)
next
  case (C_resume_check h)
  then show ?thesis using st tp_inv_move [OF i, of _ "tp_size s" c] by (auto simp: continue_call_def)
next
  case C_sched_undo
  then show ?thesis using st reserved_le_size [OF i, of c] tp_inv_return [OF i, of "tp_size s - 1" c]
    by (auto simp: continue_call_def fetch_sub_def)
next
  case C_resume_undo
  then show ?thesis using st reserved_le_size [OF i, of c] tp_inv_return [OF i, of "tp_size s - 1" c]
    by (auto simp: continue_call_def fetch_sub_def)
next
  case (C_spawn h)
  then show ?thesis using st tp_inv_move [OF i, of "C_resume_check h" "tp_size s + 1" c]
    by (auto simp: continue_call_def fetch_add_def)
qed (use st in \<open>auto simp: continue_call_def\<close>)

lemma tp_inv_live:
  assumes i: "tp_inv s" and h: "h \<notin> tp_live s"
  shows "tp_inv (s\<lparr>tp_live := insert h (tp_live s), tp_size := tp_size s + 1\<rparr>)"
  using assms by (simp add: tp_inv_def tp_ok_defs)

lemma call_inv:
  assumes i: "tp_inv s" and c: "tp_client s c = C_idle" and st: "call c op s = Some s'"
  shows "tp_inv s'"
proof (cases op)
  case Op_schedule
  then show ?thesis using st c tp_inv_move [OF i, of C_sched_check "tp_size s + 1" c] by (simp add: fetch_add_def)
next
  case (Op_resume p)
  then show ?thesis using st c tp_inv_move [OF i, of _ "tp_size s + 1" c] tp_inv_return [OF i, of "tp_size s" c]
    by (auto simp: fetch_add_def split: option.splits if_splits)
next
  case (Op_spawn_detached h)
  then have h: "h \<notin> tp_live s" and s': "s' = at c (C_spawn h) (s\<lparr>tp_live := insert h (tp_live s), tp_size := tp_size s + 1\<rparr>)"
    using st by (auto simp: fetch_add_def split: if_splits)
  show ?thesis unfolding s'
    using tp_inv_move [OF tp_inv_live [OF i h], of "C_spawn h" "tp_size s + 1" c] c by simp
next
  case (Op_resume_range hs)
  then show ?thesis using st c tp_inv_move [OF i, of "C_range hs" "tp_size s + length hs" c] by (simp add: fetch_add_def)
next
  case Op_shutdown
  show ?thesis
  proof (cases "tp_shutdown_requested s")
    case True
    then show ?thesis using Op_shutdown st c tp_inv_return [OF i, of "tp_size s" c] by auto
  next
    case False
    have f: "few reserved (tp_client s)" "few owed (tp_client s)" "few shutting (tp_client s)"
      using i by (simp_all add: tp_inv_def tp_finite_def)
    have "\<not> stopped (tp_worker s w)" "\<not> draining (tp_worker s w)" if "w < tp_thread_count s" for w
      using i that False stopped_cut [OF i that] draining_shutdown [OF i that] by (auto simp: tp_inv_def tp_cut_ok_def)
    then show ?thesis using False Op_shutdown st c f i
      by (auto simp: tp_inv_def tp_ok_defs at_def simp del: fun_upd_apply)
  qed
qed

lemma detached_inv:
  assumes i: "tp_inv s" and st: "detached_final_suspend h s = Some s'"
  shows "tp_inv s'"
proof -
  have h: "h \<in> tp_live s" "finite (tp_live s)" and s': "s' = s\<lparr>tp_size := tp_size s - 1, tp_live := tp_live s - {h}\<rparr>"
    using i st by (auto simp: detached_final_suspend_def fetch_sub_def tp_inv_def tp_finite_def split: if_splits)
  have "card (tp_live s - {h}) = card (tp_live s) - 1" "0 < card (tp_live s)" using h by (auto simp: card_gt_0_iff)
  then show ?thesis using i unfolding s' by (auto simp: tp_inv_def tp_ok_defs)
qed

lemma thread_pool_new_inv: "tp_inv (thread_pool_new n)"
  by (simp add: tp_inv_def tp_ok_defs thread_pool_new_def stopped_def)

interpretation tps: invariant_system "tp_init n" tp_step tp_inv for n
proof
  show "tp_init n s \<Longrightarrow> tp_inv s" for s by (simp add: tp_init_def thread_pool_new_inv)
  show "tp_inv s \<Longrightarrow> tp_step s t \<Longrightarrow> tp_inv t" for s t
    by (erule tp_step.cases) (auto intro: executor_inv resume_returns_inv call_inv continue_call_inv detached_inv)
qed

section \<open>Properties\<close>

text \<open>The books of \<open>m_size\<close>: it counts the queued coroutines, the threads at work, the calls in progress that
  have announced a coroutine, the detached tasks that have not ended, on top of their place in the queue or on a
  thread, and the scheduled coroutines that turned out to be done.\<close>

lemma thread_pool_size_books:
  assumes "reach (tp_init n) tp_step s"
  shows "tp_size s = length (tp_queue s) + wsum busy (tp_thread_count s) (tp_worker s) + tally reserved (tp_client s) +
      card (tp_live s) + tp_dropped s"
  using tps.inv_reach [OF assms] by (simp add: tp_inv_def tp_size_ok_def)

text \<open>C14: every coroutine that is accepted runs exactly once, in order.  In every execution of a pool the coroutines that the
  executor threads have taken, followed by those in the queue, are the accepted ones in the order in which they
  were accepted; and each taken one has been resumed or is being resumed by exactly one thread.  Once no call is in
  progress, \<open>size()\<close> is the number of queued coroutines plus the number of threads at work, provided that no
  detached task is unfinished and no coroutine was scheduled that was done already.\<close>

theorem thread_pool_exactly_once:
  assumes "reach (tp_init n) tp_step s"
  shows "tp_taken s @ tp_queue s = tp_accepted s \<and>
    mset (tp_taken s) = mset (tp_resumed s) + wsum running (tp_thread_count s) (tp_worker s) \<and>
    (tally reserved (tp_client s) = 0 \<and> tp_live s = {} \<and> tp_dropped s = 0 \<longrightarrow>
      tp_size s = length (tp_queue s) + wsum busy (tp_thread_count s) (tp_worker s))"
  using tps.inv_reach [OF assms] thread_pool_size_books [OF assms] by (simp add: tp_inv_def tp_queue_ok_def)

text \<open>C15: a shutdown completes what was accepted before it.  When all executor threads of a pool have
  returned, which is what \<open>shutdown\<close> waits for, every coroutine that had been put into the queue before the shutdown was
  requested has been resumed.\<close>

theorem thread_pool_shutdown_completes:
  assumes "reach (tp_init n) tp_step s" and "0 < tp_thread_count s" and "\<forall>w<tp_thread_count s. tp_worker s w = W_done"
  shows "\<exists>k. tp_cut s = Some k \<and> mset (take k (tp_accepted s)) \<subseteq># mset (tp_resumed s)"
proof -
  have i: "tp_inv s" by (rule tps.inv_reach [OF assms(1)])
  obtain k where k: "tp_cut s = Some k" "k \<le> length (tp_taken s)"
    using stopped_cut [OF i assms(2)] assms(2,3) by (auto simp: stopped_def)
  have "wsum running (tp_thread_count s) (tp_worker s) = wsum running (tp_thread_count s) (\<lambda>_. W_done)"
    by (rule wsum_cong) (use assms(3) in simp)
  then have "mset (tp_taken s) = mset (tp_resumed s)" "tp_taken s @ tp_queue s = tp_accepted s"
    using i by (auto simp: tp_inv_def tp_queue_ok_def)
  moreover from this(2) k(2) have "take k (tp_accepted s) = take k (tp_taken s)" by (metis append_eq_conv_conj take_all take_append diff_is_0_eq append_Nil2 take_0)
  moreover have "mset (take k (tp_taken s)) \<subseteq># mset (tp_taken s)" by (metis append_take_drop_id mset_append mset_subset_eq_add_left)
  ultimately show ?thesis using k(1) by auto
qed

text \<open>C16: no wake-up is lost.  In every execution, when a coroutine is queued and no call is about to notify,
  some executor thread is awake, has been notified or is at work, unless all of them have left their
  loops after a shutdown; and once \<open>shutdown\<close> has notified, no executor thread sleeps without having been notified.\<close>

theorem thread_pool_no_lost_wakeup:
  assumes "reach (tp_init n) tp_step s" and "0 < tp_thread_count s" and "tally owed (tp_client s) = 0"
  shows "(tp_queue s \<noteq> [] \<longrightarrow>
      (\<exists>w<tp_thread_count s. tp_worker s w \<noteq> W_asleep False \<and> \<not> stopped (tp_worker s w)) \<or>
      tp_shutdown_requested s \<and> (\<forall>w<tp_thread_count s. stopped (tp_worker s w))) \<and>
    (tp_shutdown_requested s \<and> tally shutting (tp_client s) = 0 \<longrightarrow> (\<forall>w<tp_thread_count s. tp_worker s w \<noteq> W_asleep False))"
proof -
  have i: "tp_inv s" by (rule tps.inv_reach [OF assms(1)])
  then have wk: "tp_wake_ok s" and ct: "tp_cut_ok s" by (simp_all add: tp_inv_def)
  have "\<exists>w<tp_thread_count s. tp_worker s w \<noteq> W_asleep False \<and> \<not> stopped (tp_worker s w)"
    if "tp_queue s \<noteq> []" "asleep s v" for v
  proof -
    have "wsum awakened (tp_thread_count s) (tp_worker s) \<noteq> 0" using wk that assms(3) by (cases "tp_queue s") (auto simp: tp_wake_ok_def)
    then obtain w where "w < tp_thread_count s" "awakened (tp_worker s w) \<noteq> 0" using wsum_pos by blast
    then show ?thesis by (intro exI [of _ w]) (auto simp: stopped_def)
  qed
  moreover have "tp_shutdown_requested s" if "\<forall>w<tp_thread_count s. stopped (tp_worker s w)"
    using that assms(2) stopped_cut [OF i] ct by (auto simp: tp_cut_ok_def)
  ultimately show ?thesis using wk ct unfolding tp_wake_ok_def tp_cut_ok_def asleep_def by blast
qed

text \<open>
  The step functions, for building executions.
\<close>

lemma reach_executor:
  "reach I tp_step s \<Longrightarrow> w < tp_thread_count s \<Longrightarrow> executor w s = Some s' \<Longrightarrow> reach I tp_step s'"
  by (blast intro: reach_step tp_step.intros)

lemma reach_resume:
  "reach I tp_step s \<Longrightarrow> w < tp_thread_count s \<Longrightarrow> resume_returns w finished s = Some s' \<Longrightarrow> reach I tp_step s'"
  by (blast intro: reach_step tp_step.intros)

lemma reach_call: "reach I tp_step s \<Longrightarrow> tp_client s c = C_idle \<Longrightarrow> call c op s = Some s' \<Longrightarrow> reach I tp_step s'"
  by (blast intro: reach_step tp_step.intros)

lemma reach_continue: "reach I tp_step s \<Longrightarrow> continue_call v c s = Some s' \<Longrightarrow> reach I tp_step s'"
  by (blast intro: reach_step tp_step.intros)

lemmas tp_run = executor_def continue_call_def schedule_impl_def notify_one_def notify_all_def asleep_def tp_moves thread_pool_new_def

text \<open>A coroutine can be accepted and never run.  \<open>resume\<close> reads \<open>m_shutdown_requested\<close> and enqueues afterwards.
  There is an execution in which the shutdown happens in between: the executor thread finds the queue
  empty and leaves although \<open>m_size\<close> is positive, \<open>shutdown\<close> returns, and then \<open>resume\<close> enqueues coroutine 5 and
  answers true.\<close>

theorem thread_pool_strands:
  "\<exists>s. reach (tp_init 1) tp_step s \<and> tp_log s = [(1, Ret_bool True), (2, Ret_unit)] \<and> tp_queue s = [5] \<and>
     tp_size s = 1 \<and> tp_worker s 0 = W_done \<and> tp_resumed s = []"
proof -
  let ?R = "reach (tp_init 1) tp_step"
  let ?n = "thread_pool_new 1"
  have 0: "?R ?n" by (rule reach_init) (simp add: tp_init_def)
  let ?s1 = "?n\<lparr>tp_size := 1, tp_client := (\<lambda>_. C_idle)(1 := C_resume_push 5)\<rparr>"
  have "?R (?n\<lparr>tp_size := 1, tp_client := (\<lambda>_. C_idle)(1 := C_resume_check 5)\<rparr>)"
    by (rule reach_call [OF 0, of 1 "Op_resume (Some 5)"]) (simp_all add: tp_run)
  then have 1: "?R ?s1" by (rule reach_continue [of _ _ None 1]) (simp add: tp_run)
  let ?s2 = "?s1\<lparr>tp_shutdown_requested := True, tp_cut := Some 0, tp_client := (\<lambda>_. C_idle)(1 := C_resume_push 5, 2 := C_shut_join)\<rparr>"
  have "?R (?s2\<lparr>tp_client := (\<lambda>_. C_idle)(1 := C_resume_push 5, 2 := C_shut_notify)\<rparr>)"
    by (rule reach_call [OF 1, of 2 Op_shutdown]) (simp_all add: tp_run)
  then have 2: "?R ?s2" by (rule reach_continue [of _ _ None 2]) (auto simp: tp_run fun_eq_iff)
  have "?R (?s2\<lparr>tp_worker := (\<lambda>_. W_start)(0 := W_test)\<rparr>)" by (rule reach_executor [OF 2, of 0]) (simp_all add: tp_run)
  then have "?R (?s2\<lparr>tp_worker := (\<lambda>_. W_start)(0 := W_drain_test)\<rparr>)" by (rule reach_executor [of _ _ 0]) (simp_all add: tp_run)
  then have "?R (?s2\<lparr>tp_worker := (\<lambda>_. W_start)(0 := W_drain)\<rparr>)" by (rule reach_executor [of _ _ 0]) (simp_all add: tp_run)
  then have "?R (?s2\<lparr>tp_worker := (\<lambda>_. W_start)(0 := W_stop)\<rparr>)" by (rule reach_executor [of _ _ 0]) (simp_all add: tp_run)
  then have 3: "?R (?s2\<lparr>tp_worker := (\<lambda>_. W_start)(0 := W_done)\<rparr>)" by (rule reach_executor [of _ _ 0]) (simp_all add: tp_run)
  let ?s3 = "?s2\<lparr>tp_worker := (\<lambda>_. W_start)(0 := W_done), tp_log := [(2, Ret_unit)], tp_client := (\<lambda>_. C_idle)(1 := C_resume_push 5)\<rparr>"
  from 3 have "?R ?s3" by (rule reach_continue [of _ _ None 2]) (auto simp: tp_run fun_eq_iff)
  then have "?R (?s3\<lparr>tp_queue := [5], tp_accepted := [5], tp_log := [(1, Ret_bool True), (2, Ret_unit)], tp_client := \<lambda>_. C_idle\<rparr>)"
    by (rule reach_continue [of _ _ None 1]) (auto simp: tp_run fun_eq_iff)
  then show ?thesis by (intro exI conjI) (auto simp: thread_pool_new_def)
qed

text \<open>
  \<open>spawn_detached\<close> after a shutdown answers false and leaves \<open>m_size\<close> one too large for ever: the wrapper task, whose
  final suspend point would subtract it, is never resumed.
\<close>

lemma thread_pool_spawn_leaks:
  assumes "tp_shutdown_requested s" and "tp_client s c = C_idle" and "h \<notin> tp_live s" and "\<not> tp_done s h"
  shows "\<exists>s1 s2 s3 s4. call c (Op_spawn_detached h) s = Some s1 \<and> continue_call None c s1 = Some s2 \<and>
    continue_call None c s2 = Some s3 \<and> continue_call None c s3 = Some s4 \<and>
    tp_log s4 = (c, Ret_bool False) # tp_log s \<and> tp_size s4 = tp_size s + 1 \<and> tp_queue s4 = tp_queue s"
  using assms by (simp add: tp_run)

section \<open>Witnesses\<close>

text \<open>A pool with one thread that has run coroutine 5 and has been shut down.\<close>

definition tp_demo :: thread_pool where
  "tp_demo = (thread_pool_new 1)\<lparr>tp_shutdown_requested := True, tp_worker := (\<lambda>_. W_start)(0 := W_done),
     tp_accepted := [5], tp_taken := [5], tp_resumed := [5], tp_cut := Some 1,
     tp_log := [(2, Ret_unit), (1, Ret_bool True)]\<rparr>"

lemma tp_demo_reach: "reach (tp_init 1) tp_step tp_demo"
proof -
  let ?R = "reach (tp_init 1) tp_step"
  let ?n = "thread_pool_new 1" and ?ws = "\<lambda>p. (\<lambda>_. W_start)(0 := p)" and ?cs = "\<lambda>c p. (\<lambda>_. C_idle)(c := p)"
  have 0: "?R ?n" by (rule reach_init) (simp add: tp_init_def)
  have "?R (?n\<lparr>tp_size := 1, tp_client := ?cs 1 (C_resume_check 5)\<rparr>)"
    by (rule reach_call [OF 0, of 1 "Op_resume (Some 5)"]) (simp_all add: tp_run)
  then have "?R (?n\<lparr>tp_size := 1, tp_client := ?cs 1 (C_resume_push 5)\<rparr>)" by (rule reach_continue [of _ _ None 1]) (simp add: tp_run)
  then have "?R (?n\<lparr>tp_size := 1, tp_queue := [5], tp_accepted := [5], tp_log := [(1, Ret_bool True)]\<rparr>)"
    by (rule reach_continue [of _ _ None 1]) (simp add: tp_run)
  then have "?R (?n\<lparr>tp_size := 1, tp_queue := [5], tp_accepted := [5], tp_log := [(1, Ret_bool True)], tp_worker := ?ws W_test\<rparr>)"
    by (rule reach_executor [of _ _ 0]) (simp_all add: tp_run)
  then have "?R (?n\<lparr>tp_size := 1, tp_queue := [5], tp_accepted := [5], tp_log := [(1, Ret_bool True)], tp_worker := ?ws W_lock\<rparr>)"
    by (rule reach_executor [of _ _ 0]) (simp_all add: tp_run)
  then have "?R (?n\<lparr>tp_size := 1, tp_accepted := [5], tp_taken := [5], tp_log := [(1, Ret_bool True)], tp_worker := ?ws (W_run 5 False)\<rparr>)"
    by (rule reach_executor [of _ _ 0]) (simp_all add: tp_run wait_locked_def take_front_def)
  then have "?R (?n\<lparr>tp_size := 1, tp_accepted := [5], tp_taken := [5], tp_resumed := [5], tp_log := [(1, Ret_bool True)], tp_worker := ?ws (W_ran False)\<rparr>)"
    by (rule reach_resume [of _ _ 0 False]) (simp_all add: tp_run resume_returns_def)
  then have "?R (?n\<lparr>tp_accepted := [5], tp_taken := [5], tp_resumed := [5], tp_log := [(1, Ret_bool True)], tp_worker := ?ws W_test\<rparr>)"
    by (rule reach_executor [of _ _ 0]) (simp_all add: tp_run)
  then have "?R (?n\<lparr>tp_accepted := [5], tp_taken := [5], tp_resumed := [5], tp_log := [(1, Ret_bool True)], tp_worker := ?ws W_test,
      tp_shutdown_requested := True, tp_cut := Some 1, tp_client := ?cs 2 C_shut_notify\<rparr>)"
    by (rule reach_call [of _ _ 2 Op_shutdown]) (simp_all add: tp_run)
  then have "?R (tp_demo\<lparr>tp_log := [(1, Ret_bool True)], tp_worker := ?ws W_test, tp_client := ?cs 2 C_shut_join\<rparr>)"
    by (rule reach_continue [of _ _ None 2]) (auto simp: tp_run tp_demo_def fun_eq_iff)
  then have "?R (tp_demo\<lparr>tp_log := [(1, Ret_bool True)], tp_worker := ?ws W_drain_test, tp_client := ?cs 2 C_shut_join\<rparr>)"
    by (rule reach_executor [of _ _ 0]) (simp_all add: tp_run tp_demo_def)
  then have "?R (tp_demo\<lparr>tp_log := [(1, Ret_bool True)], tp_worker := ?ws W_stop, tp_client := ?cs 2 C_shut_join\<rparr>)"
    by (rule reach_executor [of _ _ 0]) (simp_all add: tp_run tp_demo_def)
  then have "?R (tp_demo\<lparr>tp_log := [(1, Ret_bool True)], tp_client := ?cs 2 C_shut_join\<rparr>)"
    by (rule reach_executor [of _ _ 0]) (simp_all add: tp_run tp_demo_def)
  then show ?thesis by (rule reach_continue [of _ _ None 2]) (simp add: tp_run tp_demo_def)
qed

theorem thread_pool_exactly_once_witness: "tp_taken tp_demo @ tp_queue tp_demo = tp_accepted tp_demo \<and> tp_accepted tp_demo = [5]"
  using thread_pool_exactly_once [OF tp_demo_reach] by (simp add: tp_demo_def)

theorem thread_pool_shutdown_completes_witness: "mset (take 1 (tp_accepted tp_demo)) \<subseteq># mset (tp_resumed tp_demo)"
  using thread_pool_shutdown_completes [OF tp_demo_reach] by (simp add: tp_demo_def thread_pool_new_def)

theorem thread_pool_no_lost_wakeup_witness:
  "tp_shutdown_requested tp_demo \<and> tp_worker tp_demo 0 \<noteq> W_asleep False"
  using thread_pool_no_lost_wakeup [OF tp_demo_reach] by (simp add: tp_demo_def thread_pool_new_def)

end
