(* ===== verification/TaskGroup.thy ===== *)
theory TaskGroup
  imports Event
begin

text \<open>
  The task group of \<open>include/coro/task_group.hpp\<close>, with the self-deleting wrapper tasks of
  \<open>include/coro/detail/task_self_deleting.hpp\<close> that it counts and the event of theory \<open>Event\<close> that it sets when the
  count drops to zero.  \<open>start\<close>, the wrapper tasks, joining coroutines and the destructor interleave.
\<close>

section \<open>Self-deleting tasks\<close>

text \<open>
  \<open>final_suspend\<close> of \<open>promise_self_deleting\<close>: the function given to \<open>user_final_suspend\<close> runs, if there is one, and the coroutine
  is destroyed.  \<open>sd_complete\<close> is the end of the coroutine of \<open>make_task_self_deleting\<close>, whose user task has
  returned or thrown; \<open>unhandled_exception\<close> ignores the exception.
\<close>

definition sd_final_suspend :: "('s \<Rightarrow> 's option) option \<Rightarrow> 's \<Rightarrow> 's option" where
  "sd_final_suspend user_final_suspend s = (case user_final_suspend of None \<Rightarrow> Some s | Some f \<Rightarrow> f s)"

definition sd_complete :: "unit result \<Rightarrow> ('s \<Rightarrow> 's option) option \<Rightarrow> 's \<Rightarrow> 's option" where
  "sd_complete r user_final_suspend s =
     (case r of
        Inl e \<Rightarrow> sd_final_suspend user_final_suspend s
      | Inr u \<Rightarrow> sd_final_suspend user_final_suspend s)"

section \<open>The task group\<close>

text \<open>
  Where a task of the group is: \<open>start\<close> has reset the event; it has added one to \<open>m_size\<close>; the executor has
  accepted the wrapper task or has refused it; the task has taken \<open>m_size\<close> from one to zero and is about to set
  the event; it is over.
\<close>

datatype tg_phase = TG_none | TG_reset | TG_counted | TG_live | TG_refused | TG_setting | TG_over

record task_group =
  tg_size :: nat
  tg_on_empty_event :: event
  tg_task :: "handle \<Rightarrow> tg_phase"
  tg_destroyed :: bool

definition task_group_init :: task_group where
  "task_group_init = \<lparr>tg_size = 0, tg_on_empty_event = event_new True, tg_task = \<lambda>_. TG_none, tg_destroyed = False\<rparr>"

text \<open>The constructor from a pointer and the one from a \<open>unique_ptr\<close>, which does not look at the pointer.\<close>

definition task_group_new :: "bool \<Rightarrow> task_group result" where
  "task_group_new null_executor =
     (if null_executor then Inl (Runtime_error ''task_group cannot have a nullptr executor'') else Inr task_group_init)"

definition task_group_new_unique :: "bool \<Rightarrow> task_group result" where
  "task_group_new_unique null_executor = Inr task_group_init"

definition tg_at :: "handle \<Rightarrow> tg_phase \<Rightarrow> task_group \<Rightarrow> task_group" where
  "tg_at h p s = s\<lparr>tg_task := (tg_task s)(h := p)\<rparr>"

text \<open>\<open>start\<close>, step by step; the answer of the executor's \<open>resume\<close> is the argument of \<open>tg_kick\<close>.\<close>

definition tg_start_reset :: "handle \<Rightarrow> task_group \<Rightarrow> task_group option" where
  "tg_start_reset h s =
     (if tg_task s h = TG_none \<and> \<not> tg_destroyed s
      then Some (tg_at h TG_reset (s\<lparr>tg_on_empty_event := event_reset (tg_on_empty_event s)\<rparr>)) else None)"

definition tg_start_add :: "handle \<Rightarrow> task_group \<Rightarrow> task_group option" where
  "tg_start_add h s = (if tg_task s h = TG_reset then Some (tg_at h TG_counted (s\<lparr>tg_size := tg_size s + 1\<rparr>)) else None)"

definition tg_kick :: "bool \<Rightarrow> handle \<Rightarrow> task_group \<Rightarrow> task_group option" where
  "tg_kick accepted h s =
     (if tg_task s h = TG_counted then Some (tg_at h (if accepted then TG_live else TG_refused) s) else None)"

text \<open>\<open>count_down\<close>: the subtraction, and the \<open>set\<close> of the caller that took the size to zero.\<close>

definition tg_count_down :: "handle \<Rightarrow> task_group \<Rightarrow> task_group option" where
  "tg_count_down h s =
     Some (tg_at h (if tg_size s = 1 then TG_setting else TG_over) (s\<lparr>tg_size := tg_size s - 1\<rparr>))"

definition tg_set :: "handle \<Rightarrow> task_group \<Rightarrow> (handle list \<times> task_group) option" where
  "tg_set h s =
     (if tg_task s h = TG_setting \<and> \<not> tg_destroyed s
      then map_option (\<lambda>(ws, e). (ws, tg_at h TG_over (s\<lparr>tg_on_empty_event := e\<rparr>))) (event_set Lifo (tg_on_empty_event s))
      else None)"

definition tg_empty :: "task_group \<Rightarrow> bool" where
  "tg_empty s \<longleftrightarrow> tg_size s = 0"

text \<open>\<open>co_await group\<close> and the destructor, which returns once the group is empty.\<close>

definition tg_await :: "handle \<Rightarrow> task_group \<Rightarrow> bool \<times> task_group" where
  "tg_await t s = (case event_await (tg_on_empty_event s) t of (suspended, e) \<Rightarrow> (suspended, s\<lparr>tg_on_empty_event := e\<rparr>))"

definition tg_destroy :: "task_group \<Rightarrow> task_group option" where
  "tg_destroy s = (if tg_empty s then Some (s\<lparr>tg_destroyed := True\<rparr>) else None)"

definition tg_waiting :: "task_group \<Rightarrow> handle list option \<Rightarrow> bool" where
  "tg_waiting s v = ev_view (tg_on_empty_event s) v"

inductive tg_step :: "task_group \<Rightarrow> task_group \<Rightarrow> bool" where
  tg_reset: "tg_start_reset h s = Some s' \<Longrightarrow> tg_step s s'"
| tg_add: "tg_start_add h s = Some s' \<Longrightarrow> tg_step s s'"
| tg_resume: "tg_kick accepted h s = Some s' \<Longrightarrow> tg_step s s'"
| tg_final: "tg_task s h = TG_live \<Longrightarrow> sd_complete r (Some (tg_count_down h)) s = Some s' \<Longrightarrow> tg_step s s'"
| tg_refused: "tg_task s h = TG_refused \<Longrightarrow> tg_count_down h s = Some s' \<Longrightarrow> tg_step s s'"
| tg_signal: "tg_set h s = Some (ws, s') \<Longrightarrow> tg_step s s'"
| tg_join: "tg_waiting s v \<Longrightarrow> \<not> tg_destroyed s \<Longrightarrow> v = Some ws \<Longrightarrow> t \<notin> set ws \<Longrightarrow> tg_await t s = (b, s') \<Longrightarrow> tg_step s s'"
| tg_delete: "tg_destroy s = Some s' \<Longrightarrow> tg_step s s'"

text \<open>\<open>start\<close> without interruption: the answer and the coroutines that a \<open>set\<close> resumes.\<close>

definition tg_start :: "handle \<Rightarrow> bool \<Rightarrow> task_group \<Rightarrow> (bool \<times> task_group) option" where
  "tg_start h accepted s =
     Option.bind (tg_start_reset h s) (\<lambda>s. Option.bind (tg_start_add h s) (\<lambda>s. Option.bind (tg_kick accepted h s) (\<lambda>s.
       if accepted then Some (True, s)
       else Option.bind (tg_count_down h s) (\<lambda>s.
         if tg_task s h = TG_setting then map_option (\<lambda>(ws, s). (False, s)) (tg_set h s) else Some (False, s)))))"

text \<open>The constructors that start tasks.\<close>

primrec tg_start_all :: "(handle \<times> bool) list \<Rightarrow> task_group \<Rightarrow> task_group option" where
  "tg_start_all [] s = Some s"
| "tg_start_all (x # xs) s = Option.bind (tg_start (fst x) (snd x) s) (\<lambda>(b, s). tg_start_all xs s)"

definition task_group_new_range :: "bool \<Rightarrow> (handle \<times> bool) list \<Rightarrow> task_group option result" where
  "task_group_new_range null_executor tasks =
     (case task_group_new null_executor of Inl e \<Rightarrow> Inl e | Inr s \<Rightarrow> Inr (tg_start_all tasks s))"

text \<open>\<open>spawn_joinable\<close> of an executor: a group with one task; the task it returns awaits the group.\<close>

definition spawn_joinable :: "handle \<Rightarrow> bool \<Rightarrow> handle \<Rightarrow> (bool \<times> task_group) option" where
  "spawn_joinable h accepted joiner = map_option (tg_await joiner) (tg_start_all [(h, accepted)] task_group_init)"

section \<open>The invariant\<close>

fun tg_counts :: "tg_phase \<Rightarrow> nat" where
  "tg_counts TG_counted = 1"
| "tg_counts TG_live = 1"
| "tg_counts TG_refused = 1"
| "tg_counts _ = 0"

definition tg_quiet :: "task_group \<Rightarrow> bool" where
  "tg_quiet s \<longleftrightarrow> (\<forall>h. tg_task s h \<noteq> TG_reset \<and> tg_task s h \<noteq> TG_setting)"

definition tg_inv :: "task_group \<Rightarrow> bool" where
  "tg_inv s \<longleftrightarrow> few tg_counts (tg_task s) \<and> tg_size s = tally tg_counts (tg_task s) \<and>
     (tg_size s = 0 \<and> tg_quiet s \<longrightarrow> is_set (tg_on_empty_event s)) \<and>
     (\<exists>v. tg_waiting s v)"

section \<open>Lemmas\<close>

lemma event_reset_view: "ev_view e v \<Longrightarrow> \<exists>v. ev_view (event_reset e) v"
  by (cases v) (auto simp: event_reset_def compare_exchange_def intro: exI [of _ "Some []"] exI [of _ "Some _"])

lemma is_set_view: "is_set e \<Longrightarrow> \<exists>v. ev_view e v"
  by (rule exI [of _ None]) (simp add: is_set_def)

lemma tg_inv_task:
  assumes "tg_inv s" and "n + tg_counts (tg_task s h) = tg_size s + tg_counts p"
    and "n = 0 \<Longrightarrow> p \<noteq> TG_reset \<Longrightarrow> p \<noteq> TG_setting \<Longrightarrow> \<forall>g. g \<noteq> h \<longrightarrow> tg_task s g \<noteq> TG_reset \<and> tg_task s g \<noteq> TG_setting \<Longrightarrow> is_set e"
    and "\<exists>v. ev_view e v"
  shows "tg_inv (s\<lparr>tg_size := n, tg_on_empty_event := e, tg_task := (tg_task s)(h := p)\<rparr>)"
proof -
  have f: "few tg_counts (tg_task s)" "tg_size s = tally tg_counts (tg_task s)" using assms(1) by (simp_all add: tg_inv_def)
  have "n = tally tg_counts ((tg_task s)(h := p))" using tally_upd_add [OF f(1), of h p] assms(2) f(2) by linarith
  moreover have "tg_quiet (s\<lparr>tg_size := n, tg_on_empty_event := e, tg_task := (tg_task s)(h := p)\<rparr>) \<Longrightarrow>
      p \<noteq> TG_reset \<and> p \<noteq> TG_setting \<and> (\<forall>g. g \<noteq> h \<longrightarrow> tg_task s g \<noteq> TG_reset \<and> tg_task s g \<noteq> TG_setting)"
    unfolding tg_quiet_def by (auto split: if_splits)
  ultimately show ?thesis using assms(3,4) f(1) by (auto simp: tg_inv_def tg_waiting_def simp del: tally_upd)
qed

lemma tg_size_pos: "tg_inv s \<Longrightarrow> tg_counts (tg_task s h) \<le> tg_size s"
  using tally_ge [of tg_counts "tg_task s" h] by (simp add: tg_inv_def)

lemma tg_count_down_inv:
  assumes i: "tg_inv s" and h: "tg_counts (tg_task s h) = 1" "tg_task s h \<noteq> TG_reset" "tg_task s h \<noteq> TG_setting"
    and st: "tg_count_down h s = Some s'"
  shows "tg_inv s'"
proof -
  have pos: "0 < tg_size s" using tg_size_pos [OF i, of h] h by simp
  have "\<exists>v. ev_view (tg_on_empty_event s) v" using i by (simp add: tg_inv_def tg_waiting_def)
  then have "tg_inv (s\<lparr>tg_size := tg_size s - 1, tg_on_empty_event := tg_on_empty_event s,
      tg_task := (tg_task s)(h := if tg_size s = 1 then TG_setting else TG_over)\<rparr>)"
    by (intro tg_inv_task [OF i]) (use pos h in \<open>auto split: if_splits\<close>)
  then show ?thesis using st by (auto simp: tg_count_down_def tg_at_def)
qed

lemma tg_inv_step:
  assumes i: "tg_inv s" and st: "tg_step s s'"
  shows "tg_inv s'"
  using st
proof (cases rule: tg_step.cases)
  case (tg_reset h)
  have v: "\<exists>v. ev_view (event_reset (tg_on_empty_event s)) v"
    using i event_reset_view unfolding tg_inv_def tg_waiting_def by blast
  have "tg_inv (s\<lparr>tg_size := tg_size s, tg_on_empty_event := event_reset (tg_on_empty_event s), tg_task := (tg_task s)(h := TG_reset)\<rparr>)"
    if "tg_task s h = TG_none" using that by (intro tg_inv_task [OF i _ _ v]) auto
  then show ?thesis using tg_reset by (auto simp: tg_start_reset_def tg_at_def split: if_splits)
next
  case (tg_add h)
  have "tg_inv (s\<lparr>tg_size := tg_size s + 1, tg_on_empty_event := tg_on_empty_event s, tg_task := (tg_task s)(h := TG_counted)\<rparr>)"
    if "tg_task s h = TG_reset" using that i by (intro tg_inv_task [OF i]) (auto simp: tg_inv_def tg_waiting_def)
  then show ?thesis using tg_add by (auto simp: tg_start_add_def tg_at_def split: if_splits)
next
  case (tg_resume b h)
  have "tg_inv (s\<lparr>tg_size := tg_size s, tg_on_empty_event := tg_on_empty_event s, tg_task := (tg_task s)(h := p)\<rparr>)"
    if "tg_task s h = TG_counted" "p = TG_live \<or> p = TG_refused" for p
    using that i tg_size_pos [OF i, of h] by (intro tg_inv_task [OF i]) (auto simp: tg_inv_def tg_waiting_def)
  then show ?thesis using tg_resume by (auto simp: tg_kick_def tg_at_def split: if_splits)
next
  case (tg_final h r)
  then show ?thesis using tg_count_down_inv [OF i, of h] by (auto simp: sd_complete_def sd_final_suspend_def split: sum.splits)
next
  case (tg_refused h)
  then show ?thesis using tg_count_down_inv [OF i, of h] by auto
next
  case (tg_signal h ws)
  then obtain e where h: "tg_task s h = TG_setting" and e: "event_set Lifo (tg_on_empty_event s) = Some (ws, e)"
    and s': "s' = s\<lparr>tg_on_empty_event := e, tg_task := (tg_task s)(h := TG_over)\<rparr>"
    by (auto simp: tg_set_def tg_at_def split: if_splits)
  have "tg_inv (s\<lparr>tg_size := tg_size s, tg_on_empty_event := e, tg_task := (tg_task s)(h := TG_over)\<rparr>)"
    using h event_set_sets [OF e] is_set_view by (intro tg_inv_task [OF i]) auto
  then show ?thesis using s' by simp
next
  case (tg_join v ws t b)
  then have v: "ev_view (tg_on_empty_event s) (Some ws)" by (simp add: tg_waiting_def)
  have ns: "\<not> is_set (tg_on_empty_event s)" using v by (auto simp: is_set_def)
  have "\<exists>v. ev_view (snd (event_await (tg_on_empty_event s) t)) v" using event_await_view(2) [OF v] tg_join by blast
  moreover have "s' = s\<lparr>tg_on_empty_event := snd (event_await (tg_on_empty_event s) t)\<rparr>"
    using tg_join by (auto simp: tg_await_def case_prod_unfold)
  ultimately show ?thesis using i ns by (simp add: tg_inv_def tg_waiting_def tg_quiet_def) (metis less_irrefl)
next
  case tg_delete
  then show ?thesis using i by (auto simp: tg_destroy_def tg_inv_def tg_quiet_def tg_waiting_def split: if_splits)
qed

interpretation tgs: invariant_system "\<lambda>s. task_group_new False = Inr s" tg_step tg_inv
proof
  show "task_group_new False = Inr s \<Longrightarrow> tg_inv s" for s
    by (auto simp: task_group_new_def task_group_init_def tg_inv_def tg_waiting_def event_new_def is_set_def intro: exI [of _ None])
qed (rule tg_inv_step)

section \<open>Properties\<close>

text \<open>C17: a join of a task group does not hang.  In every execution \<open>m_size\<close> is the number of tasks that have
  been announced and not yet counted down, whether they return or throw or are refused by the executor;
  and when it is zero, no \<open>start\<close> is between its two first statements and no \<open>count_down\<close> is about to set the event,
  the event is set, so nobody waits on it and a further \<open>co_await\<close> goes on at once.\<close>

theorem task_group_join:
  assumes "reach (\<lambda>s. task_group_new False = Inr s) tg_step s"
  shows "tg_size s = tally tg_counts (tg_task s) \<and>
    (tg_size s = 0 \<and> tg_quiet s \<longrightarrow> tg_waiting s None \<and> (\<forall>ws. \<not> tg_waiting s (Some ws)) \<and> \<not> fst (tg_await t s))"
  using tgs.inv_reach [OF assms] by (auto simp: tg_inv_def tg_waiting_def is_set_def tg_await_def event_await_def)

text \<open>Two races of the task group.  First, \<open>start\<close> resets the event before it adds one to \<open>m_size\<close>; when
  the last other task ends in between, the event is set while the new task runs, and \<open>co_await\<close> on
  the group goes on at once although a task is alive and no \<open>start\<close> is in progress.  Second, the destructor returns as soon
  as \<open>m_size\<close> is zero, while the last task may still be about to set the event of the destroyed group.\<close>

theorem task_group_races:
  "(\<exists>s. reach (\<lambda>s. task_group_new False = Inr s) tg_step s \<and> tg_task s 2 = TG_live \<and> tg_quiet s \<and> \<not> fst (tg_await 9 s)) \<and>
   (\<exists>s. reach (\<lambda>s. task_group_new False = Inr s) tg_step s \<and> tg_destroyed s \<and> tg_task s 1 = TG_setting)"
proof -
  let ?R = "reach (\<lambda>s. task_group_new False = Inr s) tg_step"
  let ?g = "\<lambda>n e f. \<lparr>tg_size = n, tg_on_empty_event = e, tg_task = f, tg_destroyed = False\<rparr>"
  let ?set = "event_new True" and ?unset = "event_new False" and ?none = "\<lambda>_. TG_none"
  note st = reach_step [of "\<lambda>s. task_group_new False = Inr s" tg_step]
  note fs = tg_start_reset_def tg_start_add_def tg_kick_def tg_count_down_def tg_set_def tg_at_def sd_complete_def
    sd_final_suspend_def event_new_def event_reset_def event_set_def compare_exchange_def resume_all.simps
  have 0: "?R (?g 0 ?set ?none)" by (rule reach_init) (simp add: task_group_new_def task_group_init_def)
  have "?R (?g 0 ?unset (?none(1 := TG_reset)))" by (rule st [OF 0 tg_reset [of 1]]) (simp add: fs)
  then have "?R (?g 1 ?unset (?none(1 := TG_counted)))" by (rule st [OF _ tg_add [of 1]]) (simp add: fs)
  then have 1: "?R (?g 1 ?unset (?none(1 := TG_live)))" by (rule st [OF _ tg_resume [of True 1]]) (simp add: fs)
  then have "?R (?g 0 ?unset (?none(1 := TG_setting)))" by (rule st [OF _ tg_final [of _ 1 "Inr ()"]]) (simp_all add: fs)
  then have d: "?R ((?g 0 ?unset (?none(1 := TG_setting)))\<lparr>tg_destroyed := True\<rparr>)"
    by (rule st [OF _ tg_delete]) (simp add: tg_destroy_def tg_empty_def)
  have "?R (?g 1 ?unset (?none(1 := TG_live, 2 := TG_reset)))" by (rule st [OF 1 tg_reset [of 2]]) (simp add: fs)
  then have "?R (?g 0 ?unset (?none(1 := TG_setting, 2 := TG_reset)))"
    by (rule st [OF _ tg_final [of _ 1 "Inr ()"]]) (auto simp: fs)
  then have "?R (?g 0 ?set (?none(1 := TG_over, 2 := TG_reset)))" by (rule st [OF _ tg_signal [of 1]]) (auto simp: fs)
  then have "?R (?g 1 ?set (?none(1 := TG_over, 2 := TG_counted)))" by (rule st [OF _ tg_add [of 2]]) (auto simp: fs)
  then have "?R (?g 1 ?set (?none(1 := TG_over, 2 := TG_live)))" by (rule st [OF _ tg_resume [of True 2]]) (auto simp: fs)
  moreover have "tg_quiet (?g 1 ?set (?none(1 := TG_over, 2 := TG_live)))" by (simp add: tg_quiet_def)
  moreover have "\<not> fst (tg_await 9 (?g 1 ?set (?none(1 := TG_over, 2 := TG_live))))"
    by (simp add: tg_await_def event_await_def event_new_def is_set_def)
  ultimately have "\<exists>s. ?R s \<and> tg_task s 2 = TG_live \<and> tg_quiet s \<and> \<not> fst (tg_await 9 s)" by (intro exI conjI) auto
  moreover have "\<exists>s. ?R s \<and> tg_destroyed s \<and> tg_task s 1 = TG_setting" by (intro exI conjI) (use d in auto)
  ultimately show ?thesis by blast
qed

text \<open>A constructor that starts tasks counts the accepted ones.\<close>

lemma tg_start_effect:
  assumes "tg_task s h = TG_none" and "\<not> tg_destroyed s" and "tg_waiting s v"
  shows "\<exists>s'. tg_start h b s = Some (b, s') \<and> tg_size s' = tg_size s + (if b then 1 else 0) \<and> \<not> tg_destroyed s' \<and>
    (\<forall>g. g \<noteq> h \<longrightarrow> tg_task s' g = tg_task s g) \<and> (\<exists>v. tg_waiting s' v)"
proof -
  let ?e = "event_reset (tg_on_empty_event s)"
  obtain v' where v': "ev_view ?e v'" using event_reset_view assms(3) unfolding tg_waiting_def by blast
  have e: "\<exists>ws e'. event_set Lifo ?e = Some (ws, e') \<and> is_set e'"
  proof (cases v')
    case None
    then show ?thesis using v' event_set_again [of ?e Lifo] by (auto simp: is_set_def)
  next
    case (Some ws)
    then show ?thesis using event_set_view [of ?e ws Lifo] v' by auto
  qed
  show ?thesis
  proof (cases b)
    case True
    then show ?thesis using assms v'
      by (auto simp: tg_start_def tg_start_reset_def tg_start_add_def tg_kick_def tg_at_def tg_waiting_def)
  next
    case False
    then show ?thesis using assms v' e is_set_view
      by (auto simp: tg_start_def tg_start_reset_def tg_start_add_def tg_kick_def tg_at_def tg_count_down_def tg_set_def tg_waiting_def)
  qed
qed

lemma task_group_new_range_size:
  assumes "distinct (map fst tasks)"
  shows "\<exists>s. task_group_new_range False tasks = Inr (Some s) \<and> tg_size s = length (filter snd tasks)"
proof -
  have "\<exists>s'. tg_start_all tasks s = Some s' \<and> tg_size s' = tg_size s + length (filter snd tasks)"
    if "\<forall>x\<in>set tasks. tg_task s (fst x) = TG_none" "\<not> tg_destroyed s" "\<exists>v. tg_waiting s v" for s
    using that assms
  proof (induction tasks arbitrary: s)
    case (Cons x xs)
    obtain s1 where s1: "tg_start (fst x) (snd x) s = Some (snd x, s1)" "tg_size s1 = tg_size s + (if snd x then 1 else 0)"
      "\<not> tg_destroyed s1" "\<forall>g. g \<noteq> fst x \<longrightarrow> tg_task s1 g = tg_task s g" "\<exists>v. tg_waiting s1 v"
      using tg_start_effect [of s "fst x" _ "snd x"] Cons.prems by (auto; blast)
    have "\<forall>y\<in>set xs. tg_task s1 (fst y) = TG_none" using Cons.prems s1(4) by (metis distinct.simps(2) image_eqI list.set_intros(2) list.set_map list.simps(9))
    then obtain s2 where "tg_start_all xs s1 = Some s2" "tg_size s2 = tg_size s1 + length (filter snd xs)"
      using Cons.IH [of s1] Cons.prems s1 by auto
    then show ?case using s1 by (simp add: case_prod_unfold)
  qed simp
  note all = this
  have v: "\<exists>v. tg_waiting task_group_init v"
    by (rule exI [of _ None]) (simp add: task_group_init_def tg_waiting_def event_new_def)
  have n: "\<forall>x\<in>set tasks. tg_task task_group_init (fst x) = TG_none" "\<not> tg_destroyed task_group_init" "tg_size task_group_init = 0"
    by (simp_all add: task_group_init_def)
  obtain s where "tg_start_all tasks task_group_init = Some s" "tg_size s = length (filter snd tasks)"
    using all [OF n(1,2) v] n(3) by auto
  then show ?thesis by (simp add: task_group_new_range_def task_group_new_def)
qed

section \<open>Witnesses\<close>

theorem task_group_join_witness: "tg_size task_group_init = 0 \<and> \<not> fst (tg_await 3 task_group_init)"
proof -
  have "reach (\<lambda>s. task_group_new False = Inr s) tg_step task_group_init" by (rule reach_init) (simp add: task_group_new_def)
  from task_group_join [OF this, of 3] show ?thesis by (auto simp: task_group_init_def tg_quiet_def)
qed

end
