(* ===== verification/IoNotifier.thy ===== *)
theory IoNotifier
  imports Prelude
begin

text \<open>
  Polling: the operations and statuses of \<open>include/coro/poll.hpp\<close>, pipes, poll infos, and the notifiers of
  \<open>src/detail/io_notifier_epoll.cpp\<close> and \<open>src/detail/io_notifier_kqueue.cpp\<close>.  The operating system is not modelled: a notifier is the requests it makes
  and what it turns delivered events into.
\<close>

unbundle bit_operations_syntax

section \<open>Polling: operations, statuses\<close>

text \<open>The constants of \<open>sys/epoll.h\<close> that the code uses.\<close>

definition EPOLLIN :: "64 word" where "EPOLLIN = 0x001"
definition EPOLLOUT :: "64 word" where "EPOLLOUT = 0x004"
definition EPOLLERR :: "64 word" where "EPOLLERR = 0x008"
definition EPOLLHUP :: "64 word" where "EPOLLHUP = 0x010"
definition EPOLLRDHUP :: "64 word" where "EPOLLRDHUP = 0x2000"
definition EPOLLONESHOT :: "64 word" where "EPOLLONESHOT = 0x40000000"
definition EPOLLET :: "64 word" where "EPOLLET = 0x80000000"

lemmas epoll_consts = EPOLLIN_def EPOLLOUT_def EPOLLERR_def EPOLLHUP_def EPOLLRDHUP_def EPOLLONESHOT_def EPOLLET_def

datatype poll_op = Poll_read | Poll_write | Poll_read_write

fun poll_op_bits :: "poll_op \<Rightarrow> 64 word" where
  "poll_op_bits Poll_read = EPOLLIN"
| "poll_op_bits Poll_write = EPOLLOUT"
| "poll_op_bits Poll_read_write = EPOLLIN OR EPOLLOUT"

definition poll_op_readable :: "poll_op \<Rightarrow> bool" where
  "poll_op_readable op \<longleftrightarrow> poll_op_bits op AND poll_op_bits Poll_read \<noteq> 0"

definition poll_op_writeable :: "poll_op \<Rightarrow> bool" where
  "poll_op_writeable op \<longleftrightarrow> poll_op_bits op AND poll_op_bits Poll_write \<noteq> 0"

fun poll_op_to_string :: "poll_op \<Rightarrow> string" where
  "poll_op_to_string Poll_read = ''read''"
| "poll_op_to_string Poll_write = ''write''"
| "poll_op_to_string Poll_read_write = ''read_write''"

datatype poll_status =
    Status_read
  | Status_write
  | Status_timeout
  | Status_error
  | Status_closed
  | Status_cancelled

text \<open>There is no case for \<open>cancelled\<close>, which takes the default branch.\<close>

fun poll_status_to_string :: "poll_status \<Rightarrow> string" where
  "poll_status_to_string Status_read = ''read''"
| "poll_status_to_string Status_write = ''write''"
| "poll_status_to_string Status_timeout = ''timeout''"
| "poll_status_to_string Status_error = ''error''"
| "poll_status_to_string Status_closed = ''closed''"
| "poll_status_to_string _ = ''unknown''"

section \<open>Pipes\<close>

type_synonym fd = int

text \<open>
  A \<open>pipe_t\<close> owns two descriptors.  \<open>m_fds{-1}\<close> and the \<open>{-1}\<close> that the move operations leave behind
  initialise the first element only; the second one becomes 0.
\<close>

record pipe_t =
  pipe_read_fd :: fd
  pipe_write_fd :: fd

definition pipe_braced :: pipe_t where
  "pipe_braced = \<lparr>pipe_read_fd = -1, pipe_write_fd = 0\<rparr>"

text \<open>The constructor, with what \<open>::pipe\<close> returned.\<close>

definition pipe_new :: "(fd \<times> fd) option \<Rightarrow> pipe_t result" where
  "pipe_new fds =
     (case fds of
        None \<Rightarrow> Inl (Runtime_error ''Failed to create pipe'')
      | Some (r, w) \<Rightarrow> Inr \<lparr>pipe_read_fd = r, pipe_write_fd = w\<rparr>)"

text \<open>Copies duplicate the descriptors; \<open>dup\<close> is the function that the system provides.\<close>

definition pipe_copy :: "(fd \<Rightarrow> fd) \<Rightarrow> pipe_t \<Rightarrow> pipe_t" where
  "pipe_copy dup other = \<lparr>pipe_read_fd = dup (pipe_read_fd other), pipe_write_fd = dup (pipe_write_fd other)\<rparr>"

text \<open>Construction and assignment by moving: the new value and what is left in \<open>other\<close>.\<close>

definition pipe_move :: "pipe_t \<Rightarrow> pipe_t \<times> pipe_t" where
  "pipe_move other = (other, pipe_braced)"

definition pipe_move_assign :: "pipe_t \<Rightarrow> pipe_t \<Rightarrow> pipe_t \<times> pipe_t" where
  "pipe_move_assign this other = (other, pipe_braced)"

text \<open>\<open>close\<close>: the descriptors it closes.\<close>

definition pipe_close :: "pipe_t \<Rightarrow> fd list \<times> pipe_t" where
  "pipe_close p =
     ((if pipe_read_fd p \<noteq> -1 then [pipe_read_fd p] else []) @ (if pipe_write_fd p \<noteq> -1 then [pipe_write_fd p] else []),
      \<lparr>pipe_read_fd = -1, pipe_write_fd = -1\<rparr>)"

text \<open>A \<open>poll_stop_source\<close> is a pipe; its move constructor makes a new pipe first and then assigns.\<close>

definition stop_source_move :: "pipe_t \<Rightarrow> pipe_t \<Rightarrow> pipe_t \<times> pipe_t" where
  "stop_source_move fresh other = pipe_move_assign fresh other"

definition get_token :: "pipe_t \<Rightarrow> fd" where
  "get_token source = pipe_read_fd source"

section \<open>Poll infos\<close>

record poll_info =
  pi_fd :: fd
  pi_op :: poll_op
  pi_timer_pos :: "nat option"
  pi_awaiting :: "handle option"
  pi_status :: poll_status
  pi_processed :: bool
  pi_cancel :: "fd option"

definition poll_info_new :: "fd \<Rightarrow> poll_op \<Rightarrow> fd option \<Rightarrow> poll_info" where
  "poll_info_new f op cancel_trigger =
     \<lparr>pi_fd = f, pi_op = op, pi_timer_pos = None, pi_awaiting = None, pi_status = Status_error, pi_processed = False,
      pi_cancel = cancel_trigger\<rparr>"

section \<open>The epoll notifier\<close>

text \<open>The user data of an epoll event: a pointer and two flags in one 64-bit word.\<close>

definition bool_word :: "bool \<Rightarrow> 64 word" where
  "bool_word b = (if b then 1 else 0)"

definition encode_udata :: "bool \<Rightarrow> bool \<Rightarrow> 64 word \<Rightarrow> 64 word" where
  "encode_udata keep_registered is_cancel_event udata =
     (push_bit 63 (bool_word keep_registered) OR push_bit 62 (bool_word is_cancel_event)) OR (udata AND 0x3FFFFFFFFFFFFFFF)"

definition decode_udata :: "64 word \<Rightarrow> bool \<times> bool \<times> 64 word" where
  "decode_udata encoded =
     (drop_bit 63 encoded \<noteq> 0, drop_bit 62 encoded AND 1 \<noteq> 0, encoded AND 0xFFFFFFFFFFFF)"

text \<open>The requests that the notifier makes to the system.\<close>

datatype epoll_req =
    Ctl_add fd "64 word" "64 word"
  | Ctl_del fd
  | Timer_set fd int int

definition epoll_watch :: "fd \<Rightarrow> poll_op \<Rightarrow> 64 word \<Rightarrow> bool \<Rightarrow> bool \<Rightarrow> epoll_req" where
  "epoll_watch f op data keep is_cancel_event =
     Ctl_add f ((poll_op_bits op OR EPOLLRDHUP) OR (if \<not> keep then EPOLLONESHOT else EPOLLET))
       (encode_udata keep is_cancel_event data)"

text \<open>\<open>watch(poll_info&)\<close>: the answers of the system are not looked at.\<close>

definition epoll_watch_pi :: "64 word \<Rightarrow> poll_info \<Rightarrow> bool \<times> epoll_req list" where
  "epoll_watch_pi a pi =
     (True, epoll_watch (pi_fd pi) (pi_op pi) a False False #
        (case pi_cancel pi of None \<Rightarrow> [] | Some c \<Rightarrow> [epoll_watch c Poll_read a False True]))"

definition epoll_unwatch :: "fd \<Rightarrow> epoll_req" where
  "epoll_unwatch f = Ctl_del f"

definition epoll_unwatch_pi :: "poll_info \<Rightarrow> epoll_req" where
  "epoll_unwatch_pi pi = epoll_unwatch (pi_fd pi)"

text \<open>Division of durations truncates towards zero.\<close>

definition duration_seconds :: "int \<Rightarrow> int" where
  "duration_seconds ns = (if 0 \<le> ns then ns div 1000000000 else - ((- ns) div 1000000000))"

definition epoll_watch_timer :: "fd \<Rightarrow> int \<Rightarrow> epoll_req" where
  "epoll_watch_timer f duration =
     (let seconds = duration_seconds duration;
          nanoseconds = duration - seconds * 1000000000
      in if seconds \<le> 0 then Timer_set f 0 (if nanoseconds \<le> 0 then 1 else nanoseconds)
         else Timer_set f seconds nanoseconds)"

definition epoll_unwatch_timer :: "fd \<Rightarrow> epoll_req" where
  "epoll_unwatch_timer f = Timer_set f 0 0"

definition epoll_event_to_poll_status :: "64 word \<Rightarrow> poll_status result" where
  "epoll_event_to_poll_status events =
     (if events AND poll_op_bits Poll_read \<noteq> 0 then Inr Status_read
      else if events AND poll_op_bits Poll_write \<noteq> 0 then Inr Status_write
      else if events AND EPOLLERR \<noteq> 0 then Inr Status_error
      else if events AND EPOLLRDHUP \<noteq> 0 \<or> events AND EPOLLHUP \<noteq> 0 then Inr Status_closed
      else Inl (Runtime_error ''invalid epoll state''))"

text \<open>
  \<open>next_events\<close> on the events (bits and user data) that \<open>epoll_wait\<close> delivered.  \<open>mem\<close> is the memory at the
  decoded addresses; at an address that is not a poll info, \<open>stray\<close> is what the code reads as
  \<open>m_cancel_trigger\<close>.
\<close>

definition read_cancel :: "(64 word \<Rightarrow> poll_info option) \<Rightarrow> (64 word \<Rightarrow> fd option) \<Rightarrow> 64 word \<Rightarrow> fd option" where
  "read_cancel mem stray a = (case mem a of Some pi \<Rightarrow> pi_cancel pi | None \<Rightarrow> stray a)"

fun epoll_next_events ::
    "(64 word \<Rightarrow> poll_info option) \<Rightarrow> (64 word \<Rightarrow> fd option) \<Rightarrow> (64 word \<times> 64 word) list \<Rightarrow>
     ((64 word \<times> poll_status) list \<times> epoll_req list) result" where
  "epoll_next_events mem stray [] = Inr ([], [])"
| "epoll_next_events mem stray ((events, data) # es) =
     (case decode_udata data of
        (keep_registered, is_cancel_event, a) \<Rightarrow>
          if is_cancel_event
          then (case epoll_next_events mem stray es of
                  Inl e \<Rightarrow> Inl e
                | Inr (rs, qs) \<Rightarrow>
                    Inr ((a, Status_cancelled) # rs,
                      (case (keep_registered, mem a) of (False, Some pi) \<Rightarrow> [epoll_unwatch_pi pi] | _ \<Rightarrow> []) @ qs))
          else (case epoll_event_to_poll_status events of
                  Inl e \<Rightarrow> Inl e
                | Inr st \<Rightarrow>
                    (case epoll_next_events mem stray es of
                       Inl e \<Rightarrow> Inl e
                     | Inr (rs, qs) \<Rightarrow>
                         Inr ((a, st) # rs,
                           (case read_cancel mem stray a of
                              Some c \<Rightarrow> if \<not> keep_registered then [epoll_unwatch c] else []
                            | None \<Rightarrow> []) @ qs))))"

text \<open>The timer handle of Linux: the request that registers it.\<close>

definition timer_handle_new :: "fd \<Rightarrow> 64 word \<Rightarrow> epoll_req" where
  "timer_handle_new f timer_ptr = epoll_watch f Poll_read timer_ptr True False"

section \<open>The kqueue notifier\<close>

text \<open>The constants of \<open>sys/event.h\<close>; filters are negative numbers.\<close>

definition EVFILT_READ :: int where "EVFILT_READ = -1"
definition EVFILT_WRITE :: int where "EVFILT_WRITE = -2"
definition EVFILT_TIMER :: int where "EVFILT_TIMER = -7"
definition EV_ADD :: "16 word" where "EV_ADD = 0x0001"
definition EV_DELETE :: "16 word" where "EV_DELETE = 0x0002"
definition EV_ENABLE :: "16 word" where "EV_ENABLE = 0x0004"
definition EV_ONESHOT :: "16 word" where "EV_ONESHOT = 0x0010"
definition EV_CLEAR :: "16 word" where "EV_CLEAR = 0x0020"
definition EV_ERROR :: "16 word" where "EV_ERROR = 0x4000"
definition EV_EOF :: "16 word" where "EV_EOF = 0x8000"

lemmas kqueue_consts = EVFILT_READ_def EVFILT_WRITE_def EVFILT_TIMER_def EV_ADD_def EV_DELETE_def EV_ENABLE_def
  EV_ONESHOT_def EV_CLEAR_def EV_ERROR_def EV_EOF_def

text \<open>The values of \<open>poll_op\<close> on these systems.\<close>

fun kq_poll_op :: "poll_op \<Rightarrow> int" where
  "kq_poll_op Poll_read = EVFILT_READ"
| "kq_poll_op Poll_write = EVFILT_WRITE"
| "kq_poll_op Poll_read_write = -5"

definition kq_poll_op_readable :: "poll_op \<Rightarrow> bool" where
  "kq_poll_op_readable op \<longleftrightarrow> kq_poll_op op AND kq_poll_op Poll_read \<noteq> 0"

record kevent =
  kq_ident :: int
  kq_filter :: int
  kq_flags :: "16 word"
  kq_data :: int
  kq_udata :: "64 word"

definition kq_watch_timer :: "int \<Rightarrow> 64 word \<Rightarrow> int \<Rightarrow> kevent" where
  "kq_watch_timer f inner duration =
     \<lparr>kq_ident = f, kq_filter = EVFILT_TIMER, kq_flags = EV_ADD OR EV_CLEAR OR EV_ONESHOT,
      kq_data = (if duration < 0 then 0 else duration), kq_udata = inner\<rparr>"

definition kq_watch :: "fd \<Rightarrow> poll_op \<Rightarrow> 64 word \<Rightarrow> bool \<Rightarrow> kevent" where
  "kq_watch f op data keep =
     \<lparr>kq_ident = f, kq_filter = kq_poll_op op,
      kq_flags = (EV_ADD OR EV_CLEAR OR EV_ENABLE) OR (if \<not> keep then EV_ONESHOT else 0),
      kq_data = 0, kq_udata = data\<rparr>"

text \<open>
  \<open>watch(poll_info&)\<close> with the answers that \<open>::kevent\<close> gives, in order; a refused registration ends it.
\<close>

definition kq_watch_pi :: "bool list \<Rightarrow> 64 word \<Rightarrow> poll_info \<Rightarrow> bool \<times> kevent list" where
  "kq_watch_pi answers a pi =
     (let ops = (if pi_op pi = Poll_read_write then [Poll_read, Poll_write] else [pi_op pi]);
          n = length (takeWhile id (take (length ops) answers));
          tried = map (\<lambda>op. kq_watch (pi_fd pi) op a False) (take (n + 1) ops)
      in if n < length ops then (False, tried)
         else (True, tried @ (case pi_cancel pi of None \<Rightarrow> [] | Some c \<Rightarrow> [kq_watch c Poll_read a False])))"

definition kq_delete :: "fd \<Rightarrow> int \<Rightarrow> kevent" where
  "kq_delete f flt = \<lparr>kq_ident = f, kq_filter = flt, kq_flags = EV_DELETE, kq_data = 0, kq_udata = 0\<rparr>"

definition kq_unwatch :: "fd \<Rightarrow> poll_op \<Rightarrow> kevent list" where
  "kq_unwatch f op =
     (if op = Poll_read_write then [kq_delete f (kq_poll_op Poll_read), kq_delete f (kq_poll_op Poll_write)]
      else [kq_delete f (kq_poll_op op)])"

definition kq_unwatch_pi :: "poll_info \<Rightarrow> kevent list" where
  "kq_unwatch_pi pi = kq_unwatch (pi_fd pi) (pi_op pi)"

definition kq_unwatch_timer :: "int \<Rightarrow> kevent" where
  "kq_unwatch_timer f = kq_delete f EVFILT_TIMER"

definition kq_event_to_poll_status :: "kevent \<Rightarrow> poll_status result" where
  "kq_event_to_poll_status ev =
     (let known = kq_filter ev = EVFILT_READ \<or> kq_filter ev = EVFILT_WRITE \<or> kq_filter ev = EVFILT_TIMER
      in if known \<and> kq_flags ev AND EV_EOF \<noteq> 0 then Inr Status_closed
         else if known \<and> kq_flags ev AND EV_ERROR \<noteq> 0 then Inr Status_error
         else if kq_filter ev = EVFILT_READ then Inr Status_read
         else if kq_filter ev = EVFILT_WRITE then Inr Status_write
         else if kq_filter ev = EVFILT_TIMER then Inr Status_read
         else Inl (Runtime_error ''invalid kqueue state''))"

fun kq_next_events ::
    "(64 word \<Rightarrow> poll_info option) \<Rightarrow> (64 word \<Rightarrow> fd option) \<Rightarrow> kevent list \<Rightarrow>
     ((64 word \<times> poll_status) list \<times> kevent list) result" where
  "kq_next_events mem stray [] = Inr ([], [])"
| "kq_next_events mem stray (ev # evs) =
     (let keep_registered = (kq_flags ev AND EV_ONESHOT = 0);
          a = kq_udata ev
      in if read_cancel mem stray a = Some (kq_ident ev)
         then (case kq_next_events mem stray evs of
                 Inl e \<Rightarrow> Inl e
               | Inr (rs, qs) \<Rightarrow>
                   Inr ((a, Status_cancelled) # rs,
                     (case (keep_registered, mem a) of (False, Some pi) \<Rightarrow> kq_unwatch_pi pi | _ \<Rightarrow> []) @ qs))
         else (case kq_event_to_poll_status ev of
                 Inl e \<Rightarrow> Inl e
               | Inr st \<Rightarrow>
                   (case kq_next_events mem stray evs of
                      Inl e \<Rightarrow> Inl e
                    | Inr (rs, qs) \<Rightarrow>
                        Inr ((a, st) # rs,
                          (case read_cancel mem stray a of
                             Some c \<Rightarrow> if \<not> keep_registered then kq_unwatch c Poll_read else []
                           | None \<Rightarrow> []) @ qs))))"

section \<open>Lemmas\<close>

lemma and_mask48: "x AND 0xFFFFFFFFFFFF = take_bit 48 x" for x :: "64 word"
proof -
  have "(0xFFFFFFFFFFFF :: 64 word) = mask 48" by (simp add: mask_eq_exp_minus_1)
  then show ?thesis by (simp only: take_bit_eq_mask)
qed

lemma and_mask62: "x AND 0x3FFFFFFFFFFFFFFF = take_bit 62 x" for x :: "64 word"
proof -
  have "(0x3FFFFFFFFFFFFFFF :: 64 word) = mask 62" by (simp add: mask_eq_exp_minus_1)
  then show ?thesis by (simp only: take_bit_eq_mask)
qed

lemma bit_bool_word: "bit (bool_word b) n \<longleftrightarrow> b \<and> n = 0"
  by (simp add: bool_word_def bit_1_iff)

lemma bit_encode_udata:
  "bit (encode_udata k c p) n \<longleftrightarrow> (n = 63 \<and> k) \<or> (n = 62 \<and> c) \<or> (n < 62 \<and> bit p n)"
  unfolding encode_udata_def and_mask62 by (auto simp: bit_or_iff bit_take_bit_iff bit_push_bit_iff bit_bool_word)

lemma small_word_bits: "unat (p :: 64 word) < 2 ^ 48 \<Longrightarrow> bit p n \<Longrightarrow> n < 48"
proof (rule ccontr)
  assume p: "unat p < 2 ^ 48" and b: "bit p n" and n: "\<not> n < 48"
  have "take_bit 48 (unat p) = unat p" using p by (simp add: take_bit_nat_eq_self)
  moreover have "bit (unat p) n" using b by (simp add: bit_unsigned_iff bit_imp_le_length)
  ultimately have "bit (take_bit 48 (unat p)) n" by simp
  then show False using n by (simp add: bit_take_bit_iff)
qed

lemma decode_encode_udata: "decode_udata (encode_udata k c p) = (k, c, p AND 0xFFFFFFFFFFFF)"
proof -
  have "drop_bit 63 (encode_udata k c p) = bool_word k"
    by (rule bit_eqI) (auto simp: bit_drop_bit_eq bit_encode_udata bit_bool_word dest: bit_imp_le_length)
  moreover have "drop_bit 62 (encode_udata k c p) AND 1 = bool_word c"
    by (rule bit_eqI) (auto simp: bit_drop_bit_eq bit_and_iff bit_1_iff bit_encode_udata bit_bool_word dest: bit_imp_le_length)
  moreover have "encode_udata k c p AND 0xFFFFFFFFFFFF = p AND 0xFFFFFFFFFFFF"
    unfolding and_mask48 by (rule bit_eqI) (auto simp: bit_take_bit_iff bit_encode_udata)
  ultimately show ?thesis by (simp add: decode_udata_def bool_word_def)
qed

lemma decode_encode_small:
  assumes "unat p < 2 ^ 48"
  shows "decode_udata (encode_udata k c p) = (k, c, p)"
proof -
  have "bit p n \<Longrightarrow> n < 48" for n by (rule small_word_bits [OF assms])
  then have "p AND 0xFFFFFFFFFFFF = p"
    unfolding and_mask48 by (intro bit_eqI) (auto simp: bit_take_bit_iff)
  then show ?thesis by (simp add: decode_encode_udata)
qed

section \<open>Properties\<close>

text \<open>C18: the user data of epoll events round-trips exactly for the pointers of 48 bits.  Decoding what
  \<open>encode_udata\<close> made gives back both flags for every pointer, and the pointer if and only if it is
  below \<open>2 ^ 48\<close>.\<close>

theorem udata_roundtrip:
  "(\<exists>q. decode_udata (encode_udata k c p) = (k, c, q)) \<and>
   (decode_udata (encode_udata k c p) = (k, c, p) \<longleftrightarrow> unat p < 2 ^ 48)"
proof -
  have "unat p < 2 ^ 48" if "decode_udata (encode_udata k c p) = (k, c, p)"
  proof -
    have "take_bit 48 p = p" using that unfolding decode_encode_udata and_mask48 by simp
    then have "unat p = take_bit 48 (unat p)" by (metis unsigned_take_bit_eq)
    then show ?thesis by (metis take_bit_nat_less_exp)
  qed
  then show ?thesis using decode_encode_small decode_encode_udata by blast
qed

text \<open>C19: the timer of the epoll notifier is armed with valid values.  For every duration, \<open>watch_timer\<close> sets
  nanoseconds below one second and no negative number, never both values to zero (which would disarm the timer),
  and together they are the duration, or one nanosecond for a duration that has passed.\<close>

theorem watch_timer_valid:
  "\<exists>seconds nanoseconds. epoll_watch_timer f d = Timer_set f seconds nanoseconds \<and> 0 \<le> seconds \<and> 0 \<le> nanoseconds \<and>
     nanoseconds < 1000000000 \<and> epoll_watch_timer f d \<noteq> epoll_unwatch_timer f \<and>
     seconds * 1000000000 + nanoseconds = max d 1"
proof (cases "0 < d")
  case True
  have "0 \<le> d div 1000000000" "0 \<le> d mod 1000000000" "d mod 1000000000 < 1000000000" using True by (simp_all add: pos_imp_zdiv_nonneg_iff)
  moreover have "d - d div 1000000000 * 1000000000 = d mod 1000000000" by (simp add: minus_div_mult_eq_mod)
  moreover have "d div 1000000000 * 1000000000 + d mod 1000000000 = d" by simp
  moreover from this have "d div 1000000000 = 0 \<Longrightarrow> 0 < d mod 1000000000" using True by simp
  ultimately show ?thesis using True
    by (cases "d div 1000000000 = 0") (auto simp: epoll_watch_timer_def duration_seconds_def epoll_unwatch_timer_def Let_def)
next
  case False
  have "(- d) div 1000000000 * 1000000000 \<le> - d" "0 \<le> (- d) div 1000000000"
    using False by (simp_all add: pos_imp_zdiv_nonneg_iff minus_mod_eq_div_mult [symmetric])
  then have "epoll_watch_timer f d = Timer_set f 0 1"
    using False by (auto simp: epoll_watch_timer_def duration_seconds_def Let_def)
  then show ?thesis using False by (simp add: epoll_unwatch_timer_def)
qed

text \<open>The epoll and the kqueue notifier agree.  For a poll info with a cancel trigger, both report an event of its
  descriptor with the same status and take the cancel trigger out of the set, and both report an event of
  the cancel trigger as \<open>cancelled\<close> and take the descriptor out.\<close>

theorem notifiers_agree:
  assumes "mem a = Some pi" and "pi_cancel pi = Some c" and "c \<noteq> pi_fd pi" and "unat a < 2 ^ 48"
  shows "epoll_next_events mem stray [(EPOLLIN, encode_udata False False a)] = Inr ([(a, Status_read)], [epoll_unwatch c]) \<and>
    kq_next_events mem stray [kq_watch (pi_fd pi) Poll_read a False] = Inr ([(a, Status_read)], kq_unwatch c Poll_read) \<and>
    epoll_next_events mem stray [(EPOLLOUT, encode_udata False False a)] = Inr ([(a, Status_write)], [epoll_unwatch c]) \<and>
    kq_next_events mem stray [kq_watch (pi_fd pi) Poll_write a False] = Inr ([(a, Status_write)], kq_unwatch c Poll_read) \<and>
    epoll_next_events mem stray [(EPOLLIN, encode_udata False True a)] = Inr ([(a, Status_cancelled)], [epoll_unwatch_pi pi]) \<and>
    kq_next_events mem stray [kq_watch c Poll_read a False] = Inr ([(a, Status_cancelled)], kq_unwatch_pi pi)"
  using assms
  by (simp add: decode_encode_small read_cancel_def kq_watch_def kq_event_to_poll_status_def epoll_event_to_poll_status_def
    epoll_consts kqueue_consts Let_def)

text \<open>
  An event of the timer or of a pipe of the scheduler, whose user data is not the address of a poll info, is
  registered to be kept, so what the code reads there as a cancel trigger has no effect.
\<close>

lemma stray_read_harmless:
  assumes "unat a < 2 ^ 48" and "mem a = None"
  shows "epoll_next_events mem stray [(EPOLLIN, encode_udata True False a)] = Inr ([(a, Status_read)], [])"
  using assms
  by (simp add: decode_encode_small read_cancel_def epoll_event_to_poll_status_def epoll_consts split: option.splits)

text \<open>Every event word with one of the bits that the notifier asks for has a status.\<close>

lemma epoll_status_total:
  "events AND (EPOLLIN OR EPOLLOUT OR EPOLLERR OR EPOLLRDHUP OR EPOLLHUP) \<noteq> 0 \<Longrightarrow> \<exists>st. epoll_event_to_poll_status events = Inr st"
  by (auto simp: epoll_event_to_poll_status_def bit.conj_disj_distrib)

text \<open>Moving a pipe leaves 0 as a descriptor of the source, and closing the source closes it.\<close>

lemma pipe_move_closes_stdin: "fst (pipe_close (snd (pipe_move p))) = [0]"
  by (simp add: pipe_move_def pipe_close_def pipe_braced_def)

text \<open>The names of the statuses are distinct, except that \<open>cancelled\<close> has none.\<close>

lemma poll_status_to_string_inj:
  "poll_status_to_string x = poll_status_to_string y \<longleftrightarrow> x = y" "poll_status_to_string Status_cancelled = ''unknown''"
  by (cases x; cases y; simp)+

lemma poll_op_bits_readable: "poll_op_readable op \<longleftrightarrow> op \<noteq> Poll_write" "poll_op_writeable op \<longleftrightarrow> op \<noteq> Poll_read"
  by (cases op; simp add: poll_op_readable_def poll_op_writeable_def epoll_consts)+

lemma kq_always_readable: "kq_poll_op_readable Poll_write"
  by (simp add: kq_poll_op_readable_def kqueue_consts)

section \<open>Witnesses\<close>

theorem notifiers_agree_witness:
  "epoll_next_events [4096 \<mapsto> poll_info_new 5 Poll_read (Some 9)] (\<lambda>_. None) [(EPOLLIN, encode_udata False True 4096)] =
     Inr ([(4096, Status_cancelled)], [epoll_unwatch_pi (poll_info_new 5 Poll_read (Some 9))])"
  using notifiers_agree [of "[4096 \<mapsto> poll_info_new 5 Poll_read (Some 9)]" 4096 "poll_info_new 5 Poll_read (Some 9)" 9 "\<lambda>_. None"]
  by (simp add: poll_info_new_def)

end
