(* ===== verification/Scheduler.thy ===== *)
theory Scheduler
  imports IoNotifier AwaiterList "HOL-Library.Multiset"
begin

text \<open>
  The io scheduler of \<open>include/coro/scheduler.hpp\<close> and \<open>src/scheduler.cpp\<close>.  The first part has each function as one step:
  what coroutines do to sleep, and what the event loop does with delivered events; time points come from
  outside.  \<open>poll\<close> is one step, as if the event loop did not run between its statements.  The last part of the definitions takes the path from a schedule operation
  to the event loop apart into its shared accesses.
\<close>

section \<open>State\<close>

text \<open>
  The user data that stand for the timer and the two pipes, and the descriptor of the timer.  Addresses of poll infos differ
  from them and have 48 bits.
\<close>

record scheduler_env =
  env_timer_ptr :: "64 word"
  env_schedule_ptr :: "64 word"
  env_shutdown_ptr :: "64 word"
  env_timer_fd :: fd

text \<open>
  \<open>sc_timed\<close> is the multimap \<open>m_timed_events\<close>: entries in the order of their time points, entries with equal
  time points in the order of their insertion; the number in an entry is its iterator.  \<open>sc_ops\<close> are the
  scheduled operations, newest first; \<open>sc_pipe\<close> counts the \<open>int\<close>s in the schedule pipe.  \<open>sc_pi\<close> are the
  poll infos that exist.  The last fields record an execution: requests to the system, the coroutines that have been put to
  sleep, and those that have been resumed or handed to the thread pool.
\<close>

record scheduler =
  sc_inline :: bool
  sc_size :: nat
  sc_timed :: "(int \<times> nat \<times> 64 word) list"
  sc_next_id :: nat
  sc_pi :: "64 word \<Rightarrow> poll_info option"
  sc_ops :: "handle list"
  sc_triggered :: bool
  sc_pipe :: nat
  sc_shutdown :: bool
  sc_handles :: "handle list"
  sc_detached :: nat
  sc_reqs :: "epoll_req list"
  sc_slept :: "handle list"
  sc_resumed :: "handle list"
  sc_pool :: "handle list"

text \<open>The constructor, with the answers of the two registrations.\<close>

definition scheduler_new :: "bool \<Rightarrow> bool \<Rightarrow> bool \<Rightarrow> scheduler result" where
  "scheduler_new process_tasks_inline shutdown_watched schedule_watched =
     (if \<not> shutdown_watched then Inl (Runtime_error ''Failed to register m_shutdown_pipe.read_fd() for read events.'')
      else if \<not> schedule_watched then Inl (Runtime_error ''Failed to register m_schedule.pipe.read_rd() for read events.'')
      else Inr \<lparr>sc_inline = process_tasks_inline, sc_size = 0, sc_timed = [], sc_next_id = 0, sc_pi = \<lambda>_. None, sc_ops = [],
             sc_triggered = False, sc_pipe = 0, sc_shutdown = False, sc_handles = [], sc_detached = 0, sc_reqs = [],
             sc_slept = [], sc_resumed = [], sc_pool = []\<rparr>)"

section \<open>Timed events\<close>

definition request :: "epoll_req \<Rightarrow> scheduler \<Rightarrow> scheduler" where
  "request q s = s\<lparr>sc_reqs := sc_reqs s @ [q]\<rparr>"

definition update_timeout :: "scheduler_env \<Rightarrow> int \<Rightarrow> scheduler \<Rightarrow> scheduler" where
  "update_timeout env now s =
     (case sc_timed s of
        (tp, pi) # _ \<Rightarrow> request (epoll_watch_timer (env_timer_fd env) (tp - now)) s
      | [] \<Rightarrow> request (epoll_unwatch_timer (env_timer_fd env)) s)"

text \<open>\<open>emplace\<close> puts an entry behind those with the same or an earlier time point.\<close>

fun timed_emplace :: "int \<times> nat \<times> 64 word \<Rightarrow> (int \<times> nat \<times> 64 word) list \<Rightarrow> (int \<times> nat \<times> 64 word) list" where
  "timed_emplace x [] = [x]"
| "timed_emplace x (y # ys) = (if fst y \<le> fst x then y # timed_emplace x ys else x # y # ys)"

definition add_timer_token :: "scheduler_env \<Rightarrow> int \<Rightarrow> int \<Rightarrow> 64 word \<Rightarrow> scheduler \<Rightarrow> nat \<times> scheduler" where
  "add_timer_token env now tp a s =
     (let pos = sc_next_id s;
          s = s\<lparr>sc_timed := timed_emplace (tp, pos, a) (sc_timed s), sc_next_id := pos + 1\<rparr>
      in (pos, if fst (snd (hd (sc_timed s))) = pos then update_timeout env now s else s))"

definition remove_timer_token :: "scheduler_env \<Rightarrow> int \<Rightarrow> nat \<Rightarrow> scheduler \<Rightarrow> scheduler" where
  "remove_timer_token env now pos s =
     (let is_first = (sc_timed s \<noteq> [] \<and> fst (snd (hd (sc_timed s))) = pos);
          s = s\<lparr>sc_timed := filter (\<lambda>e. fst (snd e) \<noteq> pos) (sc_timed s)\<rparr>
      in if is_first then update_timeout env now s else s)"

section \<open>Putting coroutines to sleep\<close>

text \<open>\<open>schedule_operation::await_suspend\<close>.\<close>

definition sc_schedule :: "handle \<Rightarrow> scheduler \<Rightarrow> scheduler" where
  "sc_schedule h s =
     (if sc_inline s
      then (let s = s\<lparr>sc_size := sc_size s + 1, sc_ops := h # sc_ops s, sc_slept := h # sc_slept s\<rparr>
            in if \<not> sc_triggered s then s\<lparr>sc_triggered := True, sc_pipe := sc_pipe s + 1\<rparr> else s)
      else s\<lparr>sc_pool := sc_pool s @ [h], sc_slept := h # sc_slept s\<rparr>)"

text \<open>A poll info that a coroutine awaits.\<close>

definition sleep_on :: "64 word \<Rightarrow> poll_info \<Rightarrow> handle \<Rightarrow> scheduler \<Rightarrow> scheduler" where
  "sleep_on a pi h s = s\<lparr>sc_pi := (sc_pi s)(a := Some (pi\<lparr>pi_awaiting := Some h\<rparr>)), sc_slept := h # sc_slept s\<rparr>"

definition put_pi :: "64 word \<Rightarrow> poll_info \<Rightarrow> scheduler \<Rightarrow> scheduler" where
  "put_pi a pi s = s\<lparr>sc_pi := (sc_pi s)(a := Some pi)\<rparr>"


definition duration_milliseconds :: "int \<Rightarrow> int" where
  "duration_milliseconds ns = ns div 1000000 * 1000000"


definition poll :: "scheduler_env \<Rightarrow> int \<Rightarrow> fd \<Rightarrow> poll_op \<Rightarrow> int \<Rightarrow> fd option \<Rightarrow> 64 word \<Rightarrow> handle \<Rightarrow> scheduler \<Rightarrow> scheduler" where
  "poll env now f op timeout cancel_trigger a h s =
     (let s = s\<lparr>sc_size := sc_size s + 1\<rparr>;
          pi = poll_info_new f op cancel_trigger;
          (pos, s) = (if 0 < timeout then (case add_timer_token env now (now + timeout) a s of (p, s) \<Rightarrow> (Some p, s)) else (None, s));
          pi = pi\<lparr>pi_timer_pos := pos\<rparr>;
          s = foldl (\<lambda>s q. request q s) s (snd (epoll_watch_pi a pi))
      in sleep_on a pi h s)"

section \<open>Resuming from outside, detached tasks, shutdown\<close>

text \<open>\<open>resume\<close>; the flags say that the handle is done and what the thread pool answers.\<close>

definition sc_resume :: "bool \<Rightarrow> bool \<Rightarrow> ptr \<Rightarrow> scheduler \<Rightarrow> bool \<times> scheduler" where
  "sc_resume done pool_accepts p s =
     (case p of
        None \<Rightarrow> (False, s)
      | Some h \<Rightarrow>
          if done \<or> sc_shutdown s then (False, s)
          else if sc_inline s then (True, sc_schedule h s)
          else (pool_accepts, if pool_accepts then sc_schedule h s else s))"

primrec sc_resume_range :: "(bool \<times> bool \<times> ptr) list \<Rightarrow> scheduler \<Rightarrow> nat \<times> scheduler" where
  "sc_resume_range [] s = (0, s)"
| "sc_resume_range (x # xs) s =
     (case sc_resume (fst x) (fst (snd x)) (snd (snd x)) s of
        (ok, s) \<Rightarrow> (case sc_resume_range xs s of (n, s) \<Rightarrow> (if ok then n + 1 else n, s)))"

definition sc_spawn_detached :: "bool \<Rightarrow> handle \<Rightarrow> scheduler \<Rightarrow> bool \<times> scheduler" where
  "sc_spawn_detached pool_accepts h s =
     sc_resume False pool_accepts (Some h) (s\<lparr>sc_size := sc_size s + 1, sc_detached := sc_detached s + 1\<rparr>)"



definition dedicated_thread_continues :: "nat \<Rightarrow> scheduler \<Rightarrow> bool" where
  "dedicated_thread_continues pool_size s \<longleftrightarrow> \<not> sc_shutdown s \<or> 0 < sc_size s + (if sc_inline s then 0 else pool_size)"

section \<open>The event loop\<close>

text \<open>
  A poll info whose coroutine has not been suspended yet makes the loop spin: no step.
\<close>

definition fire :: "64 word \<Rightarrow> poll_info \<Rightarrow> scheduler \<Rightarrow> scheduler option" where
  "fire a pi s =
     (case pi_awaiting pi of
        None \<Rightarrow> None
      | Some h \<Rightarrow> Some (put_pi a pi (s\<lparr>sc_handles := sc_handles s @ [h]\<rparr>)))"

text \<open>\<open>process_event_execute\<close>; an address without a poll info is a dangling pointer.\<close>

definition process_event_execute :: "scheduler_env \<Rightarrow> int \<Rightarrow> 64 word \<Rightarrow> poll_status \<Rightarrow> scheduler \<Rightarrow> scheduler option" where
  "process_event_execute env now a status s =
     (case sc_pi s a of
        None \<Rightarrow> None
      | Some pi \<Rightarrow>
          if pi_processed pi then Some s
          else
            (let s = (if pi_fd pi \<noteq> -1 then request (epoll_unwatch_pi pi) s else s);
                 s = (case pi_timer_pos pi of None \<Rightarrow> s | Some pos \<Rightarrow> remove_timer_token env now pos s)
             in fire a (pi\<lparr>pi_processed := True, pi_status := status\<rparr>) s))"

text \<open>The first loop of \<open>process_timeout_execute\<close>: the poll infos of the entries that are due, and the rest.\<close>

fun take_due :: "int \<Rightarrow> (int \<times> nat \<times> 64 word) list \<Rightarrow> 64 word list \<times> (int \<times> nat \<times> 64 word) list" where
  "take_due now [] = ([], [])"
| "take_due now (e # es) =
     (if fst e \<le> now then (case take_due now es of (due, rest) \<Rightarrow> (snd (snd e) # due, rest)) else ([], e # es))"

fun fire_timeouts :: "64 word list \<Rightarrow> scheduler \<Rightarrow> scheduler option" where
  "fire_timeouts [] s = Some s"
| "fire_timeouts (a # as) s =
     (case sc_pi s a of
        None \<Rightarrow> None
      | Some pi \<Rightarrow>
          if pi_processed pi then fire_timeouts as s
          else
            (let s = (if pi_fd pi \<noteq> -1 then request (epoll_unwatch_pi pi) s else s)
             in Option.bind (fire a (pi\<lparr>pi_processed := True, pi_status := Status_timeout\<rparr>) s) (fire_timeouts as)))"

definition process_timeout_execute :: "scheduler_env \<Rightarrow> int \<Rightarrow> int \<Rightarrow> scheduler \<Rightarrow> scheduler option" where
  "process_timeout_execute env now now' s =
     (case take_due now (sc_timed s) of
        (due, rest) \<Rightarrow> map_option (update_timeout env now') (fire_timeouts due (s\<lparr>sc_timed := rest\<rparr>)))"

text \<open>
  Reading the schedule pipe, four \<open>int\<close>s at a time, until a read is not full; the number of reads.
\<close>

fun drain_pipe :: "nat \<Rightarrow> nat \<times> nat" where
  "drain_pipe k = (if 4 \<le> k then (case drain_pipe (k - 4) of (left, reads) \<Rightarrow> (left, reads + 1)) else (0, 1))"

declare drain_pipe.simps [simp del]

definition process_scheduled_execute_inline :: "scheduler \<Rightarrow> scheduler" where
  "process_scheduled_execute_inline s =
     s\<lparr>sc_pipe := fst (drain_pipe (sc_pipe s)), sc_triggered := False, sc_handles := sc_handles s @ rev (sc_ops s), sc_ops := []\<rparr>"

definition dispatch :: "scheduler_env \<Rightarrow> int \<Rightarrow> int \<Rightarrow> 64 word \<times> poll_status \<Rightarrow> scheduler \<Rightarrow> scheduler option" where
  "dispatch env now now' ev s =
     (if fst ev = env_timer_ptr env then process_timeout_execute env now now' s
      else if fst ev = env_schedule_ptr env then Some (process_scheduled_execute_inline s)
      else if fst ev = env_shutdown_ptr env then Some s
      else process_event_execute env now (fst ev) (snd ev) s)"

text \<open>
  The end of \<open>process_events_execute\<close>: all picked coroutines are resumed, or handed to the thread pool; their poll infos, which are
  local variables of theirs, are gone.
\<close>

definition resume_picked :: "scheduler \<Rightarrow> scheduler" where
  "resume_picked s =
     (let s = (if sc_inline s then s\<lparr>sc_resumed := sc_resumed s @ sc_handles s\<rparr> else s\<lparr>sc_pool := sc_pool s @ sc_handles s\<rparr>)
      in s\<lparr>sc_size := sc_size s - length (sc_handles s), sc_handles := [],
           sc_pi := (\<lambda>a. case sc_pi s a of Some pi \<Rightarrow> if pi_processed pi then None else Some pi | None \<Rightarrow> None)\<rparr>)"

fun dispatch_all :: "scheduler_env \<Rightarrow> int \<Rightarrow> int \<Rightarrow> (64 word \<times> poll_status) list \<Rightarrow> scheduler \<Rightarrow> scheduler option" where
  "dispatch_all env now now' [] s = Some s"
| "dispatch_all env now now' (ev # evs) s = Option.bind (dispatch env now now' ev s) (dispatch_all env now now' evs)"

text \<open>\<open>process_events_execute\<close> on the events that \<open>next_events\<close> delivered.\<close>

definition process_events_execute ::
    "scheduler_env \<Rightarrow> int \<Rightarrow> int \<Rightarrow> (64 word \<times> poll_status) list \<Rightarrow> scheduler \<Rightarrow> scheduler option" where
  "process_events_execute env now now' evs s = map_option resume_picked (dispatch_all env now now' evs s)"

section \<open>Executions\<close>

text \<open>A new poll info lives at a free address that is none of the distinguished ones.\<close>

definition free_addr :: "scheduler_env \<Rightarrow> 64 word \<Rightarrow> scheduler \<Rightarrow> bool" where
  "free_addr env a s \<longleftrightarrow> sc_pi s a = None \<and> a \<notin> {env_timer_ptr env, env_schedule_ptr env, env_shutdown_ptr env}"


definition sc_init :: "bool \<Rightarrow> scheduler \<Rightarrow> bool" where
  "sc_init process_tasks_inline s \<longleftrightarrow> scheduler_new process_tasks_inline True True = Inr s"

section \<open>The invariant\<close>

text \<open>The coroutine that waits for a poll info, and all of them.\<close>

definition sleeper :: "poll_info option \<Rightarrow> handle multiset" where
  "sleeper x =
     (case x of
        Some pi \<Rightarrow> if pi_processed pi then {#} else (case pi_awaiting pi of Some h \<Rightarrow> {#h#} | None \<Rightarrow> {#})
      | None \<Rightarrow> {#})"

definition sleeping :: "(64 word \<Rightarrow> poll_info option) \<Rightarrow> handle multiset" where
  "sleeping f = (\<Sum>a\<in>UNIV. sleeper (f a))"

definition is_timer_req :: "epoll_req \<Rightarrow> bool" where
  "is_timer_req q = (case q of Timer_set f x y \<Rightarrow> True | _ \<Rightarrow> False)"

text \<open>The last request for the timer, if there is one.\<close>

definition last_timer :: "scheduler \<Rightarrow> epoll_req option" where
  "last_timer s = (case rev (filter is_timer_req (sc_reqs s)) of [] \<Rightarrow> None | q # qs \<Rightarrow> Some q)"


definition timed_ok :: "scheduler \<Rightarrow> bool" where
  "timed_ok s \<longleftrightarrow> sorted (map fst (sc_timed s)) \<and> distinct (map (fst \<circ> snd) (sc_timed s)) \<and>
     distinct (map (snd \<circ> snd) (sc_timed s)) \<and> (\<forall>e\<in>set (sc_timed s). fst (snd e) < sc_next_id s)"

text \<open>Every pending entry belongs to an unprocessed poll info that a coroutine awaits, and which knows its entry if it waits for a descriptor too.\<close>

definition entry_ok :: "scheduler \<Rightarrow> int \<times> nat \<times> 64 word \<Rightarrow> bool" where
  "entry_ok s e \<longleftrightarrow>
     (\<exists>pi. sc_pi s (snd (snd e)) = Some pi \<and> \<not> pi_processed pi \<and> pi_awaiting pi \<noteq> None \<and>
        (pi_timer_pos pi = Some (fst (snd e)) \<or> pi_fd pi = -1))"

definition accounts_ok :: "scheduler \<Rightarrow> bool" where
  "accounts_ok s \<longleftrightarrow>
     mset (sc_slept s) = mset (sc_ops s) + sleeping (sc_pi s) + mset (sc_handles s) + mset (sc_resumed s) + mset (sc_pool s) \<and>
     sc_size s = length (sc_ops s) + size (sleeping (sc_pi s)) + length (sc_handles s) + sc_detached s"


section \<open>Waking the event loop\<close>

text \<open>
  The schedule operations of the inline strategy and the event loop, one shared access at a time.  A producer has added to
  \<open>m_size\<close> and pushes, tries to set \<open>m_schedule_pipe_triggered\<close>, and writes to the pipe if it did.  The pipe is watched
  edge-triggered: a write makes one event, which \<open>epoll_wait\<close> delivers once.  The event loop drains the
  pipe, clears the flag, and takes all operations.
\<close>

datatype producer = P_idle | P_push | P_cas | P_write
datatype looper = L_wait | L_drain | L_reset | L_pop

record wake_sys =
  wk_ops :: "handle list"
  wk_triggered :: bool
  wk_pipe :: nat
  wk_edge :: bool
  wk_producer :: "handle \<Rightarrow> producer"
  wk_loop :: looper
  wk_accepted :: "handle list"
  wk_taken :: "handle list"

fun wk_producer_step :: "handle \<Rightarrow> wake_sys \<Rightarrow> wake_sys" where
  "wk_producer_step h s =
     (case wk_producer s h of
        P_idle \<Rightarrow> s\<lparr>wk_producer := (wk_producer s)(h := P_push)\<rparr>
      | P_push \<Rightarrow>
          s\<lparr>wk_ops := h # wk_ops s, wk_accepted := wk_accepted s @ [h], wk_producer := (wk_producer s)(h := P_cas)\<rparr>
      | P_cas \<Rightarrow>
          (case compare_exchange False (wk_triggered s) False True of
             (ok, _, v) \<Rightarrow> s\<lparr>wk_triggered := v, wk_producer := (wk_producer s)(h := if ok then P_write else P_idle)\<rparr>)
      | P_write \<Rightarrow> s\<lparr>wk_pipe := wk_pipe s + 1, wk_edge := True, wk_producer := (wk_producer s)(h := P_idle)\<rparr>)"

fun wk_loop_step :: "wake_sys \<Rightarrow> wake_sys option" where
  "wk_loop_step s =
     (case wk_loop s of
        L_wait \<Rightarrow> if wk_edge s then Some (s\<lparr>wk_edge := False, wk_loop := L_drain\<rparr>) else None
      | L_drain \<Rightarrow> Some (s\<lparr>wk_pipe := fst (drain_pipe (wk_pipe s)), wk_loop := L_reset\<rparr>)
      | L_reset \<Rightarrow> Some (s\<lparr>wk_triggered := False, wk_loop := L_pop\<rparr>)
      | L_pop \<Rightarrow> Some (s\<lparr>wk_taken := wk_taken s @ rev (wk_ops s), wk_ops := [], wk_loop := L_wait\<rparr>))"

inductive wk_step :: "wake_sys \<Rightarrow> wake_sys \<Rightarrow> bool" where
  wk_produce: "wk_step s (wk_producer_step h s)"
| wk_consume: "wk_loop_step s = Some s' \<Longrightarrow> wk_step s s'"

definition wk_init :: "wake_sys \<Rightarrow> bool" where
  "wk_init s \<longleftrightarrow> s = \<lparr>wk_ops = [], wk_triggered = False, wk_pipe = 0, wk_edge = False, wk_producer = \<lambda>_. P_idle, wk_loop = L_wait,
     wk_accepted = [], wk_taken = []\<rparr>"

definition wk_inv :: "wake_sys \<Rightarrow> bool" where
  "wk_inv s \<longleftrightarrow> wk_taken s @ rev (wk_ops s) = wk_accepted s \<and>
     (wk_triggered s \<longrightarrow> wk_edge s \<or> (\<exists>h. wk_producer s h = P_write) \<or> wk_loop s = L_drain \<or> wk_loop s = L_reset) \<and>
     (wk_ops s \<noteq> [] \<longrightarrow> wk_triggered s \<or> (\<exists>h. wk_producer s h = P_cas) \<or> wk_loop s = L_pop)"

section \<open>Lemmas\<close>





lemma last_timer_request [simp]: "last_timer (request q s) = (if is_timer_req q then Some q else last_timer s)"
  by (simp add: last_timer_def request_def)

lemma request_simps [simp]:
  "sc_timed (request q s) = sc_timed s" "sc_pi (request q s) = sc_pi s" "sc_next_id (request q s) = sc_next_id s"
  "accounts_ok (request q s) = accounts_ok s" "timed_ok (request q s) = timed_ok s" "entry_ok (request q s) e = entry_ok s e"
  "sc_handles (request q s) = sc_handles s"
  by (simp_all add: request_def accounts_ok_def timed_ok_def entry_ok_def)

lemma timer_reqs [simp]:
  "is_timer_req (epoll_watch_timer f d)" "is_timer_req (epoll_unwatch_timer f)" "\<not> is_timer_req (epoll_unwatch_pi pi)"
  "\<not> is_timer_req (epoll_watch f' op a k c)"
  by (simp_all add: is_timer_req_def epoll_watch_timer_def epoll_unwatch_timer_def epoll_unwatch_pi_def epoll_unwatch_def
    epoll_watch_def Let_def)



lemma accounts_timed [simp]:
  "accounts_ok (s\<lparr>sc_timed := es\<rparr>) = accounts_ok s" "accounts_ok (s\<lparr>sc_timed := es, sc_next_id := n\<rparr>) = accounts_ok s"
  by (simp_all add: accounts_ok_def)

lemma update_timeout_simps [simp]:
  "sc_timed (update_timeout env now s) = sc_timed s" "accounts_ok (update_timeout env now s) = accounts_ok s"
  "timed_ok (update_timeout env now s) = timed_ok s" "entry_ok (update_timeout env now s) e = entry_ok s e"
  "sc_pi (update_timeout env now s) = sc_pi s" "sc_size (update_timeout env now s) = sc_size s"
  by (simp_all add: update_timeout_def split: list.splits) (simp_all add: request_def)



text \<open>The multimap.\<close>

lemma timed_emplace_set [simp]: "set (timed_emplace x ys) = insert x (set ys)"
  by (induction ys) auto













lemma schedule_simps [simp]:
  "sc_timed (sc_schedule h s) = sc_timed s" "sc_reqs (sc_schedule h s) = sc_reqs s" "sc_pi (sc_schedule h s) = sc_pi s"
  "sc_next_id (sc_schedule h s) = sc_next_id s"
  by (simp_all add: sc_schedule_def Let_def)
















text \<open>The time-outs in full.\<close>

lemma drain_pipe_empties: "fst (drain_pipe k) = 0 \<and> snd (drain_pipe k) = k div 4 + 1"
proof (induction k rule: drain_pipe.induct)
  case (1 k)
  show ?case
  proof (cases "4 \<le> k")
    case True
    then have "k div 4 = (k - 4) div 4 + 1" by presburger
    then show ?thesis using 1 True by (subst (1 2) drain_pipe.simps) (simp add: case_prod_unfold)
  next
    case False
    then show ?thesis by (subst (1 2) drain_pipe.simps) simp
  qed
qed




lemma wk_inv_step: "wk_inv s \<Longrightarrow> wk_step s s' \<Longrightarrow> wk_inv s'"
proof (erule wk_step.cases)
  fix h u assume i: "wk_inv s" and e: "s = u" "s' = wk_producer_step h u"
  have u: "\<And>p P. (\<exists>g. wk_producer u g = P) \<Longrightarrow> wk_producer u h \<noteq> P \<Longrightarrow> \<exists>g. ((wk_producer u)(h := p)) g = P"
    by (metis fun_upd_other)
  have n: "\<exists>g. ((wk_producer u)(h := p)) g = p" for p by (rule exI [of _ h]) simp
  show "wk_inv s'"
  proof (cases "wk_producer u h")
    case P_idle
    then show ?thesis using i u [of P_write P_push] u [of P_cas P_push] unfolding e wk_inv_def by (simp del: fun_upd_apply) blast
  next
    case P_push
    then show ?thesis using i u [of P_write P_cas] n [of P_cas] unfolding e wk_inv_def by (auto simp del: fun_upd_apply)
  next
    case P_cas
    then show ?thesis using i u [of P_write P_idle] n [of P_write] unfolding e wk_inv_def
      by (auto simp: compare_exchange_def simp del: fun_upd_apply)
  next
    case P_write
    then show ?thesis using i u [of P_cas P_idle] unfolding e wk_inv_def by (simp del: fun_upd_apply) blast
  qed
next
  fix u v assume "wk_inv s" "s = u" "s' = v" "wk_loop_step u = Some v"
  then show "wk_inv s'" by (cases "wk_loop u") (auto simp: wk_inv_def split: if_splits)
qed

interpretation wks: invariant_system wk_init wk_step wk_inv
proof
  show "wk_init s \<Longrightarrow> wk_inv s" for s by (simp add: wk_init_def wk_inv_def)
qed (rule wk_inv_step)

section \<open>Properties\<close>



text \<open>C22: no scheduled operation is forgotten by the event loop.  In every interleaving of producers and the event loop,
  operations are taken in the order in which they were pushed, and while one is pushed and not
  taken, the pipe event is pending, the loop is already handling one, or a producer is about to set the flag or to write to
  the pipe.\<close>

theorem scheduler_no_lost_wakeup:
  assumes "reach wk_init wk_step s"
  shows "wk_taken s @ rev (wk_ops s) = wk_accepted s \<and>
    (wk_ops s \<noteq> [] \<longrightarrow> wk_edge s \<or> wk_loop s \<noteq> L_wait \<or> (\<exists>h. wk_producer s h = P_cas \<or> wk_producer s h = P_write))"
  using wks.inv_reach [OF assms] by (auto simp: wk_inv_def)

text \<open>A time-out leaves the cancel trigger of its poll registered.  After a \<open>poll\<close> with a time-out and a cancel trigger
  has timed out and its coroutine has been resumed, the poll info is gone, the registration of the cancel
  trigger with the address of the poll info has not been undone, and when the trigger is signalled the event
  loop follows the dangling pointer.\<close>

theorem scheduler_timeout_dangling:
  assumes "sc_init True s" and "0 < timeout" and "f \<noteq> -1" and "c \<noteq> f" and "free_addr env a s" and "now + timeout \<le> now1"
  shows "\<exists>s'. process_events_execute env now1 now2 [(env_timer_ptr env, Status_read)] (poll env now f op timeout (Some c) a h s) = Some s' \<and>
    sc_resumed s' = [h] \<and> sc_pi s' a = None \<and>
    epoll_watch c Poll_read a False True \<in> set (sc_reqs s') \<and> epoll_unwatch c \<notin> set (sc_reqs s') \<and>
    dispatch env now2 now2 (a, Status_cancelled) s' = None"
proof -
  have s: "Inr s = scheduler_new True True True" using assms(1) by (simp add: sc_init_def)
  have a: "a \<noteq> env_timer_ptr env" "a \<noteq> env_schedule_ptr env" "a \<noteq> env_shutdown_ptr env" using assms(5) by (auto simp: free_addr_def)
  show ?thesis using s assms(2-4,6) a
    by (simp add: scheduler_new_def process_events_execute_def dispatch_def process_timeout_execute_def poll_def add_timer_token_def
      update_timeout_def request_def epoll_watch_pi_def sleep_on_def fire_def put_pi_def poll_info_new_def resume_picked_def
      process_event_execute_def epoll_unwatch_pi_def epoll_watch_def epoll_unwatch_def epoll_watch_timer_def epoll_unwatch_timer_def Let_def)
qed

text \<open>
  \<open>spawn_detached\<close> after a shutdown answers false and leaves \<open>m_size\<close> one too large, and a dedicated thread whose
  \<open>size()\<close> is positive never leaves its loop.
\<close>

lemma scheduler_spawn_leaks:
  assumes "sc_shutdown s"
  shows "fst (sc_spawn_detached ok h s) = False \<and> sc_size (snd (sc_spawn_detached ok h s)) = sc_size s + 1 \<and>
    dedicated_thread_continues n (snd (sc_spawn_detached ok h s))"
  using assms by (simp add: sc_spawn_detached_def sc_resume_def dedicated_thread_continues_def)

text \<open>\<open>yield_until\<close> rounds the remaining time down to milliseconds, and wakes up to one millisecond early.\<close>

lemma yield_until_early:
  assumes "now < time"
  shows "now + duration_milliseconds (time - now) \<le> time" and "time - (now + duration_milliseconds (time - now)) < 1000000"
  by (simp_all add: duration_milliseconds_def minus_mod_eq_div_mult [symmetric])

section \<open>Witnesses\<close>

definition demo_env :: scheduler_env where
  "demo_env = \<lparr>env_timer_ptr = 8, env_schedule_ptr = 16, env_shutdown_ptr = 24, env_timer_fd = 3\<rparr>"

definition demo_scheduler :: scheduler where
  "demo_scheduler = \<lparr>sc_inline = True, sc_size = 0, sc_timed = [], sc_next_id = 0, sc_pi = \<lambda>_. None, sc_ops = [],
     sc_triggered = False, sc_pipe = 0, sc_shutdown = False, sc_handles = [], sc_detached = 0, sc_reqs = [],
     sc_slept = [], sc_resumed = [], sc_pool = []\<rparr>"

lemma demo_init: "sc_init True demo_scheduler"
  by (simp add: sc_init_def scheduler_new_def demo_scheduler_def)





definition wk_demo :: wake_sys where
  "wk_demo = \<lparr>wk_ops = [7], wk_triggered = False, wk_pipe = 0, wk_edge = False,
     wk_producer = (\<lambda>_. P_idle)(7 := P_cas), wk_loop = L_wait, wk_accepted = [7], wk_taken = []\<rparr>"

lemma wk_demo_reach: "reach wk_init wk_step wk_demo"
proof -
  let ?s = "\<lparr>wk_ops = [], wk_triggered = False, wk_pipe = 0, wk_edge = False, wk_producer = \<lambda>_. P_idle, wk_loop = L_wait,
     wk_accepted = [], wk_taken = []\<rparr>"
  have "reach wk_init wk_step ?s" by (rule reach_init) (simp add: wk_init_def)
  then have "reach wk_init wk_step (wk_producer_step 7 (wk_producer_step 7 ?s))"
    by (blast intro: reach_step wk_produce)
  then show ?thesis by (simp add: wk_demo_def)
qed

theorem scheduler_no_lost_wakeup_witness: "\<exists>h. wk_producer wk_demo h = P_cas \<or> wk_producer wk_demo h = P_write"
  using scheduler_no_lost_wakeup [OF wk_demo_reach] by (auto simp: wk_demo_def)

theorem scheduler_timeout_dangling_witness:
  "\<exists>s'. process_events_execute demo_env 20 21 [(8, Status_read)] (poll demo_env 0 5 Poll_read 10 (Some 9) 4096 2 demo_scheduler) = Some s' \<and>
     sc_resumed s' = [2] \<and> dispatch demo_env 21 21 (4096, Status_cancelled) s' = None"
  using scheduler_timeout_dangling [OF demo_init, of 10 5 9 demo_env 4096 0 20 21 Poll_read 2]
  by (auto simp: free_addr_def demo_scheduler_def demo_env_def)

end
