(* ===== verification/Task.thy ===== *)
theory Task
  imports Prelude
begin

text \<open>
  The task of \<open>include/coro/task.hpp\<close>: its promise, the awaitable of \<open>operator co_await\<close> and the class that owns the
  coroutine.  Bodies of coroutines are trees of suspension points, and one thread of control moves between the
  coroutines by symmetric transfer.  The lemmas compare this machine with the evaluation in which \<open>co_await\<close> is a
  function call, and show that every coroutine has one owner until it is destroyed.
\<close>

section \<open>Promises\<close>

text \<open>\<open>m_storage\<close>: a value that was never set, a value, or an exception.\<close>

datatype 'v storage = Unset | Stored 'v | Stored_exn exn

text \<open>\<open>return_value\<close> and \<open>unhandled_exception\<close> put the outcome of the body into the storage, \<open>result()\<close> reads it.\<close>

definition promise_store :: "'v result \<Rightarrow> 'v storage" where
  "promise_store r = (case r of Inr v \<Rightarrow> Stored v | Inl e \<Rightarrow> Stored_exn e)"

definition promise_result :: "'v storage \<Rightarrow> 'v result" where
  "promise_result st =
     (case st of
        Stored v \<Rightarrow> Inr v
      | Stored_exn e \<Rightarrow> Inl e
      | Unset \<Rightarrow> Inl (Runtime_error ''The return value was never set, did you execute the coroutine?''))"

text \<open>\<open>promise<void>\<close> stores an exception or nothing.\<close>

definition promise_void_result :: "exn option \<Rightarrow> unit result" where
  "promise_void_result p = (case p of Some e \<Rightarrow> Inl e | None \<Rightarrow> Inr ())"

section \<open>Coroutines\<close>

text \<open>
  The body of a coroutine as the sequence of its suspension points: it returns, throws, awaits a task
  (with what it does with the result, exceptions included), or awaits something else that suspends it and
  resumes it later.
\<close>

datatype 'v coro =
    Co_return 'v
  | Co_throw exn
  | Co_await ptr "'v result \<Rightarrow> 'v coro"
  | Co_suspend "'v coro"

datatype 'v fstate = At "'v coro" | Awaiting addr "'v result \<Rightarrow> 'v coro" | Done

record 'v frame =
  fr_state :: "'v fstate"
  fr_storage :: "'v storage"
  fr_continuation :: ptr

text \<open>A coroutine that has been created and is suspended at its initial suspend point.\<close>

definition frame_new :: "'v coro \<Rightarrow> 'v frame" where
  "frame_new c = \<lparr>fr_state = At c, fr_storage = Unset, fr_continuation = None\<rparr>"

text \<open>
  One thread: the coroutine in control, and the one that is suspended outside the tasks, if there is one.
\<close>

record 'v machine =
  mc_frame :: "addr \<Rightarrow> 'v frame"
  mc_current :: ptr
  mc_external :: ptr

text \<open>Every task has been created from its body and none has been resumed.\<close>

definition mc_new :: "(addr \<Rightarrow> 'v coro) \<Rightarrow> 'v machine" where
  "mc_new B = \<lparr>mc_frame = \<lambda>a. frame_new (B a), mc_current = None, mc_external = None\<rparr>"

definition mc_set :: "addr \<Rightarrow> 'v frame \<Rightarrow> 'v machine \<Rightarrow> 'v machine" where
  "mc_set a f s = s\<lparr>mc_frame := (mc_frame s)(a := f)\<rparr>"

text \<open>
  \<open>return_value\<close> or \<open>unhandled_exception\<close>, then \<open>final_suspend\<close>: control goes to the continuation, or to nobody.
\<close>

definition finish :: "addr \<Rightarrow> 'v storage \<Rightarrow> 'v machine \<Rightarrow> 'v machine" where
  "finish h st s =
     (mc_set h ((mc_frame s h)\<lparr>fr_storage := st, fr_state := Done\<rparr>) s)\<lparr>mc_current := fr_continuation (mc_frame s h)\<rparr>"

definition is_done :: "'v frame \<Rightarrow> bool" where
  "is_done f = (case fr_state f of Done \<Rightarrow> True | _ \<Rightarrow> False)"

text \<open>\<open>await_resume\<close> of the awaitable of a task: the result of its promise is what the awaiting coroutine goes on with.\<close>

definition await_resume :: "addr \<Rightarrow> addr \<Rightarrow> ('v result \<Rightarrow> 'v coro) \<Rightarrow> 'v machine \<Rightarrow> 'v machine" where
  "await_resume h a k s = mc_set h ((mc_frame s h)\<lparr>fr_state := At (k (promise_result (fr_storage (mc_frame s a))))\<rparr>) s"

text \<open>\<open>await_suspend\<close>: the awaiting coroutine becomes the continuation and control goes to the task.\<close>

definition task_await_suspend :: "addr \<Rightarrow> addr \<Rightarrow> ('v result \<Rightarrow> 'v coro) \<Rightarrow> 'v machine \<Rightarrow> 'v machine" where
  "task_await_suspend h a k s =
     (let s = mc_set h ((mc_frame s h)\<lparr>fr_state := Awaiting a k\<rparr>) s
      in (mc_set a ((mc_frame s a)\<lparr>fr_continuation := Some h\<rparr>) s)\<lparr>mc_current := Some a\<rparr>)"

text \<open>
  One step of the coroutine in control.  Awaiting an empty task is ready and then reads the result through a null
  handle, and a completed coroutine cannot be resumed: both have no step.
\<close>

definition mc_step :: "'v machine \<Rightarrow> 'v machine option" where
  "mc_step s =
     (case mc_current s of
        None \<Rightarrow>
          (case mc_external s of
             None \<Rightarrow> None
           | Some h \<Rightarrow> Some (s\<lparr>mc_current := Some h, mc_external := None\<rparr>))
      | Some h \<Rightarrow>
          (case fr_state (mc_frame s h) of
             At (Co_return v) \<Rightarrow> Some (finish h (promise_store (Inr v)) s)
           | At (Co_throw e) \<Rightarrow> Some (finish h (promise_store (Inl e)) s)
           | At (Co_await None k) \<Rightarrow> None
           | At (Co_await (Some a) k) \<Rightarrow> Some (if is_done (mc_frame s a) then await_resume h a k s else task_await_suspend h a k s)
           | At (Co_suspend c) \<Rightarrow>
               Some ((mc_set h ((mc_frame s h)\<lparr>fr_state := At c\<rparr>) s)\<lparr>mc_current := None, mc_external := Some h\<rparr>)
           | Awaiting a k \<Rightarrow> Some (await_resume h a k s)
           | Done \<Rightarrow> None))"

inductive mc_steps :: "'v machine \<Rightarrow> 'v machine \<Rightarrow> bool" where
  mc_refl: "mc_steps s s"
| mc_trans: "mc_step s = Some s' \<Longrightarrow> mc_steps s' s'' \<Longrightarrow> mc_steps s s''"

text \<open>
  \<open>is_ready\<close> of a task, and \<open>resume\<close>: a thread that is in no coroutine goes to the task unless it is done;
  what \<open>resume\<close> returns is read when control comes back.  Resuming an empty task is a call on a null handle.
\<close>

definition task_is_ready :: "ptr \<Rightarrow> 'v machine \<Rightarrow> bool" where
  "task_is_ready p s = (case p of None \<Rightarrow> True | Some h \<Rightarrow> is_done (mc_frame s h))"

definition task_resume :: "ptr \<Rightarrow> 'v machine \<Rightarrow> 'v machine option" where
  "task_resume p s =
     (case p of None \<Rightarrow> None | Some h \<Rightarrow> Some (if is_done (mc_frame s h) then s else s\<lparr>mc_current := Some h\<rparr>))"

definition task_resume_returns :: "handle \<Rightarrow> 'v machine \<Rightarrow> bool" where
  "task_resume_returns h s \<longleftrightarrow> \<not> is_done (mc_frame s h)"

section \<open>Awaiting as a function call\<close>

text \<open>
  What a coroutine evaluates to when \<open>co_await\<close> is a call: a task that is awaited is evaluated from the start of
  its body \<open>B a\<close>.  The number is the height of the evaluation.
\<close>

inductive evaluates :: "(addr \<Rightarrow> 'v coro) \<Rightarrow> nat \<Rightarrow> 'v coro \<Rightarrow> 'v result \<Rightarrow> bool" for B where
  ev_return: "evaluates B 0 (Co_return v) (Inr v)"
| ev_throw: "evaluates B 0 (Co_throw e) (Inl e)"
| ev_await: "evaluates B n (B a) r \<Longrightarrow> evaluates B m (k r) r' \<Longrightarrow> evaluates B (Suc (n + m)) (Co_await (Some a) k) r'"
| ev_suspend: "evaluates B n c r \<Longrightarrow> evaluates B (Suc n) (Co_suspend c) r"

inductive_cases evaluates_returnE: "evaluates B n (Co_return v) r"
inductive_cases evaluates_throwE: "evaluates B n (Co_throw e) r"
inductive_cases evaluates_awaitE: "evaluates B n (Co_await p k) r"
inductive_cases evaluates_suspendE: "evaluates B n (Co_suspend c) r"

text \<open>Every task that a body can await, whatever the results are, satisfies \<open>P\<close>; no empty task is awaited.\<close>

primrec awaits_below :: "(addr \<Rightarrow> bool) \<Rightarrow> 'v coro \<Rightarrow> bool" where
  "awaits_below P (Co_return v) = True"
| "awaits_below P (Co_throw e) = True"
| "awaits_below P (Co_await p k) = ((case p of None \<Rightarrow> False | Some a \<Rightarrow> P a) \<and> (\<forall>r. awaits_below P (k r)))"
| "awaits_below P (Co_suspend c) = awaits_below P c"

text \<open>A frame outside the chain of awaiting coroutines is new, or done with the value of its body.\<close>

definition settled :: "(addr \<Rightarrow> 'v coro) \<Rightarrow> 'v machine \<Rightarrow> addr \<Rightarrow> bool" where
  "settled B s a \<longleftrightarrow>
     (fr_state (mc_frame s a) = At (B a)) \<or>
     (is_done (mc_frame s a) \<and> (\<exists>n r. evaluates B n (B a) r \<and> promise_result (fr_storage (mc_frame s a)) = r))"

section \<open>Tasks as owners\<close>

text \<open>
  Objects of class \<open>task\<close> own a coroutine or nothing; \<open>ow_created\<close> records the coroutines that were made and
  \<open>ow_destroyed\<close> the calls of \<open>destroy\<close> on their handles.
\<close>

record owners =
  ow_task :: "nat \<Rightarrow> ptr"
  ow_created :: "handle list"
  ow_destroyed :: "handle list"

definition ow_destroy_frame :: "ptr \<Rightarrow> owners \<Rightarrow> owners" where
  "ow_destroy_frame p s = (case p of None \<Rightarrow> s | Some h \<Rightarrow> s\<lparr>ow_destroyed := h # ow_destroyed s\<rparr>)"

text \<open>A task object made by \<open>get_return_object\<close>, a moved-to task object, move assignment, \<open>destroy()\<close> and the destructor.\<close>

definition task_create :: "nat \<Rightarrow> handle \<Rightarrow> owners \<Rightarrow> owners" where
  "task_create x h s = s\<lparr>ow_task := (ow_task s)(x := Some h), ow_created := h # ow_created s\<rparr>"

definition task_move :: "nat \<Rightarrow> nat \<Rightarrow> owners \<Rightarrow> owners" where
  "task_move x other s = s\<lparr>ow_task := (ow_task s)(x := ow_task s other, other := None)\<rparr>"

definition task_move_assign :: "nat \<Rightarrow> nat \<Rightarrow> owners \<Rightarrow> owners" where
  "task_move_assign x other s = (if other = x then s else task_move x other (ow_destroy_frame (ow_task s x) s))"

definition task_destroy :: "nat \<Rightarrow> owners \<Rightarrow> bool \<times> owners" where
  "task_destroy x s =
     (case ow_task s x of
        None \<Rightarrow> (False, s)
      | Some h \<Rightarrow> (True, (ow_destroy_frame (Some h) s)\<lparr>ow_task := (ow_task s)(x := None)\<rparr>))"

definition task_destructor :: "nat \<Rightarrow> owners \<Rightarrow> owners" where
  "task_destructor x s = (ow_destroy_frame (ow_task s x) s)\<lparr>ow_task := (ow_task s)(x := None)\<rparr>"

inductive ow_step :: "owners \<Rightarrow> owners \<Rightarrow> bool" where
  ow_create: "ow_task s x = None \<Longrightarrow> h \<notin> set (ow_created s) \<Longrightarrow> ow_step s (task_create x h s)"
| ow_move: "ow_task s x = None \<Longrightarrow> ow_step s (task_move x other s)"
| ow_assign: "ow_step s (task_move_assign x other s)"
| ow_destroy: "ow_step s (snd (task_destroy x s))"
| ow_delete: "ow_step s (task_destructor x s)"

definition ow_init :: "owners \<Rightarrow> bool" where
  "ow_init s \<longleftrightarrow> (\<forall>x. ow_task s x = None) \<and> ow_created s = [] \<and> ow_destroyed s = []"

definition owns_once :: "(nat \<Rightarrow> ptr) \<Rightarrow> handle list \<Rightarrow> handle list \<Rightarrow> bool" where
  "owns_once t created destroyed \<longleftrightarrow> distinct destroyed \<and>
     (\<forall>x y h. t x = Some h \<longrightarrow> t y = Some h \<longrightarrow> x = y) \<and>
     (\<forall>x h. t x = Some h \<longrightarrow> h \<notin> set destroyed) \<and>
     (\<forall>h. h \<in> set created \<longleftrightarrow> h \<in> set destroyed \<or> (\<exists>x. t x = Some h))"

definition ow_inv :: "owners \<Rightarrow> bool" where
  "ow_inv s = owns_once (ow_task s) (ow_created s) (ow_destroyed s)"

text \<open>Task 1 awaits task 0, which suspends once and then throws, and returns 7 in the handler.\<close>

definition sample_bodies :: "addr \<Rightarrow> int coro" where
  "sample_bodies a =
     (if a = 1 then Co_await (Some 0) (\<lambda>r. case r of Inl e \<Rightarrow> Co_return 7 | Inr v \<Rightarrow> Co_return v)
      else Co_suspend (Co_throw (Runtime_error ''failed'')))"

section \<open>Lemmas\<close>

lemma promise_result_store [simp]: "promise_result (promise_store r) = r"
  by (cases r) (simp_all add: promise_store_def promise_result_def)

lemma mc_steps_trans: "mc_steps s t \<Longrightarrow> mc_steps t u \<Longrightarrow> mc_steps s u"
  by (induction rule: mc_steps.induct) (auto intro: mc_trans)

lemma evaluates_det: "evaluates B n c r \<Longrightarrow> evaluates B m c r' \<Longrightarrow> n = m \<and> r = r'"
proof (induction arbitrary: m r' rule: evaluates.induct)
  case (ev_await n a r j k r1)
  obtain n' x j' where e: "m = Suc (n' + j')" "evaluates B n' (B a) x" "evaluates B j' (k x) r'"
    using ev_await.prems by (rule evaluates_awaitE) simp
  have "n = n' \<and> r = x" using ev_await.IH(1) [OF e(2)] .
  then show ?case using ev_await.IH(2) [of j' r'] e by simp
next
  case (ev_suspend n c r)
  obtain n' where "m = Suc n'" "evaluates B n' c r'" using ev_suspend.prems by (rule evaluates_suspendE)
  then show ?case using ev_suspend.IH by blast
qed (erule evaluates_returnE evaluates_throwE, simp)+

lemma mc_set_frame [simp]:
  "mc_frame (mc_set a f s) = (mc_frame s)(a := f)" "mc_current (mc_set a f s) = mc_current s" "mc_external (mc_set a f s) = mc_external s"
  by (simp_all add: mc_set_def)

lemma settled_cong: "mc_frame s' a = mc_frame s a \<Longrightarrow> settled B s' a = settled B s a"
  by (simp add: settled_def)

text \<open>
  The coroutine in control runs its body to the end and passes control to its continuation; \<open>I\<close> is the chain of
  coroutines that wait for it, with itself, and everything outside the chain stays settled.
\<close>

lemma run_body:
  assumes "evaluates B n c r" and "mc_current s = Some h" and "mc_external s = None" and "fr_state (mc_frame s h) = At c"
    and "h \<in> I" and "\<forall>a\<in>I. \<forall>m x. evaluates B m (B a) x \<longrightarrow> n \<le> m" and "\<forall>a. a \<notin> I \<longrightarrow> settled B s a"
  shows "\<exists>s'. mc_steps s s' \<and> mc_current s' = fr_continuation (mc_frame s h) \<and> mc_external s' = None \<and>
    is_done (mc_frame s' h) \<and> promise_result (fr_storage (mc_frame s' h)) = r \<and>
    (\<forall>a\<in>I. a \<noteq> h \<longrightarrow> mc_frame s' a = mc_frame s a) \<and> (\<forall>a. a \<notin> I \<longrightarrow> settled B s' a)"
  using assms
proof (induction arbitrary: s h I rule: evaluates.induct)
  case (ev_return v)
  let ?s = "finish h (promise_store (Inr v)) s"
  have "mc_step s = Some ?s" using ev_return by (simp add: mc_step_def)
  moreover have "\<forall>a. a \<notin> I \<longrightarrow> settled B ?s a" using ev_return by (auto simp: finish_def settled_def)
  ultimately show ?case
    by (intro exI [of _ ?s]) (use ev_return in \<open>auto simp: finish_def is_done_def intro: mc_trans mc_refl\<close>)
next
  case (ev_throw e)
  let ?s = "finish h (promise_store (Inl e)) s"
  have "mc_step s = Some ?s" using ev_throw by (simp add: mc_step_def)
  moreover have "\<forall>a. a \<notin> I \<longrightarrow> settled B ?s a" using ev_throw by (auto simp: finish_def settled_def)
  ultimately show ?case
    by (intro exI [of _ ?s]) (use ev_throw in \<open>auto simp: finish_def is_done_def intro: mc_trans mc_refl\<close>)
next
  case (ev_suspend n c r)
  let ?s1 = "(mc_set h ((mc_frame s h)\<lparr>fr_state := At c\<rparr>) s)\<lparr>mc_current := None, mc_external := Some h\<rparr>"
  let ?s2 = "?s1\<lparr>mc_current := Some h, mc_external := None\<rparr>"
  have st: "mc_step s = Some ?s1" "mc_step ?s1 = Some ?s2" using ev_suspend.prems by (simp_all add: mc_step_def)
  have "\<exists>s'. mc_steps ?s2 s' \<and> mc_current s' = fr_continuation (mc_frame ?s2 h) \<and> mc_external s' = None \<and>
    is_done (mc_frame s' h) \<and> promise_result (fr_storage (mc_frame s' h)) = r \<and>
    (\<forall>a\<in>I. a \<noteq> h \<longrightarrow> mc_frame s' a = mc_frame ?s2 a) \<and> (\<forall>a. a \<notin> I \<longrightarrow> settled B s' a)"
  proof (rule ev_suspend.IH)
    show "\<forall>a\<in>I. \<forall>m x. evaluates B m (B a) x \<longrightarrow> n \<le> m" using ev_suspend.prems(5) Suc_leD by blast
    show "\<forall>a. a \<notin> I \<longrightarrow> settled B ?s2 a" using ev_suspend.prems(4,6) by (simp add: settled_def)
  qed (use ev_suspend.prems in simp_all)
  then obtain s' where s': "mc_steps ?s2 s'" "mc_current s' = fr_continuation (mc_frame s h)" "mc_external s' = None"
      "is_done (mc_frame s' h)" "promise_result (fr_storage (mc_frame s' h)) = r"
      "\<forall>a\<in>I. a \<noteq> h \<longrightarrow> mc_frame s' a = mc_frame s a" "\<forall>a. a \<notin> I \<longrightarrow> settled B s' a" by auto
  then show ?case using mc_trans [OF st(1) mc_trans [OF st(2) s'(1)]] by blast
next
  case (ev_await n a r1 m k r)
  have aI: "a \<notin> I" using ev_await.prems(5) ev_await.hyps(1) by fastforce
  then have ah: "a \<noteq> h" using ev_await.prems(4) by blast
  have "\<exists>s1. mc_steps s s1 \<and> mc_current s1 = Some h \<and> mc_external s1 = None \<and>
      mc_frame s1 h = (mc_frame s h)\<lparr>fr_state := At (k r1)\<rparr> \<and>
      (\<forall>b\<in>I. b \<noteq> h \<longrightarrow> mc_frame s1 b = mc_frame s b) \<and> (\<forall>b. b \<notin> I \<longrightarrow> settled B s1 b)"
  proof (cases "is_done (mc_frame s a)")
    case True
    then have r1: "promise_result (fr_storage (mc_frame s a)) = r1"
      using ev_await.prems(6) aI evaluates_det [OF ev_await.hyps(1)] by (auto simp: settled_def is_done_def split: fstate.splits)
    let ?s = "await_resume h a k s"
    have "mc_step s = Some ?s" using ev_await.prems True by (simp add: mc_step_def)
    then show ?thesis using ev_await.prems r1
      by (intro exI [of _ ?s]) (auto simp: await_resume_def settled_def intro: mc_trans mc_refl)
  next
    case False
    then have ba: "fr_state (mc_frame s a) = At (B a)" using ev_await.prems(6) aI by (auto simp: settled_def)
    let ?s = "task_await_suspend h a k s"
    have st: "mc_step s = Some ?s" using ev_await.prems False by (simp add: mc_step_def)
    have f: "mc_frame ?s = (mc_frame s)(h := (mc_frame s h)\<lparr>fr_state := Awaiting a k\<rparr>, a := (mc_frame s a)\<lparr>fr_continuation := Some h\<rparr>)"
      "mc_current ?s = Some a" "mc_external ?s = None"
      using ah ev_await.prems(2) by (simp_all add: task_await_suspend_def Let_def)
    have "\<exists>s'. mc_steps ?s s' \<and> mc_current s' = fr_continuation (mc_frame ?s a) \<and> mc_external s' = None \<and>
      is_done (mc_frame s' a) \<and> promise_result (fr_storage (mc_frame s' a)) = r1 \<and>
      (\<forall>b\<in>insert a I. b \<noteq> a \<longrightarrow> mc_frame s' b = mc_frame ?s b) \<and> (\<forall>b. b \<notin> insert a I \<longrightarrow> settled B s' b)"
    proof (rule ev_await.IH(1))
      show "\<forall>b\<in>insert a I. \<forall>m x. evaluates B m (B b) x \<longrightarrow> n \<le> m"
        using ev_await.prems(5) evaluates_det [OF ev_await.hyps(1)] by fastforce
      show "\<forall>b. b \<notin> insert a I \<longrightarrow> settled B ?s b"
        using ev_await.prems(4,6) f(1) by (auto simp: settled_def)
    qed (use f ba in auto)
    then obtain s' where s': "mc_steps ?s s'" "mc_current s' = Some h" "mc_external s' = None" "is_done (mc_frame s' a)"
        "promise_result (fr_storage (mc_frame s' a)) = r1" "\<forall>b\<in>insert a I. b \<noteq> a \<longrightarrow> mc_frame s' b = mc_frame ?s b"
        "\<forall>b. b \<notin> insert a I \<longrightarrow> settled B s' b" using f(1) by auto
    have fh: "mc_frame s' h = (mc_frame s h)\<lparr>fr_state := Awaiting a k\<rparr>" using s'(6) ev_await.prems(4) ah f(1) by auto
    let ?t = "await_resume h a k s'"
    have t: "mc_step s' = Some ?t" using s'(2) fh by (simp add: mc_step_def)
    have "settled B s' a" using s'(4,5) ev_await.hyps(1) by (auto simp: settled_def)
    then have "\<forall>b. b \<notin> I \<longrightarrow> settled B ?t b"
      using s'(7) ev_await.prems(4) by (auto simp: await_resume_def settled_def)
    moreover have "mc_frame ?t h = (mc_frame s h)\<lparr>fr_state := At (k r1)\<rparr>" using fh s'(5) by (simp add: await_resume_def)
    moreover have "\<forall>b\<in>I. b \<noteq> h \<longrightarrow> mc_frame ?t b = mc_frame s b"
      using s'(6) aI f(1) by (auto simp: await_resume_def)
    moreover have "mc_steps s ?t" using st t s'(1) by (blast intro: mc_trans mc_refl mc_steps_trans)
    moreover have "mc_current ?t = Some h" "mc_external ?t = None" using s'(2,3) by (simp_all add: await_resume_def)
    ultimately show ?thesis by blast
  qed
  then obtain s1 where s1: "mc_steps s s1" "mc_current s1 = Some h" "mc_external s1 = None"
      "mc_frame s1 h = (mc_frame s h)\<lparr>fr_state := At (k r1)\<rparr>" "\<forall>b\<in>I. b \<noteq> h \<longrightarrow> mc_frame s1 b = mc_frame s b"
      "\<forall>b. b \<notin> I \<longrightarrow> settled B s1 b" by blast
  have "\<exists>s'. mc_steps s1 s' \<and> mc_current s' = fr_continuation (mc_frame s1 h) \<and> mc_external s' = None \<and>
    is_done (mc_frame s' h) \<and> promise_result (fr_storage (mc_frame s' h)) = r \<and>
    (\<forall>a\<in>I. a \<noteq> h \<longrightarrow> mc_frame s' a = mc_frame s1 a) \<and> (\<forall>a. a \<notin> I \<longrightarrow> settled B s' a)"
  proof (rule ev_await.IH(2))
    show "\<forall>a\<in>I. \<forall>j x. evaluates B j (B a) x \<longrightarrow> m \<le> j" using ev_await.prems(5) by fastforce
  qed (use s1 ev_await.prems(4) in simp_all)
  then obtain s' where s': "mc_steps s1 s'" "mc_current s' = fr_continuation (mc_frame s h)" "mc_external s' = None"
      "is_done (mc_frame s' h)" "promise_result (fr_storage (mc_frame s' h)) = r"
      "\<forall>a\<in>I. a \<noteq> h \<longrightarrow> mc_frame s' a = mc_frame s a" "\<forall>a. a \<notin> I \<longrightarrow> settled B s' a" using s1(4,5) by auto
  then show ?case using mc_steps_trans [OF s1(1)] by blast
qed

lemma body_evaluates:
  assumes "awaits_below (\<lambda>a. \<exists>n r. evaluates B n (B a) r) c"
  shows "\<exists>n r. evaluates B n c r"
  using assms
proof (induction c)
  case (Co_await p k)
  then obtain a n r where "p = Some a" "evaluates B n (B a) r" by (auto split: option.splits)
  moreover obtain m r' where "evaluates B m (k r) r'" using Co_await by (fastforce intro: rangeI)
  ultimately show ?case by (blast intro: ev_await)
qed (auto intro: evaluates.intros)

lemma awaits_below_mono: "awaits_below P c \<Longrightarrow> (\<And>a. P a \<Longrightarrow> Q a) \<Longrightarrow> awaits_below Q c"
  by (induction c) (auto split: option.splits)

lemma ranked_evaluates:
  assumes "\<And>h. awaits_below (\<lambda>a. rank a < (rank h :: nat)) (B h)"
  shows "\<exists>n r. evaluates B n (B h) r"
proof (induction "rank h" arbitrary: h rule: less_induct)
  case less
  show ?case by (rule body_evaluates, rule awaits_below_mono [OF assms]) (rule less)
qed

lemma resumed_completes:
  assumes "evaluates B n (B h) r"
  shows "\<exists>s s'. task_resume (Some h) (mc_new B) = Some s \<and> mc_steps s s' \<and> mc_step s' = None \<and> mc_current s' = None \<and>
    task_is_ready (Some h) s' \<and> \<not> task_resume_returns h s' \<and> promise_result (fr_storage (mc_frame s' h)) = r"
proof -
  let ?s = "(mc_new B)\<lparr>mc_current := Some h\<rparr>"
  have "\<exists>s'. mc_steps ?s s' \<and> mc_current s' = fr_continuation (mc_frame ?s h) \<and> mc_external s' = None \<and>
    is_done (mc_frame s' h) \<and> promise_result (fr_storage (mc_frame s' h)) = r \<and>
    (\<forall>a\<in>{h}. a \<noteq> h \<longrightarrow> mc_frame s' a = mc_frame ?s a) \<and> (\<forall>a. a \<notin> {h} \<longrightarrow> settled B s' a)"
  proof (rule run_body [OF assms])
    show "\<forall>a\<in>{h}. \<forall>m x. evaluates B m (B a) x \<longrightarrow> n \<le> m" using evaluates_det [OF assms] by auto
  qed (auto simp: mc_new_def frame_new_def settled_def)
  then obtain s' where "mc_steps ?s s'" "mc_current s' = None" "mc_external s' = None" "is_done (mc_frame s' h)"
      "promise_result (fr_storage (mc_frame s' h)) = r" by (auto simp: mc_new_def frame_new_def)
  moreover have "task_resume (Some h) (mc_new B) = Some ?s" by (simp add: task_resume_def mc_new_def frame_new_def is_done_def)
  ultimately show ?thesis
    by (intro exI [of _ ?s] exI [of _ s']) (simp add: mc_step_def task_is_ready_def task_resume_returns_def)
qed

lemma task_destroy_eq: "snd (task_destroy x s) = task_destructor x s"
  by (cases "ow_task s x") (auto simp: task_destroy_def task_destructor_def ow_destroy_frame_def fun_upd_idem)

lemma task_move_assign_eq: "task_move_assign x other s = (if other = x then s else task_move x other (task_destructor x s))"
  by (cases "ow_task s x") (auto simp: task_move_assign_def task_move_def task_destructor_def ow_destroy_frame_def)

lemma owns_once_create:
  assumes "owns_once t c d" "t x = None" "h \<notin> set c"
  shows "owns_once (t(x := Some h)) (h # c) d"
proof -
  have "t y \<noteq> Some h" for y using assms(1,3) unfolding owns_once_def by blast
  moreover have "(\<exists>y. (t(x := Some h)) y = Some k) \<longleftrightarrow> k = h \<or> (\<exists>y. t y = Some k)" for k
    using assms(2) by (metis fun_upd_apply option.distinct(1) option.sel)
  ultimately show ?thesis using assms unfolding owns_once_def by (auto split: if_splits)
qed

lemma owns_once_move:
  assumes i: "owns_once t c d" and x: "t x = None"
  shows "owns_once (t(x := t other, other := None)) c d"
proof -
  let ?t = "t(x := t other, other := None)"
  have uniq: "u = v" if "?t u = Some h" "?t v = Some h" for u v h
    using i that unfolding owns_once_def by (auto split: if_splits)
  have "(\<exists>u. ?t u = Some h) \<longleftrightarrow> (\<exists>u. t u = Some h)" for h
  proof
    assume "\<exists>u. t u = Some h"
    then obtain u where u: "t u = Some h" by blast
    then have "?t (if u = other then x else u) = Some h" using x by auto
    then show "\<exists>u. ?t u = Some h" by blast
  qed (auto split: if_splits)
  moreover have "h \<notin> set d" if "?t u = Some h" for u h
    using i that unfolding owns_once_def by (auto split: if_splits)
  ultimately show ?thesis using i uniq unfolding owns_once_def by blast
qed

lemma owns_once_drop:
  assumes i: "owns_once t c d" and x: "t x = Some h"
  shows "owns_once (t(x := None)) c (h # d)"
proof -
  have "(\<exists>u. t u = Some k) \<longleftrightarrow> k = h \<or> (\<exists>u. (t(x := None)) u = Some k)" for k
    using x by (metis fun_upd_apply option.distinct(1) option.sel)
  moreover have "k \<noteq> h" "t u = Some k" if "(t(x := None)) u = Some k" for u k
    using i x that unfolding owns_once_def by (auto split: if_splits)
  moreover have "h \<notin> set d" using i x by (simp add: owns_once_def)
  ultimately show ?thesis using i unfolding owns_once_def by (simp only: list.set distinct.simps insert_iff) blast
qed

lemma ow_inv_create: "ow_inv s \<Longrightarrow> ow_task s x = None \<Longrightarrow> h \<notin> set (ow_created s) \<Longrightarrow> ow_inv (task_create x h s)"
  by (simp add: ow_inv_def task_create_def owns_once_create)

lemma ow_inv_move: "ow_inv s \<Longrightarrow> ow_task s x = None \<Longrightarrow> ow_inv (task_move x other s)"
  by (simp add: ow_inv_def task_move_def owns_once_move)

lemma ow_inv_destructor: "ow_inv s \<Longrightarrow> ow_inv (task_destructor x s)"
  by (cases "ow_task s x") (simp_all add: ow_inv_def task_destructor_def ow_destroy_frame_def owns_once_drop fun_upd_idem)

lemma ow_inv_step:
  assumes i: "ow_inv s" and "ow_step s s'"
  shows "ow_inv s'"
  using assms(2)
proof cases
  case (ow_assign x other)
  have "ow_task (task_destructor x s) x = None" by (simp add: task_destructor_def)
  then show ?thesis using ow_assign i by (simp add: task_move_assign_eq ow_inv_move ow_inv_destructor)
qed (use i in \<open>simp_all add: task_destroy_eq ow_inv_create ow_inv_move ow_inv_destructor\<close>)

interpretation ows: invariant_system ow_init ow_step ow_inv
proof
  show "ow_init s \<Longrightarrow> ow_inv s" for s by (simp add: ow_init_def ow_inv_def owns_once_def)
qed (rule ow_inv_step)

section \<open>Properties\<close>

text \<open>C23: Awaiting tasks terminates.  When tasks await only tasks of a lower rank, and no empty ones, then \<open>resume\<close> of any
  of them runs to a state where control is back with the caller: the task is done, \<open>resume\<close> returns false and the
  result of its promise, a value or an exception, is the one that the bodies give with \<open>co_await\<close> read as a function
  call.\<close>

theorem task_awaits_terminate:
  assumes "\<And>h. awaits_below (\<lambda>a. rank a < (rank h :: nat)) (B h)"
  shows "\<exists>n r s s'. evaluates B n (B h) r \<and> task_resume (Some h) (mc_new B) = Some s \<and> mc_steps s s' \<and> mc_step s' = None \<and>
    mc_current s' = None \<and> task_is_ready (Some h) s' \<and> \<not> task_resume_returns h s' \<and>
    promise_result (fr_storage (mc_frame s' h)) = r"
  using ranked_evaluates [of rank B, OF assms] resumed_completes by metis

theorem task_awaits_terminate_witness:
  "\<exists>s s'. task_resume (Some 1) (mc_new sample_bodies) = Some s \<and> mc_steps s s' \<and> mc_step s' = None \<and>
    task_is_ready (Some 1) s' \<and> promise_result (fr_storage (mc_frame s' 1)) = Inr 7"
proof -
  have "awaits_below (\<lambda>a. id a < id h) (sample_bodies h)" for h
    by (simp add: sample_bodies_def split: sum.splits)
  from task_awaits_terminate [of id sample_bodies 1, OF this] obtain n r s s' where
    e: "evaluates sample_bodies n (sample_bodies 1) r" and "task_resume (Some 1) (mc_new sample_bodies) = Some s" "mc_steps s s'"
    "mc_step s' = None" "task_is_ready (Some 1) s'" "promise_result (fr_storage (mc_frame s' 1)) = r" by blast
  moreover have "r = Inr 7"
    using e by (auto simp: sample_bodies_def elim!: evaluates_awaitE evaluates_suspendE evaluates_throwE evaluates_returnE)
  ultimately show ?thesis by blast
qed

text \<open>Tasks own their coroutines.  Through every sequence of creations, moves, move assignments, calls of \<open>destroy()\<close>
  and destructors, a coroutine that was created is owned by exactly one task object or has been destroyed, never
  both, and no coroutine is destroyed twice.\<close>

theorem task_owns_frame:
  assumes "reach ow_init ow_step s"
  shows "distinct (ow_destroyed s) \<and>
    (\<forall>h\<in>set (ow_created s). (h \<in> set (ow_destroyed s)) \<noteq> (\<exists>!x. ow_task s x = Some h))"
proof -
  have "ow_inv s" using ows.inv_reach [OF assms] .
  then show ?thesis unfolding ow_inv_def owns_once_def by metis
qed

theorem task_owns_frame_witness:
  "let s = task_move_assign 1 0 (task_create 1 8 (task_create 0 7 \<lparr>ow_task = \<lambda>_. None, ow_created = [], ow_destroyed = []\<rparr>))
   in ow_destroyed s = [8] \<and> ow_task s 1 = Some 7 \<and> (\<exists>!x. ow_task s x = Some 7)"
proof -
  let ?i = "\<lparr>ow_task = \<lambda>_. None, ow_created = [], ow_destroyed = []\<rparr>"
  let ?s = "task_move_assign 1 0 (task_create 1 8 (task_create 0 7 ?i))"
  have "reach ow_init ow_step ?i" by (rule reach_init) (simp add: ow_init_def)
  then have "reach ow_init ow_step (task_create 0 7 ?i)" by (rule reach_step) (rule ow_create, simp_all)
  then have "reach ow_init ow_step (task_create 1 8 (task_create 0 7 ?i))"
    by (rule reach_step) (rule ow_create, simp_all add: task_create_def)
  then have "reach ow_init ow_step ?s" by (rule reach_step) (rule ow_assign)
  from task_owns_frame [OF this] show ?thesis
    by (simp add: task_move_assign_def task_create_def ow_destroy_frame_def task_move_def Let_def)
qed

end
