(* ===== verification/WhenAll.thy ===== *)
theory WhenAll
  imports Task
begin

text \<open>
  \<open>when_all\<close> of \<open>include/coro/when_all.hpp\<close>: the latch, the wrapper tasks with their promise and the awaitable that
  starts them.  The awaiting coroutine and the completions of the tasks interleave at every access to the counter.
\<close>

section \<open>The latch\<close>

record when_all_latch =
  wl_count :: "64 word"
  wl_awaiting :: ptr

text \<open>The count has one unit for each task and one for the coroutine that awaits them.\<close>

definition wl_new :: "nat \<Rightarrow> when_all_latch" where
  "wl_new n = \<lparr>wl_count = of_nat n + 1, wl_awaiting = None\<rparr>"

text \<open>Moving takes the awaiting coroutine and copies the count: the new latch and what is left of the old one.\<close>

definition wl_move :: "when_all_latch \<Rightarrow> when_all_latch \<times> when_all_latch" where
  "wl_move other = (other, other\<lparr>wl_awaiting := None\<rparr>)"

definition wl_move_assign :: "bool \<Rightarrow> when_all_latch \<Rightarrow> when_all_latch \<Rightarrow> when_all_latch \<times> when_all_latch" where
  "wl_move_assign same_object this other = (if same_object then (this, this) else wl_move other)"

text \<open>\<open>is_ready\<close>; the argument is \<open>done()\<close> of coroutines.\<close>

definition wl_is_ready :: "(handle \<Rightarrow> bool) \<Rightarrow> when_all_latch \<Rightarrow> bool" where
  "wl_is_ready completed l = (case wl_awaiting l of None \<Rightarrow> False | Some h \<Rightarrow> completed h)"

text \<open>The two accesses of \<open>try_await\<close>; it answers whether the caller suspends.\<close>

definition wl_set_awaiting :: "handle \<Rightarrow> when_all_latch \<Rightarrow> when_all_latch" where
  "wl_set_awaiting h l = l\<lparr>wl_awaiting := Some h\<rparr>"

definition wl_fetch_sub :: "when_all_latch \<Rightarrow> 64 word \<times> when_all_latch" where
  "wl_fetch_sub l = (wl_count l, l\<lparr>wl_count := wl_count l - 1\<rparr>)"

definition wl_try_await :: "when_all_latch \<Rightarrow> bool \<times> when_all_latch" where
  "wl_try_await l = (let (old, l) = wl_fetch_sub l in (1 < old, l))"

text \<open>
  \<open>notify_awaitable_completed\<close>: the coroutine it resumes, if it does; \<^term>\<open>Some None\<close> would be a call of
  \<open>resume\<close> on a null handle.
\<close>

definition notify_awaitable_completed :: "when_all_latch \<Rightarrow> ptr option \<times> when_all_latch" where
  "notify_awaitable_completed l = (let (old, l) = wl_fetch_sub l in (if old = 1 then Some (wl_awaiting l) else None, l))"

section \<open>The wrapper tasks\<close>

text \<open>
  The promise of a \<open>when_all_task\<close>: the pointer to the yielded value, which is not set at first, and the exception.
\<close>

datatype wt_pc = Wt_new | Wt_running | Wt_notify | Wt_done

record 'v when_all_task =
  wt_pc :: wt_pc
  wt_value :: "'v option"
  wt_exception :: "exn option"

definition make_when_all_task :: "'v when_all_task" where
  "make_when_all_task = \<lparr>wt_pc = Wt_new, wt_value = None, wt_exception = None\<rparr>"

text \<open>\<open>start\<close>: the wrapper task awaits its awaitable.\<close>

definition wt_start :: "'v when_all_task \<Rightarrow> 'v when_all_task" where
  "wt_start t = t\<lparr>wt_pc := Wt_running\<rparr>"

text \<open>The awaitable has given a value, which \<open>yield_value\<close> stores, or has thrown.\<close>

definition wt_complete :: "'v result \<Rightarrow> 'v when_all_task \<Rightarrow> 'v when_all_task" where
  "wt_complete r t =
     (case r of
        Inr v \<Rightarrow> t\<lparr>wt_value := Some v, wt_pc := Wt_notify\<rparr>
      | Inl e \<Rightarrow> t\<lparr>wt_exception := Some e, wt_pc := Wt_notify\<rparr>)"

text \<open>\<open>result()\<close>; without a value it would read a pointer that was never set.\<close>

definition wt_result :: "'v when_all_task \<Rightarrow> 'v result option" where
  "wt_result t = (case wt_exception t of Some e \<Rightarrow> Some (Inl e) | None \<Rightarrow> map_option Inr (wt_value t))"

text \<open>\<open>return_value()\<close> of the task without a value: \<open>void_value\<close>, unless there is an exception.\<close>

definition wt_void_result :: "'v when_all_task \<Rightarrow> unit result" where
  "wt_void_result t = (case wt_exception t of Some e \<Rightarrow> Inl e | None \<Rightarrow> Inr ())"

section \<open>Awaiting all tasks\<close>

text \<open>
  The coroutine that awaits starts the tasks one after the other (the number is the next one), writes its handle
  into the latch, counts down and suspends or goes on.  The tasks complete on any threads.
\<close>

datatype wp_pc = Wp_start nat | Wp_await | Wp_suspended | Wp_going

record 'v wa_sys =
  wa_latch :: when_all_latch
  wa_task :: "nat \<Rightarrow> 'v when_all_task"
  wa_parent :: wp_pc
  wa_resumed :: nat
  wa_outcome :: "nat \<Rightarrow> 'v result option"

definition when_all :: "nat \<Rightarrow> 'v wa_sys" where
  "when_all n =
     \<lparr>wa_latch = wl_new n, wa_task = \<lambda>_. make_when_all_task, wa_parent = Wp_start 0, wa_resumed = 0, wa_outcome = \<lambda>_. None\<rparr>"

text \<open>
  \<open>when_all\<close> of a tuple is the same, except that the empty tuple has an awaitable of its own, which is ready and has
  no latch.
\<close>

definition when_all_tuple :: "nat \<Rightarrow> 'v wa_sys" where
  "when_all_tuple n =
     (if n = 0 then (when_all 0)\<lparr>wa_latch := \<lparr>wl_count = 0, wl_awaiting = None\<rparr>, wa_parent := Wp_going, wa_resumed := 1\<rparr>
      else when_all n)"

text \<open>The step of the awaiting coroutine with handle \<open>h\<close>.\<close>

definition wa_parent_step :: "nat \<Rightarrow> handle \<Rightarrow> 'v wa_sys \<Rightarrow> 'v wa_sys option" where
  "wa_parent_step n h s =
     (case wa_parent s of
        Wp_start i \<Rightarrow>
          (if i < n then Some (s\<lparr>wa_task := (wa_task s)(i := wt_start (wa_task s i)), wa_parent := Wp_start (Suc i)\<rparr>)
           else Some (s\<lparr>wa_latch := wl_set_awaiting h (wa_latch s), wa_parent := Wp_await\<rparr>))
      | Wp_await \<Rightarrow>
          (let (suspends, l) = wl_try_await (wa_latch s)
           in Some (if suspends then s\<lparr>wa_latch := l, wa_parent := Wp_suspended\<rparr>
                    else s\<lparr>wa_latch := l, wa_parent := Wp_going, wa_resumed := Suc (wa_resumed s)\<rparr>))
      | _ \<Rightarrow> None)"

definition wa_complete :: "nat \<Rightarrow> 'v result \<Rightarrow> 'v wa_sys \<Rightarrow> 'v wa_sys" where
  "wa_complete i r s = s\<lparr>wa_task := (wa_task s)(i := wt_complete r (wa_task s i)), wa_outcome := (wa_outcome s)(i := Some r)\<rparr>"

text \<open>
  \<open>final_suspend\<close> of task \<open>i\<close>; resuming a null handle, or a coroutine that is not the suspended one, has no result.
\<close>

definition wa_notify :: "handle \<Rightarrow> nat \<Rightarrow> 'v wa_sys \<Rightarrow> 'v wa_sys option" where
  "wa_notify h i s =
     (let (resumes, l) = notify_awaitable_completed (wa_latch s);
          s' = s\<lparr>wa_latch := l, wa_task := (wa_task s)(i := (wa_task s i)\<lparr>wt_pc := Wt_done\<rparr>)\<rparr>
      in case resumes of
           None \<Rightarrow> Some s'
         | Some p \<Rightarrow>
             (if p = Some h \<and> wa_parent s = Wp_suspended
              then Some (s'\<lparr>wa_parent := Wp_going, wa_resumed := Suc (wa_resumed s)\<rparr>) else None))"

inductive wa_step :: "nat \<Rightarrow> handle \<Rightarrow> 'v wa_sys \<Rightarrow> 'v wa_sys \<Rightarrow> bool" for n h where
  wa_awaits: "wa_parent_step n h s = Some s' \<Longrightarrow> wa_step n h s s'"
| wa_completes: "i < n \<Longrightarrow> wt_pc (wa_task s i) = Wt_running \<Longrightarrow> wa_step n h s (wa_complete i r s)"
| wa_notifies: "i < n \<Longrightarrow> wt_pc (wa_task s i) = Wt_notify \<Longrightarrow> wa_notify h i s = Some s' \<Longrightarrow> wa_step n h s s'"

definition wa_init :: "nat \<Rightarrow> 'v wa_sys \<Rightarrow> bool" where
  "wa_init n s \<longleftrightarrow> s = when_all n \<or> s = when_all_tuple n"

section \<open>The invariant\<close>

text \<open>The unit of a task in the count, and of the awaiting coroutine.\<close>

definition wt_unit :: "'v when_all_task \<Rightarrow> nat" where
  "wt_unit t = (if wt_pc t = Wt_done then 0 else 1)"

fun wp_unit :: "wp_pc \<Rightarrow> nat" where
  "wp_unit (Wp_start i) = 1"
| "wp_unit Wp_await = 1"
| "wp_unit _ = 0"

fun wa_parent_ok :: "nat \<Rightarrow> handle \<Rightarrow> 'v wa_sys \<Rightarrow> bool" where
  "wa_parent_ok n h s =
     (case wa_parent s of
        Wp_start i \<Rightarrow> i \<le> n \<and> wa_resumed s = 0 \<and> (\<forall>j. (wt_pc (wa_task s j) = Wt_new) = (i \<le> j))
      | Wp_await \<Rightarrow> wa_resumed s = 0 \<and> wl_awaiting (wa_latch s) = Some h \<and> (\<forall>j. (wt_pc (wa_task s j) = Wt_new) = (n \<le> j))
      | Wp_suspended \<Rightarrow> wa_resumed s = 0 \<and> wl_awaiting (wa_latch s) = Some h \<and> wl_count (wa_latch s) \<noteq> 0 \<and>
          (\<forall>j. (wt_pc (wa_task s j) = Wt_new) = (n \<le> j))
      | Wp_going \<Rightarrow> wa_resumed s = 1 \<and> wl_count (wa_latch s) = 0)"

definition wt_ok :: "'v when_all_task \<Rightarrow> 'v result option \<Rightarrow> bool" where
  "wt_ok t out = (if wt_pc t \<in> {Wt_new, Wt_running} then wt_value t = None \<and> wt_exception t = None \<and> out = None
     else out \<noteq> None \<and> wt_result t = out)"

definition wa_inv :: "nat \<Rightarrow> handle \<Rightarrow> 'v wa_sys \<Rightarrow> bool" where
  "wa_inv n h s \<longleftrightarrow> wa_parent_ok n h s \<and> (\<forall>i. wt_ok (wa_task s i) (wa_outcome s i)) \<and>
     unat (wl_count (wa_latch s)) = wsum wt_unit n (wa_task s) + wp_unit (wa_parent s)"

section \<open>Lemmas\<close>

lemma wsum_unit_le: "wsum wt_unit n f \<le> n"
  unfolding wsum_def wt_unit_def by (induction n) simp_all

lemma wsum_unit_0: "wsum wt_unit n f = 0 \<longleftrightarrow> (\<forall>i<n. wt_pc (f i) = Wt_done)"
  unfolding wsum_def wt_unit_def by auto

lemma unat_dec: "x \<noteq> 0 \<Longrightarrow> unat (x - 1) = unat x - 1" for x :: "64 word"
  by (metis unat_minus_one)

lemma gt_1_dec: "x \<noteq> 0 \<Longrightarrow> 1 < x \<longleftrightarrow> x - 1 \<noteq> 0" for x :: "64 word"
proof -
  assume "x \<noteq> 0"
  then have "unat x \<noteq> 0" by (simp add: unat_eq_0)
  moreover have "x = 1 \<longleftrightarrow> unat x = 1" by (simp add: word_unat_eq_iff)
  ultimately show ?thesis by (simp add: word_less_nat_alt) linarith
qed

lemma wa_inv_new:
  assumes "n + 1 < 2 ^ 64"
  shows "wa_inv n h (when_all n :: 'a wa_sys)"
proof -
  have "unat (of_nat n + 1 :: 64 word) = n + 1"
    using assms of_nat_inverse [of "n + 1" "of_nat n + 1 :: 64 word"] by simp
  moreover have "wsum wt_unit n (\<lambda>_. make_when_all_task :: 'a when_all_task) = n"
    by (simp add: wsum_def wt_unit_def make_when_all_task_def)
  ultimately show ?thesis
    by (simp add: wa_inv_def when_all_def wl_new_def wt_ok_def make_when_all_task_def)
qed

lemma wa_inv_new_tuple: "n + 1 < 2 ^ 64 \<Longrightarrow> wa_inv n h (when_all_tuple n)"
  using wa_inv_new [of n h]
  by (auto simp: when_all_tuple_def) (simp add: wa_inv_def when_all_def wsum_def wt_ok_def make_when_all_task_def)

lemma wt_unit_simps [simp]:
  "wt_unit (wt_start t) = 1" "wt_unit (wt_complete r t) = 1" "wt_unit (t\<lparr>wt_pc := Wt_done\<rparr>) = 0"
  by (simp_all add: wt_unit_def wt_start_def wt_complete_def split: sum.splits)

lemma wa_inv_parent_step:
  assumes i: "wa_inv n h s" and st: "wa_parent_step n h s = Some s'"
  shows "wa_inv n h s'"
proof (cases "wa_parent s")
  case (Wp_start k)
  have new: "(wt_pc (wa_task s j) = Wt_new) = (k \<le> j)" for j using i Wp_start by (auto simp: wa_inv_def)
  have k: "k \<le> n" using i Wp_start by (auto simp: wa_inv_def)
  show ?thesis
  proof (cases "k < n")
    case True
    then have s': "s' = s\<lparr>wa_task := (wa_task s)(k := wt_start (wa_task s k)), wa_parent := Wp_start (Suc k)\<rparr>"
      using st Wp_start by (simp add: wa_parent_step_def)
    have "wt_unit (wa_task s k) = 1" using new [of k] by (simp add: wt_unit_def)
    then have "wsum wt_unit n (wa_task s') = wsum wt_unit n (wa_task s)" using True s' by simp
    moreover have "(wt_pc (wa_task s' j) = Wt_new) = (Suc k \<le> j)" for j
      using new [of j] by (cases "j = k") (simp_all add: s' wt_start_def Suc_le_eq order_less_le)
    moreover have "wt_ok (wa_task s' j) (wa_outcome s' j)" for j
    proof (cases "j = k")
      case True
      have "wt_ok (wa_task s k) (wa_outcome s k)" using i by (simp add: wa_inv_def)
      then show ?thesis using True new [of k] by (simp add: s' wt_ok_def wt_start_def)
    qed (use i in \<open>simp add: wa_inv_def s'\<close>)
    ultimately show ?thesis using i Wp_start True by (simp add: wa_inv_def s')
  next
    case False
    then show ?thesis using i st Wp_start k by (auto simp: wa_parent_step_def wa_inv_def wl_set_awaiting_def)
  qed
next
  case Wp_await
  then have u: "unat (wl_count (wa_latch s)) = wsum wt_unit n (wa_task s) + 1" using i by (simp add: wa_inv_def)
  then have nz: "wl_count (wa_latch s) \<noteq> 0" by auto
  show ?thesis
    using i st Wp_await u unat_dec [OF nz] gt_1_dec [OF nz]
    by (auto simp: wa_parent_step_def wa_inv_def wl_try_await_def wl_fetch_sub_def Let_def split: if_splits)
qed (use st in \<open>simp_all add: wa_parent_step_def\<close>)

lemma wt_ok_complete: "wt_ok t out \<Longrightarrow> wt_pc t = Wt_running \<Longrightarrow> wt_ok (wt_complete r t) (Some r)"
  by (auto simp: wt_ok_def wt_complete_def wt_result_def split: sum.splits)

lemma wa_inv_complete:
  assumes i: "wa_inv n h s" and "k < n" and r: "wt_pc (wa_task s k) = Wt_running"
  shows "wa_inv n h (wa_complete k r s)"
proof -
  let ?s = "wa_complete k r s"
  have "wt_unit (wa_task s k) = 1" using r by (simp add: wt_unit_def)
  then have "wsum wt_unit n (wa_task ?s) = wsum wt_unit n (wa_task s)" using assms(2) by (simp add: wa_complete_def)
  moreover have "wt_ok (wa_task ?s j) (wa_outcome ?s j)" for j
    using i r wt_ok_complete by (auto simp: wa_complete_def wa_inv_def)
  moreover have "(wt_pc (wa_task ?s j) = Wt_new) = (wt_pc (wa_task s j) = Wt_new)" for j
    using r by (auto simp: wa_complete_def wt_complete_def split: sum.splits)
  ultimately show ?thesis using i unfolding wa_inv_def wa_parent_ok.simps by (simp add: wa_complete_def split: wp_pc.splits)
qed

lemma wt_result_done [simp]: "wt_result (t\<lparr>wt_pc := p\<rparr>) = wt_result t"
  by (simp add: wt_result_def split: option.splits)

lemma wa_notify_ok:
  assumes i: "wa_inv n h s" and k: "k < n" and pc: "wt_pc (wa_task s k) = Wt_notify"
  shows "\<exists>s'. wa_notify h k s = Some s' \<and> wa_inv n h s'"
proof -
  let ?c = "wl_count (wa_latch s)"
  let ?t = "(wa_task s)(k := (wa_task s k)\<lparr>wt_pc := Wt_done\<rparr>)"
  let ?s = "s\<lparr>wa_latch := (wa_latch s)\<lparr>wl_count := ?c - 1\<rparr>, wa_task := ?t\<rparr>"
  have u: "unat ?c = wsum wt_unit n (wa_task s) + wp_unit (wa_parent s)" using i by (simp add: wa_inv_def)
  have one: "wt_unit (wa_task s k) = 1" using pc by (simp add: wt_unit_def)
  then have "1 \<le> wsum wt_unit n (wa_task s)" using wsum_ge [OF k, of wt_unit "wa_task s"] by simp
  then have ge: "1 \<le> wsum wt_unit n (wa_task s)" .
  then have nz: "?c \<noteq> 0" using u by auto
  have dec: "unat (?c - 1) = wsum wt_unit n ?t + wp_unit (wa_parent s)" using u unat_dec [OF nz] one k ge by simp
  have ok: "wt_ok (?t j) (wa_outcome s j)" for j
  proof (cases "j = k")
    case True
    have "wt_ok (wa_task s k) (wa_outcome s k)" using i by (simp add: wa_inv_def)
    then show ?thesis using True pc by (simp add: wt_ok_def)
  qed (use i in \<open>simp add: wa_inv_def\<close>)
  have new: "(wt_pc (?t j) = Wt_new) = (wt_pc (wa_task s j) = Wt_new)" for j using pc by simp
  have going: "wa_parent s \<noteq> Wp_going" using i nz by (auto simp: wa_inv_def)
  show ?thesis
  proof (cases "?c = 1")
    case True
    then have "unat ?c = 1" by simp
    then have "wp_unit (wa_parent s) = 0" using u ge by linarith
    then have p: "wa_parent s = Wp_suspended" using going by (cases "wa_parent s") auto
    then have "wl_awaiting (wa_latch s) = Some h" "wa_resumed s = 0" using i by (simp_all add: wa_inv_def)
    then have "wa_notify h k s = Some (?s\<lparr>wa_parent := Wp_going, wa_resumed := 1\<rparr>)"
      using True p by (simp add: wa_notify_def notify_awaitable_completed_def wl_fetch_sub_def Let_def)
    moreover have "wa_inv n h (?s\<lparr>wa_parent := Wp_going, wa_resumed := 1\<rparr>)"
      using ok dec True p by (simp add: wa_inv_def)
    ultimately show ?thesis by blast
  next
    case False
    then have "?c - 1 \<noteq> 0" by simp
    then have "wa_inv n h ?s"
      using i ok dec new going unfolding wa_inv_def wa_parent_ok.simps
      by (simp add: new split: wp_pc.splits)
    moreover have "wa_notify h k s = Some ?s"
      using False by (simp add: wa_notify_def notify_awaitable_completed_def wl_fetch_sub_def Let_def)
    ultimately show ?thesis by blast
  qed
qed

lemma wa_inv_step: "wa_inv n h s \<Longrightarrow> wa_step n h s s' \<Longrightarrow> wa_inv n h s'"
  by (erule wa_step.cases) (auto dest: wa_inv_parent_step wa_notify_ok intro: wa_inv_complete)

interpretation was: invariant_system "\<lambda>s. wa_init n s \<and> n + 1 < 2 ^ 64" "wa_step n h" "wa_inv n h" for n h
proof
  show "wa_init n s \<and> n + 1 < 2 ^ 64 \<Longrightarrow> wa_inv n h s" for s using wa_inv_new wa_inv_new_tuple by (auto simp: wa_init_def)
qed (rule wa_inv_step)

lemma wa_reach_inv:
  assumes "reach (wa_init n) (wa_step n h) s" and "n + 1 < 2 ^ 64"
  shows "wa_inv n h s"
proof (rule was.inv_reach)
  show "reach (\<lambda>s. wa_init n s \<and> n + 1 < 2 ^ 64) (wa_step n h) s"
    using assms by (induction rule: reach.induct) (auto intro: reach_init reach_step)
qed

text \<open>A second \<open>co_await\<close> of the same awaitable finds the latch not ready while its coroutine runs.\<close>

lemma when_all_await_twice: "\<not> completed h \<Longrightarrow> wl_awaiting l = Some h \<Longrightarrow> \<not> wl_is_ready completed l"
  by (simp add: wl_is_ready_def)

section \<open>Properties\<close>

text \<open>C24: \<open>when_all\<close> goes on exactly once, after all tasks.  In every interleaving of the awaiting coroutine with the
  completions of \<open>n\<close> tasks, where \<open>n + 1\<close> fits the counter: the coroutine goes on at most once; when it has
  gone on every task is done and \<open>return_value\<close> gives the value or rethrows the exception of its awaitable, in the
  position of the awaitable; when every task has counted down the coroutine is not suspended; and a task that
  completes can always count down, never resuming a null or a running coroutine.\<close>

theorem when_all_joins:
  assumes "reach (wa_init n) (wa_step n h) s" and "n + 1 < 2 ^ 64"
  shows "wa_resumed s \<le> 1 \<and>
    (wa_parent s = Wp_going \<longrightarrow> (\<forall>i<n. wt_pc (wa_task s i) = Wt_done \<and> wa_outcome s i \<noteq> None \<and> wt_result (wa_task s i) = wa_outcome s i)) \<and>
    ((\<forall>i<n. wt_pc (wa_task s i) = Wt_done) \<longrightarrow> wa_parent s \<noteq> Wp_suspended) \<and>
    (\<forall>i<n. wt_pc (wa_task s i) = Wt_notify \<longrightarrow> wa_notify h i s \<noteq> None)"
proof -
  have i: "wa_inv n h s" using wa_reach_inv [OF assms] .
  have u: "unat (wl_count (wa_latch s)) = wsum wt_unit n (wa_task s) + wp_unit (wa_parent s)" using i by (simp add: wa_inv_def)
  have "wa_resumed s \<le> 1" using i by (simp add: wa_inv_def split: wp_pc.splits)
  moreover have "wt_pc (wa_task s j) = Wt_done \<and> wa_outcome s j \<noteq> None \<and> wt_result (wa_task s j) = wa_outcome s j"
    if "wa_parent s = Wp_going" "j < n" for j
  proof -
    have "wl_count (wa_latch s) = 0" using i that(1) by (simp add: wa_inv_def)
    then have "wsum wt_unit n (wa_task s) = 0" using u by simp
    then have "wt_pc (wa_task s j) = Wt_done" using that(2) wsum_unit_0 by blast
    moreover have "wt_ok (wa_task s j) (wa_outcome s j)" using i by (simp add: wa_inv_def)
    ultimately show ?thesis by (simp add: wt_ok_def)
  qed
  moreover have "wa_parent s \<noteq> Wp_suspended" if d: "\<forall>i<n. wt_pc (wa_task s i) = Wt_done"
  proof
    assume p: "wa_parent s = Wp_suspended"
    have "wsum wt_unit n (wa_task s) = 0" using d wsum_unit_0 by blast
    then have "wl_count (wa_latch s) = 0" using u p by (simp add: unat_eq_0)
    then show False using i p by (simp add: wa_inv_def)
  qed
  moreover have "wa_notify h j s \<noteq> None" if "j < n" "wt_pc (wa_task s j) = Wt_notify" for j
    using wa_notify_ok [OF i that] by auto
  ultimately show ?thesis by blast
qed

text \<open>One task that completes with 5: the awaiting coroutine starts it, suspends and is resumed.\<close>

lemma wa_demo_run:
  "\<exists>s. reach (wa_init 1) (wa_step 1 9) s \<and> wa_parent s = Wp_going \<and> wa_outcome s 0 = Some (Inr (5 :: nat))"
proof -
  let ?R = "reach (wa_init 1) (wa_step 1 9)"
  note d = wa_parent_step_def when_all_def wl_new_def make_when_all_task_def wt_start_def wl_set_awaiting_def wl_try_await_def
    wl_fetch_sub_def Let_def wa_complete_def wt_complete_def wa_notify_def notify_awaitable_completed_def
  have 0: "?R (when_all 1)" by (rule reach_init) (simp add: wa_init_def)
  obtain s1 where 1: "wa_parent_step 1 9 (when_all 1 :: nat wa_sys) = Some s1" "s1 = (when_all 1)\<lparr>wa_task := (\<lambda>_. make_when_all_task)(0 := wt_start make_when_all_task), wa_parent := Wp_start 1\<rparr>"
    by (simp add: d)
  have r1: "?R s1" using 0 wa_awaits [OF 1(1)] by (rule reach_step)
  obtain s2 where 2: "wa_parent_step 1 9 s1 = Some s2" "s2 = s1\<lparr>wa_latch := \<lparr>wl_count = 2, wl_awaiting = Some 9\<rparr>, wa_parent := Wp_await\<rparr>"
    by (simp add: 1(2) d)
  have r2: "?R s2" using r1 wa_awaits [OF 2(1)] by (rule reach_step)
  obtain s3 where 3: "wa_parent_step 1 9 s2 = Some s3" "s3 = s2\<lparr>wa_latch := \<lparr>wl_count = 1, wl_awaiting = Some 9\<rparr>, wa_parent := Wp_suspended\<rparr>"
    by (simp add: 2(2) d)
  have r3: "?R s3" using r2 wa_awaits [OF 3(1)] by (rule reach_step)
  have r4: "?R (wa_complete 0 (Inr 5) s3)"
    using r3 by (rule reach_step) (rule wa_completes, simp_all add: 3(2) 2(2) 1(2) wt_start_def)
  obtain s5 where 5: "wa_notify 9 0 (wa_complete 0 (Inr 5) s3) = Some s5" "wa_parent s5 = Wp_going" "wa_outcome s5 0 = Some (Inr 5)"
    by (simp add: 3(2) 2(2) 1(2) d)
  have "?R s5"
    using r4 by (rule reach_step) (rule wa_notifies [OF _ _ 5(1)], simp_all add: 3(2) 2(2) 1(2) wt_start_def wa_complete_def wt_complete_def)
  then show ?thesis using 5(2,3) by blast
qed

theorem when_all_joins_witness:
  "\<exists>s. reach (wa_init 1) (wa_step 1 9) s \<and> wa_parent s = Wp_going \<and> wt_result (wa_task s 0) = Some (Inr (5 :: nat))"
proof -
  obtain s where s: "reach (wa_init 1) (wa_step 1 9) s" "wa_parent s = Wp_going" "wa_outcome s 0 = Some (Inr (5 :: nat))"
    using wa_demo_run by blast
  then show ?thesis using when_all_joins [OF s(1)] by auto
qed

end
