(* ===== verification/WhenAny.thy ===== *)
theory WhenAny
  imports Event WhenAll
begin

text \<open>
  \<open>when_any\<close> of \<open>include/coro/when_any.hpp\<close> over the event of theory \<open>Event\<close> and the latch of theory \<open>WhenAll\<close>: the tasks,
  the self-deleting controller that awaits them all and the caller that awaits the event, interleaved.  The model
  keeps track of the frames that hold the shared variables, so that a use after the end of a frame is a
  step without a result.
\<close>

section \<open>The tasks, the controller and the caller\<close>

text \<open>
  A task made by \<open>make_when_any_tuple_task\<close> or \<open>make_when_any_task\<close>: it awaits its awaitable, tries to be the first,
  stores its result and sets the event; at \<open>An_final\<close> it counts down the latch of the \<open>when_all\<close> that the controller
  awaits.  An exception ends it without any of this.
\<close>

datatype 'v an_pc = An_new | An_running | An_cas 'v | An_emplace 'v | An_set | An_final | An_done

text \<open>The caller: it resumes the controller, which starts the tasks and awaits them, and then awaits the event.\<close>

datatype 'v ap_pc = Ap_start nat | Ap_await_all | Ap_await | Ap_waiting | Ap_stop | Ap_return | Ap_returned "'v result"

text \<open>
  \<open>first_completed\<close> and the latch live in the frame of the controller, which is gone when \<open>an_controller\<close> is false; the
  event and the value live in the frame of the caller.  \<open>an_winner\<close> and \<open>an_outcome\<close> record which task came first
  and what the awaitables gave.
\<close>

record 'v any_sys =
  an_first :: bool
  an_latch :: when_all_latch
  an_controller :: bool
  an_notify :: event
  an_value :: "(nat \<times> 'v) option"
  an_stop :: bool
  an_task :: "nat \<Rightarrow> 'v an_pc"
  an_parent :: "(nat \<times> 'v) ap_pc"
  an_winner :: "nat option"
  an_outcome :: "nat \<Rightarrow> 'v result option"

definition when_any :: "nat \<Rightarrow> 'v any_sys" where
  "when_any n =
     \<lparr>an_first = False, an_latch = wl_new n, an_controller = True, an_notify = event_new False, an_value = None,
      an_stop = False, an_task = \<lambda>_. An_new, an_parent = Ap_start 0, an_winner = None, an_outcome = \<lambda>_. None\<rparr>"

text \<open>\<open>return_value.value()\<close>\<close>

definition optional_value :: "'a option \<Rightarrow> 'a result" where
  "optional_value x = (case x of Some v \<Rightarrow> Inr v | None \<Rightarrow> Inl Bad_optional_access)"

text \<open>
  The caller with handle \<open>h\<close>; the controller has handle \<open>c\<close>, and \<open>stop\<close> says whether there is a stop source.
\<close>

definition an_parent_step :: "nat \<Rightarrow> bool \<Rightarrow> handle \<Rightarrow> handle \<Rightarrow> 'v any_sys \<Rightarrow> 'v any_sys option" where
  "an_parent_step n stop c h s =
     (case an_parent s of
        Ap_start i \<Rightarrow>
          (if i < n then Some (s\<lparr>an_task := (an_task s)(i := An_running), an_parent := Ap_start (Suc i)\<rparr>)
           else Some (s\<lparr>an_latch := wl_set_awaiting c (an_latch s), an_parent := Ap_await_all\<rparr>))
      | Ap_await_all \<Rightarrow>
          (let (suspends, l) = wl_try_await (an_latch s)
           in Some (s\<lparr>an_latch := l, an_controller := suspends, an_parent := Ap_await\<rparr>))
      | Ap_await \<Rightarrow>
          (let (suspends, e) = event_await (an_notify s) h
           in Some (s\<lparr>an_notify := e, an_parent := (if suspends then Ap_waiting else Ap_stop)\<rparr>))
      | Ap_waiting \<Rightarrow> None
      | Ap_stop \<Rightarrow> Some (s\<lparr>an_stop := stop, an_parent := Ap_return\<rparr>)
      | Ap_return \<Rightarrow> Some (s\<lparr>an_parent := Ap_returned (optional_value (an_value s))\<rparr>)
      | Ap_returned r \<Rightarrow> None)"

text \<open>The awaitable of task \<open>i\<close> gives a value or throws.\<close>

definition an_complete :: "nat \<Rightarrow> 'v result \<Rightarrow> 'v any_sys \<Rightarrow> 'v any_sys" where
  "an_complete i r s =
     s\<lparr>an_task := (an_task s)(i := (case r of Inr v \<Rightarrow> An_cas v | Inl e \<Rightarrow> An_final)), an_outcome := (an_outcome s)(i := Some r)\<rparr>"

text \<open>
  The rest of task \<open>i\<close>.  A step that uses \<open>first_completed\<close> or the latch after the controller is gone, or the value or the
  event after the caller has returned, has no result, and neither has a walk over the awaiters that does not
  end or the resumption of a coroutine that is not suspended.
\<close>

definition an_returned :: "'v any_sys \<Rightarrow> bool" where
  "an_returned s = (case an_parent s of Ap_returned r \<Rightarrow> True | _ \<Rightarrow> False)"

definition an_compare :: "nat \<Rightarrow> 'v \<Rightarrow> 'v any_sys \<Rightarrow> 'v any_sys option" where
  "an_compare i v s =
     (if \<not> an_controller s then None
      else case compare_exchange False (an_first s) False True of
        (ok, _, b) \<Rightarrow>
          Some (if ok then s\<lparr>an_first := b, an_task := (an_task s)(i := An_emplace v), an_winner := Some i\<rparr>
                else s\<lparr>an_task := (an_task s)(i := An_final)\<rparr>))"

definition an_store :: "nat \<Rightarrow> 'v \<Rightarrow> 'v any_sys \<Rightarrow> 'v any_sys option" where
  "an_store i v s = (if an_returned s then None else Some (s\<lparr>an_value := Some (i, v), an_task := (an_task s)(i := An_set)\<rparr>))"

definition an_set :: "handle \<Rightarrow> nat \<Rightarrow> 'v any_sys \<Rightarrow> 'v any_sys option" where
  "an_set h i s =
     (if an_returned s then None
      else case event_set Lifo (an_notify s) of
        None \<Rightarrow> None
      | Some (ws, e) \<Rightarrow>
          (let s' = s\<lparr>an_notify := e, an_task := (an_task s)(i := An_final)\<rparr>
           in if ws = [] then Some s'
              else if ws = [h] \<and> an_parent s = Ap_waiting then Some (s'\<lparr>an_parent := Ap_stop\<rparr>) else None))"

definition an_finish :: "handle \<Rightarrow> nat \<Rightarrow> 'v any_sys \<Rightarrow> 'v any_sys option" where
  "an_finish c i s =
     (if \<not> an_controller s then None
      else let (resumes, l) = notify_awaitable_completed (an_latch s);
               s' = s\<lparr>an_latch := l, an_task := (an_task s)(i := An_done)\<rparr>
           in case resumes of
                None \<Rightarrow> Some s'
              | Some p \<Rightarrow> (if p = Some c then Some (s'\<lparr>an_controller := False\<rparr>) else None))"

definition an_task_step :: "handle \<Rightarrow> handle \<Rightarrow> nat \<Rightarrow> 'v any_sys \<Rightarrow> 'v any_sys option" where
  "an_task_step c h i s =
     (case an_task s i of
        An_cas v \<Rightarrow> an_compare i v s
      | An_emplace v \<Rightarrow> an_store i v s
      | An_set \<Rightarrow> an_set h i s
      | An_final \<Rightarrow> an_finish c i s
      | _ \<Rightarrow> None)"

inductive an_step :: "nat \<Rightarrow> bool \<Rightarrow> handle \<Rightarrow> handle \<Rightarrow> 'v any_sys \<Rightarrow> 'v any_sys \<Rightarrow> bool" for n stop c h where
  an_calls: "an_parent_step n stop c h s = Some s' \<Longrightarrow> an_step n stop c h s s'"
| an_completes: "i < n \<Longrightarrow> an_task s i = An_running \<Longrightarrow> an_step n stop c h s (an_complete i r s)"
| an_runs: "i < n \<Longrightarrow> an_task_step c h i s = Some s' \<Longrightarrow> an_step n stop c h s s'"

definition an_init :: "nat \<Rightarrow> 'v any_sys \<Rightarrow> bool" where
  "an_init n s \<longleftrightarrow> s = when_any n"

section \<open>The invariant\<close>

definition an_unit :: "'v an_pc \<Rightarrow> nat" where
  "an_unit p = (case p of An_done \<Rightarrow> 0 | _ \<Rightarrow> 1)"

text \<open>The controller has not counted down yet.\<close>

definition ap_unit :: "'v ap_pc \<Rightarrow> nat" where
  "ap_unit p = (case p of Ap_start i \<Rightarrow> 1 | Ap_await_all \<Rightarrow> 1 | _ \<Rightarrow> 0)"

text \<open>The winner has set the event.\<close>

definition an_notified :: "'v any_sys \<Rightarrow> bool" where
  "an_notified s = (case an_winner s of None \<Rightarrow> False | Some w \<Rightarrow> (case an_task s w of An_final \<Rightarrow> True | An_done \<Rightarrow> True | _ \<Rightarrow> False))"

text \<open>What the place of task \<open>i\<close> says about the winner and its outcome.\<close>

definition an_task_ok :: "nat \<Rightarrow> 'v an_pc \<Rightarrow> 'v any_sys \<Rightarrow> bool" where
  "an_task_ok i p s =
     (case p of
        An_new \<Rightarrow> an_outcome s i = None \<and> an_winner s \<noteq> Some i
      | An_running \<Rightarrow> an_outcome s i = None \<and> an_winner s \<noteq> Some i
      | An_cas v \<Rightarrow> an_outcome s i = Some (Inr v) \<and> an_winner s \<noteq> Some i
      | An_emplace v \<Rightarrow> an_outcome s i = Some (Inr v) \<and> an_winner s = Some i \<and> an_value s = None
      | An_set \<Rightarrow> (\<exists>v. an_outcome s i = Some (Inr v) \<and> an_winner s = Some i \<and> an_value s = Some (i, v))
      | _ \<Rightarrow> an_outcome s i \<noteq> None \<and> (\<forall>v. an_outcome s i = Some (Inr v) \<longrightarrow> an_winner s \<noteq> None \<and>
          (an_winner s = Some i \<longrightarrow> an_value s = Some (i, v))) \<and> (an_winner s = Some i \<longrightarrow> (\<exists>v. an_outcome s i = Some (Inr v))))"

definition an_parent_ok :: "nat \<Rightarrow> handle \<Rightarrow> handle \<Rightarrow> 'v any_sys \<Rightarrow> bool" where
  "an_parent_ok n c h s =
     (case an_parent s of
        Ap_start i \<Rightarrow> i \<le> n \<and> an_controller s \<and> (\<forall>j. (an_task s j = An_new) = (i \<le> j))
      | Ap_await_all \<Rightarrow> an_controller s \<and> wl_awaiting (an_latch s) = Some c \<and> (\<forall>j. (an_task s j = An_new) = (n \<le> j))
      | _ \<Rightarrow> an_controller s = (wl_count (an_latch s) \<noteq> 0) \<and> wl_awaiting (an_latch s) = Some c \<and>
          (\<forall>j. (an_task s j = An_new) = (n \<le> j)))"

definition an_wait_ok :: "handle \<Rightarrow> 'v any_sys \<Rightarrow> bool" where
  "an_wait_ok h s =
     (case an_parent s of
        Ap_waiting \<Rightarrow> \<not> an_notified s \<and> ev_view (an_notify s) (Some [h])
      | Ap_stop \<Rightarrow> an_notified s \<and> is_set (an_notify s)
      | Ap_return \<Rightarrow> an_notified s \<and> is_set (an_notify s)
      | Ap_returned r \<Rightarrow> an_notified s \<and> is_set (an_notify s) \<and> r = optional_value (an_value s)
      | _ \<Rightarrow> if an_notified s then is_set (an_notify s) else ev_view (an_notify s) (Some []))"

definition an_inv :: "nat \<Rightarrow> handle \<Rightarrow> handle \<Rightarrow> 'v any_sys \<Rightarrow> bool" where
  "an_inv n c h s \<longleftrightarrow> an_parent_ok n c h s \<and> an_wait_ok h s \<and> (\<forall>i. an_task_ok i (an_task s i) s) \<and>
     an_first s = (an_winner s \<noteq> None) \<and> (\<forall>w. an_winner s = Some w \<longrightarrow> w < n) \<and> (an_winner s = None \<longrightarrow> an_value s = None) \<and>
     unat (wl_count (an_latch s)) = wsum an_unit n (an_task s) + ap_unit (an_parent s)"

section \<open>Lemmas\<close>

lemmas an_inv_defs = an_inv_def an_parent_ok_def an_wait_ok_def

lemma an_invD:
  assumes "an_inv n c h s"
  shows "an_parent_ok n c h s" "an_wait_ok h s" "an_task_ok i (an_task s i) s" "an_first s = (an_winner s \<noteq> None)"
    "an_winner s = Some w \<Longrightarrow> w < n" "an_winner s = None \<Longrightarrow> an_value s = None"
    "unat (wl_count (an_latch s)) = wsum an_unit n (an_task s) + ap_unit (an_parent s)"
  using assms by (simp_all add: an_inv_def)

lemma wsum_an_0: "wsum an_unit n f = 0 \<longleftrightarrow> (\<forall>i<n. f i = An_done)" for f :: "nat \<Rightarrow> 'a an_pc"
proof -
  have "an_unit p = 0 \<longleftrightarrow> p = An_done" for p :: "'a an_pc" by (cases p) (simp_all add: an_unit_def)
  then show ?thesis by (auto simp: wsum_def)
qed

lemma an_winner_pc:
  assumes "an_task_ok w (an_task s w) s" and "an_winner s = Some w"
  shows "an_notified s \<or> (\<exists>v. an_task s w = An_emplace v) \<or> an_task s w = An_set"
  using assms by (auto simp: an_task_ok_def an_notified_def split: an_pc.splits)

lemma an_inv_new:
  assumes "n + 1 < 2 ^ 64"
  shows "an_inv n c h (when_any n :: 'a any_sys)"
proof -
  have "unat (of_nat n + 1 :: 64 word) = n + 1"
    using assms of_nat_inverse [of "n + 1" "of_nat n + 1 :: 64 word"] by simp
  moreover have "wsum an_unit n (\<lambda>_. An_new :: 'a an_pc) = n" by (simp add: wsum_def an_unit_def)
  ultimately show ?thesis
    by (simp add: an_inv_defs when_any_def wl_new_def an_task_ok_def an_notified_def ap_unit_def event_new_def)
qed

text \<open>What the steps of the caller keep when they do not touch the tasks.\<close>

lemma an_task_ok_cong:
  "an_outcome s' i = an_outcome s i \<Longrightarrow> an_winner s' = an_winner s \<Longrightarrow> an_value s' = an_value s \<Longrightarrow>
    an_task_ok i p s' = an_task_ok i p s"
  by (simp add: an_task_ok_def cong: an_pc.case_cong)

lemma an_notified_cong: "an_winner s' = an_winner s \<Longrightarrow> an_task s' = an_task s \<Longrightarrow> an_notified s' = an_notified s"
  by (simp add: an_notified_def cong: option.case_cong an_pc.case_cong)

lemma an_notified_upd: "an_winner s' = an_winner s \<Longrightarrow> an_winner s \<noteq> Some i \<Longrightarrow> an_task s' = (an_task s)(i := p) \<Longrightarrow> an_notified s' = an_notified s"
  by (auto simp: an_notified_def split: option.splits)

lemma an_inv_start:
  assumes i: "an_inv n c h s" and p: "an_parent s = Ap_start k" and st: "an_parent_step n stop c h s = Some s'"
  shows "an_inv n c h s'"
proof -
  have new: "(an_task s j = An_new) = (k \<le> j)" for j using an_invD(1) [OF i] p by (simp add: an_parent_ok_def)
  show ?thesis
  proof (cases "k < n")
    case True
    then have s': "s' = s\<lparr>an_task := (an_task s)(k := An_running), an_parent := Ap_start (Suc k)\<rparr>"
      using st p by (simp add: an_parent_step_def)
    have k: "an_task s k = An_new" using new [of k] by simp
    have w: "an_winner s \<noteq> Some k" using an_invD(3) [OF i, of k] k by (simp add: an_task_ok_def)
    have "an_task_ok j (an_task s' j) s'" for j
      using an_invD(3) [OF i, of j] k
      by (cases "j = k") (simp_all add: s' an_task_ok_cong [of s' j s] an_task_ok_def cong: an_pc.case_cong)
    moreover have "(an_task s' j = An_new) = (Suc k \<le> j)" for j
      using new [of j] by (cases "j = k") (simp_all add: s' Suc_le_eq order_less_le)
    moreover have "an_notified s' = an_notified s" by (rule an_notified_upd [OF _ w]) (simp_all add: s')
    moreover have "wsum an_unit n (an_task s') = wsum an_unit n (an_task s)" using True k by (simp add: s' an_unit_def)
    ultimately show ?thesis
      using i p True by (simp add: an_inv_defs s' ap_unit_def cong: if_cong)
  next
    case False
    then have s': "s' = s\<lparr>an_latch := wl_set_awaiting c (an_latch s), an_parent := Ap_await_all\<rparr>"
      using st p by (simp add: an_parent_step_def)
    have "k = n" using False an_invD(1) [OF i] p by (simp add: an_parent_ok_def)
    moreover have "an_notified s' = an_notified s" by (rule an_notified_cong) (simp_all add: s')
    moreover have "an_task_ok j (an_task s' j) s'" for j
      using an_invD(3) [OF i, of j] by (simp add: s' an_task_ok_cong [of s' j s] an_task_ok_def cong: an_pc.case_cong)
    ultimately show ?thesis using i p new by (simp add: an_inv_defs s' ap_unit_def wl_set_awaiting_def cong: if_cong)
  qed
qed

lemma an_inv_parent_step:
  assumes i: "an_inv n c h s" and st: "an_parent_step n stop c h s = Some s'"
  shows "an_inv n c h s'"
proof (cases "an_parent s")
  case Ap_await_all
  let ?c = "wl_count (an_latch s)"
  have u: "unat ?c = wsum an_unit n (an_task s) + 1" using an_invD(7) [OF i] Ap_await_all by (simp add: ap_unit_def)
  then have nz: "?c \<noteq> 0" by auto
  have s': "s' = s\<lparr>an_latch := (an_latch s)\<lparr>wl_count := ?c - 1\<rparr>, an_controller := (?c - 1 \<noteq> 0), an_parent := Ap_await\<rparr>"
    using st Ap_await_all gt_1_dec [OF nz] by (simp add: an_parent_step_def wl_try_await_def wl_fetch_sub_def Let_def)
  have "an_task_ok j (an_task s' j) s'" for j
    using an_invD(3) [OF i, of j] by (simp add: s' an_task_ok_def cong: an_pc.case_cong)
  moreover have "an_notified s' = an_notified s" by (rule an_notified_cong) (simp_all add: s')
  ultimately show ?thesis using i Ap_await_all u unat_dec [OF nz] by (simp add: an_inv_defs s' ap_unit_def cong: if_cong)
next
  case Ap_await
  obtain b e where e: "event_await (an_notify s) h = (b, e)" by force
  have s': "s' = s\<lparr>an_notify := e, an_parent := (if b then Ap_waiting else Ap_stop)\<rparr>"
    using st Ap_await e by (simp add: an_parent_step_def)
  have t: "an_task_ok j (an_task s' j) s'" for j
    using an_invD(3) [OF i, of j] by (simp add: s' an_task_ok_def cong: an_pc.case_cong)
  have nt: "an_notified s' = an_notified s" by (rule an_notified_cong) (simp_all add: s')
  have "an_wait_ok h s'"
  proof (cases "an_notified s")
    case True
    then have "is_set (an_notify s)" using an_invD(2) [OF i] Ap_await by (simp add: an_wait_ok_def)
    then have "\<not> b" "e = an_notify s" using e by (auto simp: event_await_def)
    then show ?thesis using True nt \<open>is_set (an_notify s)\<close> by (simp add: an_wait_ok_def s')
  next
    case False
    then have "ev_view (an_notify s) (Some [])" using an_invD(2) [OF i] Ap_await by (simp add: an_wait_ok_def)
    from event_await_view [OF this, of h] have b "ev_view e (Some [h])" using e by auto
    then show ?thesis using False nt by (simp add: an_wait_ok_def s' del: ev_view.simps)
  qed
  then show ?thesis using i t Ap_await unfolding an_inv_def by (auto simp: an_parent_ok_def s' ap_unit_def)
next
  case Ap_stop
  then have s': "s' = s\<lparr>an_stop := stop, an_parent := Ap_return\<rparr>" using st by (simp add: an_parent_step_def)
  have "an_task_ok j (an_task s' j) s'" for j
    using an_invD(3) [OF i, of j] by (simp add: s' an_task_ok_def cong: an_pc.case_cong)
  moreover have "an_notified s' = an_notified s" by (rule an_notified_cong) (simp_all add: s')
  ultimately show ?thesis using i Ap_stop by (simp add: an_inv_defs s' ap_unit_def cong: if_cong)
next
  case Ap_return
  then have s': "s' = s\<lparr>an_parent := Ap_returned (optional_value (an_value s))\<rparr>" using st by (simp add: an_parent_step_def)
  have "an_task_ok j (an_task s' j) s'" for j
    using an_invD(3) [OF i, of j] by (simp add: s' an_task_ok_def cong: an_pc.case_cong)
  moreover have "an_notified s' = an_notified s" by (rule an_notified_cong) (simp_all add: s')
  ultimately show ?thesis using i Ap_return by (simp add: an_inv_defs s' ap_unit_def cong: if_cong)
qed (use st an_inv_start [OF i] in \<open>simp_all add: an_parent_step_def\<close>)

lemma an_parent_ok_cong:
  assumes "an_parent s' = an_parent s" "an_controller s' = an_controller s" "an_latch s' = an_latch s"
    and "\<And>j. (an_task s' j = An_new) = (an_task s j = An_new)"
  shows "an_parent_ok n c h s' = an_parent_ok n c h s"
  using assms by (simp add: an_parent_ok_def cong: ap_pc.case_cong)

lemma an_wait_ok_cong:
  assumes "an_parent s' = an_parent s" "an_notify s' = an_notify s" "an_notified s' = an_notified s"
    and "an_value s' = an_value s \<or> \<not> an_returned s"
  shows "an_wait_ok h s' = an_wait_ok h s"
  using assms by (auto simp: an_wait_ok_def an_returned_def split: ap_pc.splits)

text \<open>While the winner has not set the event the caller has not returned, and while a task runs the controller lives.\<close>

lemma an_not_returned:
  assumes i: "an_inv n c h s" and "\<not> an_notified s"
  shows "\<not> an_returned s"
  using an_invD(2) [OF i] assms(2) by (auto simp: an_wait_ok_def an_returned_def split: ap_pc.splits)

lemma an_controller_alive:
  assumes i: "an_inv n c h s" and k: "k < n" and "an_task s k \<noteq> An_done"
  shows "an_controller s" "wl_count (an_latch s) \<noteq> 0" "1 \<le> wsum an_unit n (an_task s)"
proof -
  have "an_unit (an_task s k) = 1" using assms(3) by (cases "an_task s k") (simp_all add: an_unit_def)
  then show one: "1 \<le> wsum an_unit n (an_task s)" using wsum_ge [OF k, of an_unit "an_task s"] by simp
  then show nz: "wl_count (an_latch s) \<noteq> 0" using an_invD(7) [OF i] by auto
  show "an_controller s" using an_invD(1) [OF i] nz by (simp add: an_parent_ok_def split: ap_pc.splits)
qed

text \<open>A step of task \<open>k\<close> that leaves the latch, the event and the caller alone.\<close>

lemma an_inv_task:
  assumes i: "an_inv n c h s" and k: "k < n" and old: "an_task s k \<notin> {An_new, An_done}" and new: "p \<notin> {An_new, An_done}"
    and s': "an_task s' = (an_task s)(k := p)" "an_latch s' = an_latch s" "an_notify s' = an_notify s"
      "an_parent s' = an_parent s" "an_controller s' = an_controller s"
    and f: "an_first s' = (an_winner s' \<noteq> None)" "an_notified s' = an_notified s"
      "an_value s' = an_value s \<or> \<not> an_returned s" "\<And>w. an_winner s' = Some w \<Longrightarrow> w < n"
      "an_winner s' = None \<Longrightarrow> an_value s' = None"
    and t: "an_task_ok k p s'" "\<And>j. j \<noteq> k \<Longrightarrow> an_task_ok j (an_task s j) s'"
  shows "an_inv n c h s'"
proof -
  have "an_parent_ok n c h s' = an_parent_ok n c h s"
    by (rule an_parent_ok_cong) (use old new s' in auto)
  moreover have "an_wait_ok h s' = an_wait_ok h s" by (rule an_wait_ok_cong) (use s' f in auto)
  moreover have "an_unit (an_task s k) = 1" "an_unit p = 1"
    using old new by (cases "an_task s k"; cases p; simp add: an_unit_def)+
  then have "wsum an_unit n (an_task s') = wsum an_unit n (an_task s)" using k s'(1) by simp
  moreover have "an_task_ok j (an_task s' j) s'" for j using t s'(1) by simp
  ultimately show ?thesis using i f(1,4,5) s'(2,4) unfolding an_inv_def by simp
qed

lemma an_complete_ok:
  assumes i: "an_inv n c h s" and k: "k < n" and pc: "an_task s k = An_running"
  shows "an_inv n c h (an_complete k r s)"
proof -
  have w: "an_winner s \<noteq> Some k" using an_invD(3) [OF i, of k] pc by (simp add: an_task_ok_def)
  let ?p = "case r of Inr v \<Rightarrow> An_cas v | Inl e \<Rightarrow> An_final" and ?s = "an_complete k r s"
  show ?thesis
  proof (rule an_inv_task [OF i k, of ?p])
    show "an_notified ?s = an_notified s" by (rule an_notified_upd [OF _ w, of _ ?p]) (simp_all add: an_complete_def)
    show "an_task_ok k ?p ?s" using w by (simp add: an_task_ok_def an_complete_def split: sum.splits)
    show "an_task_ok j (an_task s j) ?s" if "j \<noteq> k" for j
      using an_invD(3) [OF i, of j] that by (subst an_task_ok_cong [of ?s j s]) (simp_all add: an_complete_def)
  qed (use pc an_invD(4,5,6) [OF i] in \<open>auto simp: an_complete_def split: sum.splits\<close>)
qed

lemma an_compare_ok:
  assumes i: "an_inv n c h s" and k: "k < n" and pc: "an_task s k = An_cas v"
  shows "\<exists>s'. an_compare k v s = Some s' \<and> an_inv n c h s'"
proof (cases "an_winner s")
  case None
  then have f: "\<not> an_first s" using an_invD(4) [OF i] by simp
  have o: "an_outcome s k = Some (Inr v)" using an_invD(3) [OF i, of k] pc by (simp add: an_task_ok_def)
  let ?s = "s\<lparr>an_first := True, an_task := (an_task s)(k := An_emplace v), an_winner := Some k\<rparr>"
  have "an_compare k v s = Some ?s"
    using f an_controller_alive(1) [OF i k] pc by (simp add: an_compare_def compare_exchange_def)
  moreover have "an_inv n c h ?s"
  proof (rule an_inv_task [OF i k, of "An_emplace v"])
    show "an_task_ok k (An_emplace v) ?s" using o None an_invD(6) [OF i] by (simp add: an_task_ok_def)
    show "an_task_ok j (an_task s j) ?s" if "j \<noteq> k" for j
      using an_invD(3) [OF i, of j] None that by (auto simp: an_task_ok_def split: an_pc.splits)
  qed (use pc None k in \<open>simp_all add: an_notified_def\<close>)
  ultimately show ?thesis by blast
next
  case (Some w)
  then have f: "an_first s" using an_invD(4) [OF i] by simp
  have o: "an_outcome s k = Some (Inr v)" "w \<noteq> k" using an_invD(3) [OF i, of k] pc Some by (auto simp: an_task_ok_def)
  let ?s = "s\<lparr>an_task := (an_task s)(k := An_final)\<rparr>"
  have "an_compare k v s = Some ?s"
    using f an_controller_alive(1) [OF i k] pc by (simp add: an_compare_def compare_exchange_def)
  moreover have "an_inv n c h ?s"
  proof (rule an_inv_task [OF i k, of An_final])
    show "an_notified ?s = an_notified s" by (rule an_notified_upd [of _ _ k An_final]) (use Some o in simp_all)
    show "an_task_ok k An_final ?s" using o Some by (simp add: an_task_ok_def)
    show "an_task_ok j (an_task s j) ?s" if "j \<noteq> k" for j
      using an_invD(3) [OF i, of j] by (simp add: an_task_ok_cong [of ?s j s])
  qed (use pc an_invD(4,5,6) [OF i] in auto)
  ultimately show ?thesis by blast
qed

lemma an_store_ok:
  assumes i: "an_inv n c h s" and k: "k < n" and pc: "an_task s k = An_emplace v"
  shows "\<exists>s'. an_store k v s = Some s' \<and> an_inv n c h s'"
proof -
  have o: "an_outcome s k = Some (Inr v)" "an_winner s = Some k" using an_invD(3) [OF i, of k] pc by (auto simp: an_task_ok_def)
  have nr: "\<not> an_returned s" by (rule an_not_returned [OF i]) (use o pc in \<open>simp add: an_notified_def\<close>)
  let ?s = "s\<lparr>an_value := Some (k, v), an_task := (an_task s)(k := An_set)\<rparr>"
  have "an_inv n c h ?s"
  proof (rule an_inv_task [OF i k, of An_set])
    show "an_task_ok k An_set ?s" using o by (simp add: an_task_ok_def)
    show "an_task_ok j (an_task s j) ?s" if "j \<noteq> k" for j
      using an_invD(3) [OF i, of j] o that by (auto simp: an_task_ok_def split: an_pc.splits)
  qed (use pc nr o k an_invD(4) [OF i] in \<open>simp_all add: an_notified_def\<close>)
  moreover have "an_store k v s = Some ?s" using nr by (simp add: an_store_def)
  ultimately show ?thesis by blast
qed

lemma an_wait_ok_set:
  "an_notified s \<Longrightarrow> is_set (an_notify s) \<Longrightarrow> an_parent s \<noteq> Ap_waiting \<Longrightarrow> \<not> an_returned s \<Longrightarrow> an_wait_ok h s"
  by (simp add: an_wait_ok_def an_returned_def split: ap_pc.splits)

lemma an_set_ok:
  assumes i: "an_inv n c h s" and k: "k < n" and pc: "an_task s k = An_set"
  shows "\<exists>s'. an_set h k s = Some s' \<and> an_inv n c h s'"
proof -
  obtain v where o: "an_outcome s k = Some (Inr v)" "an_winner s = Some k" "an_value s = Some (k, v)"
    using an_invD(3) [OF i, of k] pc by (auto simp: an_task_ok_def)
  have nn: "\<not> an_notified s" using o pc by (simp add: an_notified_def)
  let ?ws = "if an_parent s = Ap_waiting then [h] else []"
  have "ev_view (an_notify s) (Some ?ws)"
    using an_invD(2) [OF i] nn by (auto simp: an_wait_ok_def simp del: ev_view.simps split: ap_pc.splits)
  from event_set_view [OF this, of Lifo] obtain e where e: "event_set Lifo (an_notify s) = Some (?ws, e)" "is_set e" by auto
  let ?p = "if an_parent s = Ap_waiting then Ap_stop else an_parent s"
  let ?s = "s\<lparr>an_notify := e, an_task := (an_task s)(k := An_final), an_parent := ?p\<rparr>"
  have "an_set h k s = Some ?s"
    using e(1) an_not_returned [OF i nn] by (auto simp: an_set_def Let_def)
  moreover have "an_inv n c h ?s"
  proof -
    have "(an_task ?s j = An_new) = (an_task s j = An_new)" for j using pc by auto
    then have "an_parent_ok n c h ?s"
      using an_invD(1) [OF i] by (simp add: an_parent_ok_def split: ap_pc.splits)
    moreover have "an_notified ?s" using o by (simp add: an_notified_def)
    then have "an_wait_ok h ?s"
      by (rule an_wait_ok_set) (use e(2) an_not_returned [OF i nn] in \<open>auto simp: an_returned_def\<close>)
    moreover have "an_task_ok j (an_task ?s j) ?s" for j
    proof (cases "j = k")
      case False
      then show ?thesis using an_invD(3) [OF i, of j] by (subst an_task_ok_cong [of ?s j s]) simp_all
    qed (use o in \<open>simp add: an_task_ok_def\<close>)
    moreover have "wsum an_unit n (an_task ?s) = wsum an_unit n (an_task s)" "ap_unit ?p = ap_unit (an_parent s)"
      using k pc by (simp_all add: an_unit_def ap_unit_def)
    ultimately show ?thesis using i unfolding an_inv_def by simp
  qed
  ultimately show ?thesis by blast
qed

lemma an_finish_ok:
  assumes i: "an_inv n c h s" and k: "k < n" and pc: "an_task s k = An_final"
  shows "\<exists>s'. an_finish c k s = Some s' \<and> an_inv n c h s'"
proof -
  note al = an_controller_alive [OF i k, unfolded pc, simplified]
  let ?c = "wl_count (an_latch s)" and ?t = "(an_task s)(k := An_done)"
  let ?s = "s\<lparr>an_latch := (an_latch s)\<lparr>wl_count := ?c - 1\<rparr>, an_task := ?t, an_controller := (?c \<noteq> 1)\<rparr>"
  have u: "unat ?c = wsum an_unit n (an_task s) + ap_unit (an_parent s)" by (rule an_invD(7) [OF i])
  have dec: "unat (?c - 1) = wsum an_unit n ?t + ap_unit (an_parent s)"
    using u unat_dec [OF al(2)] al(3) k pc by (simp add: an_unit_def)
  have one: "ap_unit (an_parent s) = 0" if "?c = 1"
  proof -
    have "unat ?c = 1" using that by simp
    then show ?thesis using u al(3) by linarith
  qed
  have "an_notified ?s = an_notified s" using pc by (simp add: an_notified_def split: option.splits)
  moreover have new: "(an_task ?s j = An_new) = (an_task s j = An_new)" for j using pc by simp
  ultimately have "an_wait_ok h ?s" using an_invD(2) [OF i] by (subst an_wait_ok_cong [of ?s s]) simp_all
  moreover have "an_parent_ok n c h ?s"
    using an_invD(1) [OF i] new al(1) one by (auto simp: an_parent_ok_def ap_unit_def split: ap_pc.splits)
  moreover have "an_task_ok j (an_task ?s j) ?s" for j
    using an_invD(3) [OF i, of j] pc by (subst an_task_ok_cong [of ?s j s]) (auto simp: an_task_ok_def)
  ultimately have "an_inv n c h ?s" using i dec unfolding an_inv_def by simp
  moreover have "an_finish c k s = Some ?s"
  proof (cases "?c = 1")
    case True
    then have "wl_awaiting (an_latch s) = Some c"
      using one an_invD(1) [OF i] by (auto simp: an_parent_ok_def ap_unit_def split: ap_pc.splits)
    then show ?thesis using True al(1) by (simp add: an_finish_def notify_awaitable_completed_def wl_fetch_sub_def Let_def)
  next
    case False
    then show ?thesis
      using al(1) by (cases s) (simp add: an_finish_def notify_awaitable_completed_def wl_fetch_sub_def Let_def)
  qed
  ultimately show ?thesis by blast
qed

lemma an_task_step_ok:
  assumes i: "an_inv n c h s" and k: "k < n" and pc: "an_task s k \<notin> {An_new, An_running, An_done}"
  shows "\<exists>s'. an_task_step c h k s = Some s' \<and> an_inv n c h s'"
  using an_compare_ok [OF i k] an_store_ok [OF i k] an_set_ok [OF i k] an_finish_ok [OF i k] pc
  by (cases "an_task s k") (simp_all add: an_task_step_def)

lemma an_inv_step:
  assumes i: "an_inv n c h s" and "an_step n stop c h s s'"
  shows "an_inv n c h s'"
  using assms(2)
proof cases
  case (an_runs k)
  then have "an_task s k \<notin> {An_new, An_running, An_done}" by (auto simp: an_task_step_def)
  then show ?thesis using an_task_step_ok [OF i an_runs(1)] an_runs(2) by auto
qed (use i an_inv_parent_step an_complete_ok in blast)+

interpretation ans: invariant_system "\<lambda>s. an_init n s \<and> n + 1 < 2 ^ 64" "an_step n stop c h" "an_inv n c h" for n stop c h
proof
  show "an_init n s \<and> n + 1 < 2 ^ 64 \<Longrightarrow> an_inv n c h s" for s using an_inv_new by (auto simp: an_init_def)
qed (rule an_inv_step)

lemma an_reach_inv:
  assumes "reach (an_init n) (an_step n stop c h) s" and "n + 1 < 2 ^ 64"
  shows "an_inv n c h s"
proof (rule ans.inv_reach)
  show "reach (\<lambda>s. an_init n s \<and> n + 1 < 2 ^ 64) (an_step n stop c h) s"
    using assms by (induction rule: reach.induct) (auto intro: reach_init reach_step)
qed

lemma an_notified_value:
  assumes i: "an_inv n c h s" and "an_notified s"
  shows "\<exists>w<n. \<exists>v. an_winner s = Some w \<and> an_outcome s w = Some (Inr v) \<and> an_value s = Some (w, v)"
proof -
  obtain w where w: "an_winner s = Some w" "an_task s w = An_final \<or> an_task s w = An_done"
    using assms(2) by (auto simp: an_notified_def split: option.splits an_pc.splits)
  then show ?thesis using an_invD(3) [OF i, of w] an_invD(5) [OF i w(1)] by (auto simp: an_task_ok_def)
qed

text \<open>When every awaitable throws, or there is none, the caller waits for ever.\<close>

lemma when_any_all_throw_hangs:
  assumes "an_parent s = Ap_waiting" and "\<forall>i<n. an_task s i = An_done"
  shows "\<not> an_step n stop c h s s'"
  using assms by (auto elim!: an_step.cases simp: an_parent_step_def an_task_step_def)

lemma when_any_not_missed:
  assumes "reach (an_init n) (an_step n stop c h) s" and "n + 1 < 2 ^ 64" and "an_parent s = Ap_waiting"
    and "\<forall>i<n. an_task s i = An_done"
  shows "\<forall>i<n. \<exists>e. an_outcome s i = Some (Inl e)"
proof (intro allI impI)
  have i: "an_inv n c h s" by (rule an_reach_inv [OF assms(1,2)])
  fix k assume k: "k < n"
  have t: "an_task_ok k An_done s" using an_invD(3) [OF i, of k] assms(4) k by simp
  then obtain r where r: "an_outcome s k = Some r" by (auto simp: an_task_ok_def)
  show "\<exists>e. an_outcome s k = Some (Inl e)"
  proof (cases r)
    case (Inr v)
    then obtain w where w: "an_winner s = Some w" using t r by (auto simp: an_task_ok_def)
    then have "an_task s w = An_done" using an_invD(5) [OF i] assms(4) by blast
    then have "an_notified s" using w by (simp add: an_notified_def)
    then show ?thesis using an_invD(2) [OF i] assms(3) by (simp add: an_wait_ok_def)
  qed (use r in simp)
qed

section \<open>Properties\<close>

text \<open>C25: \<open>when_any\<close> gives the first result.  In every interleaving of the caller with \<open>n\<close> tasks: when the caller
  has returned, its result is the index and value of one task whose awaitable gave this value, the task that came
  first, and \<open>return_value.value()\<close> has not thrown; and no task touches the value or the event after the caller
  has returned, or \<open>first_completed\<close> and the latch after the controller is gone: every task that has work left can
  do its next step.  When all tasks have completed and the caller still waits, every awaitable threw.\<close>

theorem when_any_first:
  assumes "reach (an_init n) (an_step n stop c h) s" and "n + 1 < 2 ^ 64"
  shows "(an_parent s = Ap_returned r \<longrightarrow>
       (\<exists>w<n. \<exists>v. r = Inr (w, v) \<and> an_winner s = Some w \<and> an_outcome s w = Some (Inr v))) \<and>
     (\<forall>i<n. an_task s i \<notin> {An_new, An_running, An_done} \<longrightarrow> an_task_step c h i s \<noteq> None) \<and>
     (an_parent s = Ap_waiting \<and> (\<forall>i<n. an_task s i = An_done) \<longrightarrow> (\<forall>i<n. \<exists>e. an_outcome s i = Some (Inl e)))"
proof -
  have i: "an_inv n c h s" by (rule an_reach_inv [OF assms])
  have "\<exists>w<n. \<exists>v. r = Inr (w, v) \<and> an_winner s = Some w \<and> an_outcome s w = Some (Inr v)" if "an_parent s = Ap_returned r"
    using an_notified_value [OF i] an_invD(2) [OF i] that by (auto simp: an_wait_ok_def optional_value_def)
  moreover have "an_task_step c h k s \<noteq> None" if "k < n" "an_task s k \<notin> {An_new, An_running, An_done}" for k
    using an_task_step_ok [OF i that] by auto
  ultimately show ?thesis using when_any_not_missed [OF assms] by blast
qed


lemma reach_calls:
  "reach (an_init n) (an_step n stop c h) s \<Longrightarrow> an_parent_step n stop c h s = Some s' \<Longrightarrow> reach (an_init n) (an_step n stop c h) s'"
  by (blast intro: reach_step an_calls)

lemma reach_runs:
  "reach (an_init n) (an_step n stop c h) s \<Longrightarrow> i < n \<Longrightarrow> an_task_step c h i s = Some s' \<Longrightarrow> reach (an_init n) (an_step n stop c h) s'"
  by (blast intro: reach_step an_runs)

lemma an_demo_run:
  "\<exists>s. reach (an_init 1) (an_step 1 True 8 9) s \<and> an_parent s = Ap_returned (Inr (0, 5 :: nat)) \<and> an_stop s"
proof -
  let ?R = "reach (an_init 1) (an_step 1 True 8 9)"
  note d = an_parent_step_def when_any_def wl_new_def wl_set_awaiting_def wl_try_await_def wl_fetch_sub_def Let_def an_complete_def
    an_task_step_def an_compare_def an_store_def an_set_def an_returned_def compare_exchange_def event_set_def event_new_def
    event_await_def is_set_def optional_value_def
  obtain s1 where 1: "an_parent_step 1 True 8 9 (when_any 1 :: nat any_sys) = Some s1"
      "s1 = (when_any 1)\<lparr>an_task := (\<lambda>_. An_new)(0 := An_running), an_parent := Ap_start 1\<rparr>" by (simp add: d)
  have "?R (when_any 1)" by (rule reach_init) (simp add: an_init_def)
  then have "?R s1" using 1(1) by (rule reach_calls)
  then have r2: "?R (an_complete 0 (Inr 5) s1)" by (rule reach_step) (rule an_completes, simp_all add: 1(2))
  obtain s3 where 3: "an_task_step 8 9 0 (an_complete 0 (Inr 5) s1) = Some s3"
      "s3 = (an_complete 0 (Inr 5) s1)\<lparr>an_first := True, an_task := (\<lambda>_. An_new)(0 := An_emplace 5), an_winner := Some 0\<rparr>"
    by (simp add: 1(2) d)
  have r3: "?R s3" by (rule reach_runs [OF r2 _ 3(1)]) simp
  obtain s4 where 4: "an_task_step 8 9 0 s3 = Some s4"
      "s4 = s3\<lparr>an_value := Some (0, 5), an_task := (\<lambda>_. An_new)(0 := An_set)\<rparr>" by (simp add: 3(2) 1(2) d)
  have r4: "?R s4" by (rule reach_runs [OF r3 _ 4(1)]) simp
  obtain s5 where 5: "an_task_step 8 9 0 s4 = Some s5"
      "s5 = s4\<lparr>an_notify := (event_new False)\<lparr>ev_state := ESet\<rparr>, an_task := (\<lambda>_. An_new)(0 := An_final)\<rparr>"
    by (simp add: 4(2) 3(2) 1(2) d resume_all.simps)
  have r5: "?R s5" by (rule reach_runs [OF r4 _ 5(1)]) simp
  note st = 5(2) 4(2) 3(2) 1(2)
  obtain s6 where 6: "an_parent_step 1 True 8 9 s5 = Some s6"
      "s6 = s5\<lparr>an_latch := \<lparr>wl_count = 2, wl_awaiting = Some 8\<rparr>, an_parent := Ap_await_all\<rparr>" by (simp add: st d)
  have r6: "?R s6" using r5 6(1) by (rule reach_calls)
  obtain s7 where 7: "an_parent_step 1 True 8 9 s6 = Some s7"
      "s7 = s6\<lparr>an_latch := \<lparr>wl_count = 1, wl_awaiting = Some 8\<rparr>, an_controller := True, an_parent := Ap_await\<rparr>"
    by (simp add: 6(2) st d)
  have r7: "?R s7" using r6 7(1) by (rule reach_calls)
  obtain s8 where 8: "an_parent_step 1 True 8 9 s7 = Some s8" "s8 = s7\<lparr>an_parent := Ap_stop\<rparr>" by (simp add: 7(2) 6(2) st d)
  have r8: "?R s8" using r7 8(1) by (rule reach_calls)
  obtain s9 where 9: "an_parent_step 1 True 8 9 s8 = Some s9" "s9 = s8\<lparr>an_stop := True, an_parent := Ap_return\<rparr>" by (simp add: 8(2) d)
  have r9: "?R s9" using r8 9(1) by (rule reach_calls)
  obtain s10 where 10: "an_parent_step 1 True 8 9 s9 = Some s10" "s10 = s9\<lparr>an_parent := Ap_returned (Inr (0, 5))\<rparr>"
    by (simp add: 9(2) 8(2) 7(2) 6(2) st d)
  have "?R s10" using r9 10(1) by (rule reach_calls)
  then show ?thesis using 10(2) 9(2) by auto
qed

theorem when_any_first_witness:
  "\<exists>s. reach (an_init 1) (an_step 1 True 8 9) s \<and> an_parent s = Ap_returned (Inr (0, 5 :: nat)) \<and> an_outcome s 0 = Some (Inr 5)"
proof -
  obtain s where s: "reach (an_init 1) (an_step 1 True 8 9) s" "an_parent s = Ap_returned (Inr (0, 5 :: nat))"
    using an_demo_run by blast
  then show ?thesis using when_any_first [OF s(1), of "Inr (0, 5)"] by auto
qed

end
