(* ===== verification/SyncWait.thy ===== *)
theory SyncWait
  imports Task
begin

text \<open>
  \<open>sync_wait\<close> of \<open>include/coro/sync_wait.hpp\<close> and \<open>src/sync_wait.cpp\<close>: the promise and the task, and the event that the
  calling thread waits for, with its mutex and condition variable.  The calling thread and the thread that
  completes the coroutine interleave.
\<close>

section \<open>The promise and the task\<close>

text \<open>
  The promise of a \<open>sync_wait_task\<close> stores a value or an exception, as the promise of a task does, and \<open>result()\<close> returns or
  rethrows it.
\<close>

definition sync_wait_store :: "'v result \<Rightarrow> 'v storage" where
  "sync_wait_store r = (case r of Inr v \<Rightarrow> Stored v | Inl e \<Rightarrow> Stored_exn e)"

definition sync_wait_result :: "'v storage \<Rightarrow> 'v result" where
  "sync_wait_result st =
     (case st of
        Stored v \<Rightarrow> Inr v
      | Stored_exn e \<Rightarrow> Inl e
      | Unset \<Rightarrow> Inl (Runtime_error ''The return value was never set, did you execute the coroutine?''))"

definition sync_wait_void_result :: "exn option \<Rightarrow> unit result" where
  "sync_wait_void_result p = (case p of Some e \<Rightarrow> Inl e | None \<Rightarrow> Inr ())"

text \<open>Move assignment of \<open>sync_wait_task\<close> takes the other coroutine and forgets its own.\<close>

definition sync_wait_task_move_assign :: "nat \<Rightarrow> nat \<Rightarrow> owners \<Rightarrow> owners" where
  "sync_wait_task_move_assign x other s = (if other = x then s else task_move x other s)"

definition sync_wait_task_destructor :: "nat \<Rightarrow> owners \<Rightarrow> owners" where
  "sync_wait_task_destructor x s = (ow_destroy_frame (ow_task s x) s)\<lparr>ow_task := (ow_task s)(x := None)\<rparr>"

section \<open>The event and the two threads\<close>

text \<open>Who holds \<open>m_mutex\<close>: the thread that waits or the thread that completes the coroutine.\<close>

datatype sw_holder = Waiter | Setter

record sync_wait_event =
  se_set :: bool
  se_mutex :: "sw_holder option"

definition sync_wait_event_new :: "bool \<Rightarrow> sync_wait_event" where
  "sync_wait_event_new initially_set = \<lparr>se_set = initially_set, se_mutex = None\<rparr>"

definition sync_wait_event_reset :: "sync_wait_event \<Rightarrow> sync_wait_event" where
  "sync_wait_event_reset e = e\<lparr>se_set := False\<rparr>"

text \<open>
  The calling thread starts the coroutine and waits: it takes the mutex, tests \<open>m_set\<close> and either leaves or sleeps,
  giving up the mutex at the same time.  The coroutine runs, on this thread or another, and at its final suspend
  point takes the mutex, sets \<open>m_set\<close>, notifies and gives the mutex back.
\<close>

datatype 'v sw_pc = Sw_start | Sw_lock | Sw_test | Sw_asleep | Sw_result | Sw_returned "'v result"

datatype st_pc = St_new | St_running | St_lock | St_set | St_notify | St_unlock | St_done

record 'v sw_sys =
  sw_event :: sync_wait_event
  sw_storage :: "'v storage"
  sw_waiter :: "'v sw_pc"
  sw_setter :: st_pc
  sw_outcome :: "'v result option"

definition sync_wait :: "'v sw_sys" where
  "sync_wait = \<lparr>sw_event = sync_wait_event_new False, sw_storage = Unset, sw_waiter = Sw_start, sw_setter = St_new, sw_outcome = None\<rparr>"

text \<open>The caller of \<open>sync_wait\<close>; when it has returned, the event and the coroutine are gone.\<close>

definition sw_wait_step :: "'v sw_sys \<Rightarrow> 'v sw_sys option" where
  "sw_wait_step s =
     (case sw_waiter s of
        Sw_start \<Rightarrow> Some (s\<lparr>sw_setter := St_running, sw_waiter := Sw_lock\<rparr>)
      | Sw_lock \<Rightarrow>
          (if se_mutex (sw_event s) = None
           then Some (s\<lparr>sw_event := (sw_event s)\<lparr>se_mutex := Some Waiter\<rparr>, sw_waiter := Sw_test\<rparr>) else None)
      | Sw_test \<Rightarrow>
          Some (s\<lparr>sw_event := (sw_event s)\<lparr>se_mutex := None\<rparr>, sw_waiter := (if se_set (sw_event s) then Sw_result else Sw_asleep)\<rparr>)
      | Sw_asleep \<Rightarrow> None
      | Sw_result \<Rightarrow> Some (s\<lparr>sw_waiter := Sw_returned (sync_wait_result (sw_storage s))\<rparr>)
      | Sw_returned r \<Rightarrow> None)"

definition sw_returned :: "'v sw_sys \<Rightarrow> bool" where
  "sw_returned s = (case sw_waiter s of Sw_returned r \<Rightarrow> True | _ \<Rightarrow> False)"

text \<open>The body of the coroutine ends with \<open>r\<close>.\<close>

definition sw_complete :: "'v result \<Rightarrow> 'v sw_sys \<Rightarrow> 'v sw_sys" where
  "sw_complete r s = s\<lparr>sw_storage := sync_wait_store r, sw_outcome := Some r, sw_setter := St_lock\<rparr>"

text \<open>\<open>set()\<close>; using the event after the caller has returned has no result.\<close>

definition sw_set_step :: "'v sw_sys \<Rightarrow> 'v sw_sys option" where
  "sw_set_step s =
     (if sw_returned s then None
      else case sw_setter s of
        St_lock \<Rightarrow>
          (if se_mutex (sw_event s) = None
           then Some (s\<lparr>sw_event := (sw_event s)\<lparr>se_mutex := Some Setter\<rparr>, sw_setter := St_set\<rparr>) else None)
      | St_set \<Rightarrow> Some (s\<lparr>sw_event := (sw_event s)\<lparr>se_set := True\<rparr>, sw_setter := St_notify\<rparr>)
      | St_notify \<Rightarrow> Some (s\<lparr>sw_waiter := (case sw_waiter s of Sw_asleep \<Rightarrow> Sw_lock | p \<Rightarrow> p), sw_setter := St_unlock\<rparr>)
      | St_unlock \<Rightarrow> Some (s\<lparr>sw_event := (sw_event s)\<lparr>se_mutex := None\<rparr>, sw_setter := St_done\<rparr>)
      | _ \<Rightarrow> None)"

inductive sw_step :: "'v sw_sys \<Rightarrow> 'v sw_sys \<Rightarrow> bool" where
  sw_waits: "sw_wait_step s = Some s' \<Longrightarrow> sw_step s s'"
| sw_spurious: "sw_waiter s = Sw_asleep \<Longrightarrow> sw_step s (s\<lparr>sw_waiter := Sw_lock\<rparr>)"
| sw_completes: "sw_setter s = St_running \<Longrightarrow> sw_step s (sw_complete r s)"
| sw_sets: "sw_set_step s = Some s' \<Longrightarrow> sw_step s s'"

definition sw_init :: "'v sw_sys \<Rightarrow> bool" where
  "sw_init s \<longleftrightarrow> s = sync_wait"

section \<open>The invariant\<close>

definition sw_inv :: "'v sw_sys \<Rightarrow> bool" where
  "sw_inv s \<longleftrightarrow>
     (se_mutex (sw_event s) = Some Setter) = (sw_setter s \<in> {St_set, St_notify, St_unlock}) \<and>
     (se_mutex (sw_event s) = Some Waiter) = (sw_waiter s = Sw_test) \<and>
     se_set (sw_event s) = (sw_setter s \<in> {St_notify, St_unlock, St_done}) \<and>
     (sw_setter s = St_new) = (sw_waiter s = Sw_start) \<and>
     (sw_waiter s = Sw_asleep \<longrightarrow> sw_setter s \<notin> {St_unlock, St_done}) \<and>
     (sw_waiter s = Sw_result \<or> sw_returned s \<longrightarrow> sw_setter s = St_done) \<and>
     (if sw_setter s \<in> {St_new, St_running} then sw_outcome s = None
      else \<exists>r. sw_outcome s = Some r \<and> sw_storage s = sync_wait_store r) \<and>
     (\<forall>r. sw_waiter s = Sw_returned r \<longrightarrow> sw_outcome s = Some r)"

section \<open>Lemmas\<close>

lemma sync_wait_result_store [simp]: "sync_wait_result (sync_wait_store r) = r"
  by (cases r) (simp_all add: sync_wait_store_def sync_wait_result_def)

lemma sw_inv_wait: "sw_inv s \<Longrightarrow> sw_wait_step s = Some s' \<Longrightarrow> sw_inv s'"
  unfolding sw_wait_step_def
  by (cases "sw_waiter s"; cases "sw_setter s"; simp add: sw_inv_def sw_returned_def split: if_splits; fastforce)

lemma sw_inv_set: "sw_inv s \<Longrightarrow> sw_set_step s = Some s' \<Longrightarrow> sw_inv s'"
  unfolding sw_set_step_def
  by (cases "sw_waiter s"; cases "sw_setter s"; simp add: sw_inv_def sw_returned_def split: if_splits; fastforce)

lemma sw_inv_step:
  assumes i: "sw_inv s" and "sw_step s s'"
  shows "sw_inv s'"
  using assms(2)
proof cases
  case sw_spurious
  then show ?thesis using i by (auto simp: sw_inv_def sw_returned_def)
next
  case (sw_completes r)
  then show ?thesis using i by (cases "sw_waiter s") (auto simp: sw_inv_def sw_returned_def sw_complete_def)
qed (use i sw_inv_wait sw_inv_set in blast)+

interpretation sws: invariant_system sw_init sw_step sw_inv
proof
  show "sw_init s \<Longrightarrow> sw_inv s" for s
    by (auto simp: sw_init_def sw_inv_def sync_wait_def sync_wait_event_new_def sw_returned_def)
qed (rule sw_inv_step)

text \<open>How far the two threads are from the end once the coroutine has completed and the waiter does not wake up for nothing.\<close>

fun sw_wait_rank :: "'v sw_pc \<Rightarrow> nat" where
  "sw_wait_rank Sw_start = 6"
| "sw_wait_rank Sw_asleep = 3"
| "sw_wait_rank Sw_lock = 5"
| "sw_wait_rank Sw_test = 4"
| "sw_wait_rank Sw_result = 1"
| "sw_wait_rank (Sw_returned r) = 0"

fun sw_set_rank :: "st_pc \<Rightarrow> nat" where
  "sw_set_rank St_lock = 12"
| "sw_set_rank St_set = 11"
| "sw_set_rank St_notify = 10"
| "sw_set_rank St_unlock = 1"
| "sw_set_rank _ = 0"

definition sw_rank :: "'v sw_sys \<Rightarrow> nat" where
  "sw_rank s = sw_wait_rank (sw_waiter s) + sw_set_rank (sw_setter s)"

lemma sw_progress:
  assumes i: "sw_inv s" and o: "sw_outcome s \<noteq> None" and r: "\<not> sw_returned s"
  shows "\<exists>s'. sw_step s s' \<and> sw_rank s' < sw_rank s \<and> sw_outcome s' \<noteq> None"
proof -
  have "\<exists>s'. (sw_wait_step s = Some s' \<or> sw_set_step s = Some s') \<and> sw_rank s' < sw_rank s \<and> sw_outcome s' \<noteq> None"
    using i o r unfolding sw_wait_step_def sw_set_step_def sw_rank_def
    by (cases "sw_waiter s"; cases "sw_setter s"; cases "se_mutex (sw_event s)")
      (auto simp: sw_inv_def sw_returned_def, (metis sw_holder.exhaust)+)
  then show ?thesis by (blast intro: sw_waits sw_sets)
qed

lemma sw_returns:
  assumes "reach sw_init sw_step s" and "sw_outcome s \<noteq> None"
  shows "\<exists>s'. reach sw_init sw_step s' \<and> sw_step\<^sup>*\<^sup>* s s' \<and> sw_returned s'"
  using assms
proof (induction "sw_rank s" arbitrary: s rule: less_induct)
  case less
  show ?case
  proof (cases "sw_returned s")
    case False
    obtain t where t: "sw_step s t" "sw_rank t < sw_rank s" "sw_outcome t \<noteq> None"
      using sw_progress [OF sws.inv_reach [OF less.prems(1)] less.prems(2) False] by blast
    have "reach sw_init sw_step t" using less.prems(1) t(1) by (rule reach_step)
    from less.hyps [OF t(2) this t(3)] t(1) show ?thesis by (blast intro: converse_rtranclp_into_rtranclp)
  qed (use less.prems in blast)
qed

text \<open>Move assignment loses the coroutine that the task owned.\<close>

lemma sync_wait_task_move_assign_leaks:
  "let s = sync_wait_task_move_assign 1 0 (task_create 1 8 (task_create 0 7 \<lparr>ow_task = \<lambda>_. None, ow_created = [], ow_destroyed = []\<rparr>))
   in 8 \<in> set (ow_created s) \<and> 8 \<notin> set (ow_destroyed s) \<and> (\<nexists>x. ow_task s x = Some 8)"
  by (simp add: sync_wait_task_move_assign_def task_move_def task_create_def)

section \<open>Properties\<close>

text \<open>C26: \<open>sync_wait\<close> returns, once the coroutine has completed, with its outcome.  In every interleaving, spurious
  wake-ups included: when \<open>sync_wait\<close> has returned or thrown, it is the value or exception of the coroutine and the
  completing thread has left \<open>set()\<close>, so that the event on the stack is not used after its end; and from every
  reachable state in which the coroutine has completed some continuation reaches the return, with no
  thread asleep for ever.\<close>

theorem sync_wait_returns:
  assumes "reach sw_init sw_step s"
  shows "(sw_waiter s = Sw_returned r \<longrightarrow> sw_outcome s = Some r \<and> sw_setter s = St_done) \<and>
    (sw_waiter s = Sw_asleep \<longrightarrow> sw_setter s \<noteq> St_done) \<and>
    (sw_outcome s \<noteq> None \<longrightarrow> (\<exists>s'. reach sw_init sw_step s' \<and> sw_step\<^sup>*\<^sup>* s s' \<and> sw_returned s'))"
proof -
  have i: "sw_inv s" using sws.inv_reach [OF assms] .
  show ?thesis using i sw_returns [OF assms] by (auto simp: sw_inv_def sw_returned_def)
qed

lemma sw_demo_run: "\<exists>s. reach sw_init sw_step s \<and> sw_outcome s = Some (Inr (5 :: nat)) \<and> sw_waiter s = Sw_lock"
proof -
  let ?s1 = "(sync_wait :: nat sw_sys)\<lparr>sw_setter := St_running, sw_waiter := Sw_lock\<rparr>"
  have "reach sw_init sw_step (sync_wait :: nat sw_sys)" by (rule reach_init) (simp add: sw_init_def)
  then have "reach sw_init sw_step ?s1" by (rule reach_step) (rule sw_waits, simp add: sw_wait_step_def sync_wait_def)
  then have "reach sw_init sw_step (sw_complete (Inr 5) ?s1)" by (rule reach_step) (rule sw_completes, simp)
  then show ?thesis by (rule exI [of _ "sw_complete (Inr 5) ?s1", OF conjI]) (simp add: sw_complete_def)
qed

theorem sync_wait_returns_witness:
  "\<exists>s s'. reach sw_init sw_step s \<and> sw_outcome s = Some (Inr (5 :: nat)) \<and> sw_step\<^sup>*\<^sup>* s s' \<and> sw_returned s'"
proof -
  obtain s where s: "reach sw_init sw_step s" "sw_outcome s = Some (Inr (5 :: nat))" using sw_demo_run by blast
  have "\<exists>s'. reach sw_init sw_step s' \<and> sw_step\<^sup>*\<^sup>* s s' \<and> sw_returned s'"
    using sync_wait_returns [OF s(1), of "Inr 5"] s(2) by simp
  then show ?thesis using s by blast
qed

end
