(* ===== verification/ConditionVariable.thy ===== *)
theory ConditionVariable
  imports Monitor
begin

text \<open>
  The condition variable of \<open>include/coro/condition_variable.hpp\<close> and \<open>src/condition_variable.cpp\<close> without time-outs:
  \<open>wait\<close> with and without a predicate and a stop token, \<open>notify_one\<close>, \<open>notify_all\<close> and \<open>notify_all\<close> on an executor, over
  the mutex of theory \<open>Mutex\<close>.  The list of awaiters is the stack that theory \<open>AwaiterList\<close> justifies.  Users, waiters
  and notifying coroutines interleave between any two accesses; notifying coroutines do not hold the lock when they
  call, as the documentation asks.
\<close>

section \<open>Waiting and notifying\<close>

text \<open>
  The three kinds of awaiters without a time-out.  A predicate reads the data that the lock protects.
\<close>

datatype 'e wait_kind = Wait | Wait_pred "'e \<Rightarrow> bool" | Wait_stop "'e \<Rightarrow> bool"

datatype notify_status = Ready | Not_ready | Awaiter_dead

text \<open>\<open>await_ready\<close> of the three awaiters, and what \<open>on_notify\<close> finds when it has the lock.\<close>

fun cv_await_ready :: "'e wait_kind \<Rightarrow> 'e \<Rightarrow> bool" where
  "cv_await_ready Wait d = False"
| "cv_await_ready (Wait_pred p) d = p d"
| "cv_await_ready (Wait_stop p) d = p d"

fun cv_on_notify :: "'e wait_kind \<Rightarrow> 'e \<Rightarrow> bool \<Rightarrow> notify_status" where
  "cv_on_notify Wait d stop = Ready"
| "cv_on_notify (Wait_pred p) d stop = (if p d then Ready else Not_ready)"
| "cv_on_notify (Wait_stop p) d stop = (if p d \<or> stop then Ready else Not_ready)"

text \<open>\<open>m_predicate_result\<close>, which \<open>await_resume\<close> of the third kind returns.\<close>

fun cv_predicate_result :: "'e wait_kind \<Rightarrow> 'e \<Rightarrow> bool" where
  "cv_predicate_result Wait d = True"
| "cv_predicate_result (Wait_pred p) d = p d"
| "cv_predicate_result (Wait_stop p) d = p d"

text \<open>
  \<open>notify_one\<close>, \<open>notify_all\<close> with the awaiters it still has to notify, and the task that \<open>notify_all\<close> spawns for each
  awaiter on an executor.
\<close>

datatype notify_mode = One | All | Each

text \<open>
  A coroutine is outside, queued for the lock, or holds it; it is inside \<open>wait\<close>, having entered the list of awaiters but
  not yet released the lock, or suspended there; or it notifies: it is at the head of its loop, asks for the lock on
  behalf of an awaiter, is queued for it, has it and looks at the awaiter, releases it, or puts the awaiter back.
\<close>

datatype 'e cv_pc =
    Cv_idle
  | Cv_locking
  | Cv_holding
  | Cv_suspending "'e wait_kind"
  | Cv_waiting "'e wait_kind"
  | Nt_next notify_mode "handle list"
  | Nt_lock notify_mode handle "handle list"
  | Nt_locking notify_mode handle "handle list"
  | Nt_check notify_mode handle "handle list"
  | Nt_unlock notify_mode handle "handle list"
  | Nt_push notify_mode handle "handle list"

text \<open>
  \<open>m_awaiters\<close> newest first, the mutex, the data it protects, the stop flag, and the awaiters for which a task has
  been spawned that has not begun.
\<close>

record 'e cv_sys =
  cv_awaiters :: "handle list"
  cv_mutex :: cmutex
  cv_data :: 'e
  cv_stop :: bool
  cv_spawned :: "handle list"
  cv_pc :: "handle \<Rightarrow> 'e cv_pc"
  cv_result :: "handle \<Rightarrow> bool"

definition cv_set :: "handle \<Rightarrow> 'e cv_pc \<Rightarrow> 'e cv_sys \<Rightarrow> 'e cv_sys" where
  "cv_set t p s = s\<lparr>cv_pc := (cv_pc s)(t := p)\<rparr>"

text \<open>
  \<open>unlock\<close> of the mutex by a coroutine that goes on at \<open>p\<close>; a coroutine that was queued gets the mutex.  An exception,
  or a resumption of a coroutine that is not queued, has no result.
\<close>

definition cv_unlock :: "handle \<Rightarrow> 'e cv_pc \<Rightarrow> 'e cv_sys \<Rightarrow> 'e cv_sys option" where
  "cv_unlock t p s =
     (case unlock (cv_mutex s) of
        Inl e \<Rightarrow> None
      | Inr (None, m) \<Rightarrow> Some ((cv_set t p s)\<lparr>cv_mutex := m\<rparr>)
      | Inr (Some w, m) \<Rightarrow>
          (case cv_pc s w of
             Cv_locking \<Rightarrow> Some ((cv_set w Cv_holding (cv_set t p s))\<lparr>cv_mutex := m\<rparr>)
           | Nt_locking md v todo \<Rightarrow> Some ((cv_set w (Nt_check md v todo) (cv_set t p s))\<lparr>cv_mutex := m\<rparr>)
           | _ \<Rightarrow> None))"

text \<open>\<open>co_await lock()\<close>: the places where the coroutine is queued and where it has the mutex.\<close>

definition cv_lock :: "handle \<Rightarrow> 'e cv_pc \<Rightarrow> 'e cv_pc \<Rightarrow> 'e cv_sys \<Rightarrow> 'e cv_sys" where
  "cv_lock t queued entered s =
     (let (susp, m) = lock_await (cv_mutex s) t in (cv_set t (if susp then queued else entered) s)\<lparr>cv_mutex := m\<rparr>)"

text \<open>\<open>wait\<close> by the holder of the lock.\<close>

definition cv_wait :: "handle \<Rightarrow> 'e wait_kind \<Rightarrow> 'e cv_sys \<Rightarrow> 'e cv_sys" where
  "cv_wait t k s =
     (if cv_await_ready k (cv_data s) then s\<lparr>cv_result := (cv_result s)(t := True)\<rparr>
      else (cv_set t (Cv_suspending k) s)\<lparr>cv_awaiters := t # cv_awaiters s\<rparr>)"

text \<open>The calls of \<open>notify_one\<close> and \<open>notify_all\<close>, and of \<open>notify_all\<close> with an executor.\<close>

definition cv_notify_one :: "handle \<Rightarrow> 'e cv_sys \<Rightarrow> 'e cv_sys" where
  "cv_notify_one t s = cv_set t (Nt_next One []) s"



text \<open>After an awaiter that was resumed or put back: \<open>notify_one\<close> returns, \<open>notify_all\<close> takes the next.\<close>

fun cv_after :: "notify_mode \<Rightarrow> handle list \<Rightarrow> 'e cv_pc" where
  "cv_after All todo = Nt_next All todo"
| "cv_after One todo = Cv_idle"
| "cv_after Each todo = Cv_idle"

definition cv_next :: "handle \<Rightarrow> notify_mode \<Rightarrow> handle list \<Rightarrow> 'e cv_sys \<Rightarrow> 'e cv_sys" where
  "cv_next t md todo s =
     (case md of
        One \<Rightarrow>
          (case cv_awaiters s of
             [] \<Rightarrow> cv_set t Cv_idle s
           | w # ws \<Rightarrow> (cv_set t (Nt_lock One w []) s)\<lparr>cv_awaiters := ws\<rparr>)
      | _ \<Rightarrow> (case todo of [] \<Rightarrow> cv_set t Cv_idle s | w # ws \<Rightarrow> cv_set t (Nt_lock md w ws) s))"

text \<open>
  The part of \<open>on_notify\<close> that runs with the lock.  When the awaiter is ready its coroutine is resumed and has the
  lock from then on.
\<close>

definition cv_check :: "handle \<Rightarrow> notify_mode \<Rightarrow> handle \<Rightarrow> handle list \<Rightarrow> 'e cv_sys \<Rightarrow> 'e cv_sys option" where
  "cv_check t md w todo s =
     (case cv_pc s w of
        Cv_waiting k \<Rightarrow>
          (let s = s\<lparr>cv_result := (cv_result s)(w := cv_predicate_result k (cv_data s))\<rparr>
           in if cv_on_notify k (cv_data s) (cv_stop s) = Ready then Some (cv_set w Cv_holding (cv_set t (cv_after md todo) s))
              else Some (cv_set t (Nt_unlock md w todo) s))
      | _ \<Rightarrow> None)"

definition cv_push :: "handle \<Rightarrow> notify_mode \<Rightarrow> handle \<Rightarrow> handle list \<Rightarrow> 'e cv_sys \<Rightarrow> 'e cv_sys" where
  "cv_push t md w todo s = (cv_set t (cv_after md todo) s)\<lparr>cv_awaiters := w # cv_awaiters s\<rparr>"

definition cv_tstep :: "handle \<Rightarrow> 'e cv_sys \<Rightarrow> 'e cv_sys option" where
  "cv_tstep t s =
     (case cv_pc s t of
        Cv_suspending k \<Rightarrow> cv_unlock t (Cv_waiting k) s
      | Nt_next md todo \<Rightarrow> Some (cv_next t md todo s)
      | Nt_lock md w todo \<Rightarrow> Some (cv_lock t (Nt_locking md w todo) (Nt_check md w todo) s)
      | Nt_check md w todo \<Rightarrow> cv_check t md w todo s
      | Nt_unlock md w todo \<Rightarrow> cv_unlock t (Nt_push md w todo) s
      | Nt_push md w todo \<Rightarrow> Some (cv_push t md w todo s)
      | _ \<Rightarrow> None)"



section \<open>The invariant\<close>








section \<open>Schedules\<close>

text \<open>Executions as lists of actions, for concrete runs.\<close>

datatype 'e cv_action =
    Run handle
  | Lock handle
  | Unlock handle
  | Write handle 'e
  | Call_wait handle "'e wait_kind"
  | Call_notify_one handle

fun cv_act :: "'e cv_action \<Rightarrow> 'e cv_sys \<Rightarrow> 'e cv_sys option" where
  "cv_act (Run t) s = cv_tstep t s"
| "cv_act (Lock t) s = (case cv_pc s t of Cv_idle \<Rightarrow> Some (cv_lock t Cv_locking Cv_holding s) | _ \<Rightarrow> None)"
| "cv_act (Unlock t) s = (case cv_pc s t of Cv_holding \<Rightarrow> cv_unlock t Cv_idle s | _ \<Rightarrow> None)"
| "cv_act (Write t d) s = (case cv_pc s t of Cv_holding \<Rightarrow> Some (s\<lparr>cv_data := d\<rparr>) | _ \<Rightarrow> None)"
| "cv_act (Call_wait t k) s = (case cv_pc s t of Cv_holding \<Rightarrow> Some (cv_wait t k s) | _ \<Rightarrow> None)"
| "cv_act (Call_notify_one t) s = (case cv_pc s t of Cv_idle \<Rightarrow> Some (cv_notify_one t s) | _ \<Rightarrow> None)"

fun cv_run :: "'e cv_action list \<Rightarrow> 'e cv_sys \<Rightarrow> 'e cv_sys option" where
  "cv_run [] s = Some s"
| "cv_run (a # as) s = (case cv_act a s of None \<Rightarrow> None | Some s' \<Rightarrow> cv_run as s')"

definition cv_new :: "'e \<Rightarrow> 'e cv_sys" where
  "cv_new d = \<lparr>cv_awaiters = [], cv_mutex = CUnlocked, cv_data = d, cv_stop = False, cv_spawned = [], cv_pc = \<lambda>_. Cv_idle, cv_result = \<lambda>_. False\<rparr>"

text \<open>
  Coroutine 1 waits for the flag; coroutine 2 notifies it while the flag is false and releases the lock; coroutine 3
  sets the flag and calls \<open>notify_one\<close> before coroutine 2 has put the awaiter back.
\<close>

definition cv_lost_before :: "bool cv_action list" where
  "cv_lost_before =
     [Lock 1, Call_wait 1 (Wait_pred id), Run 1, Call_notify_one 2, Run 2, Run 2, Run 2, Run 2, Lock 3, Write 3 True, Unlock 3]"

definition cv_lost_after :: "bool cv_action list" where
  "cv_lost_after = [Call_notify_one 3, Run 3, Run 2]"

section \<open>Lemmas\<close>


lemma cv_set_simps [simp]:
  "cv_pc (cv_set t p s) = (cv_pc s)(t := p)" "cv_mutex (cv_set t p s) = cv_mutex s" "cv_awaiters (cv_set t p s) = cv_awaiters s"
  "cv_spawned (cv_set t p s) = cv_spawned s" "cv_data (cv_set t p s) = cv_data s" "cv_stop (cv_set t p s) = cv_stop s"
  "cv_result (cv_set t p s) = cv_result s"
  by (simp_all add: cv_set_def)






























lemmas cv_run_defs = cv_tstep_def cv_lock_def cv_unlock_def cv_wait_def cv_notify_one_def cv_next_def cv_check_def cv_push_def
  cv_set_def cv_new_def

text \<open>
  The notification that comes between the release of the lock and the re-insertion of an awaiter is lost: the flag is
  true, \<open>notify_one\<close> has been called since and has returned, nobody else is active, and coroutine 1 still waits.
\<close>

lemma condition_variable_loses_notification:
  "\<exists>s s'. cv_run cv_lost_before (cv_new False) = Some s \<and> cv_data s \<and> cv_pc s 1 = Cv_waiting (Wait_pred id) \<and> cv_pc s 3 = Cv_idle \<and>
     cv_run cv_lost_after s = Some s' \<and> cv_data s' \<and> cv_pc s' 1 = Cv_waiting (Wait_pred id) \<and> cv_awaiters s' = [1] \<and>
     (\<forall>t. t \<noteq> 1 \<longrightarrow> cv_pc s' t = Cv_idle)"
  by (simp add: cv_lost_before_def cv_lost_after_def cv_run_defs)

section \<open>Properties\<close>






end
