(* ===== verification/TimedWait.thy ===== *)
theory TimedWait
  imports ConditionVariable
begin

text \<open>
  Waiting for a condition variable with a time-out: \<open>wait_for\<close>, \<open>wait_until\<close>, the hook and the controller of
  \<open>include/coro/condition_variable.hpp\<close> and \<open>src/condition_variable.cpp\<close>.  One wait is followed through its four
  coroutines, access by access; the two mutexes are who holds them, and the list of awaiters is whether it has the hook.
\<close>

section \<open>A wait with a time-out\<close>

text \<open>
  The coroutine that calls \<open>wait_for\<close>, the coroutine that notifies the hook, the task that waits for the time-out, and
  everybody else who uses the lock.
\<close>

datatype tw_agent = Caller | Notifier | Timer | Other

datatype cv_status = No_timeout | Timeout

text \<open>
  The caller: \<open>await_ready\<close>; the controller enters the hook into the list of awaiters, releases the lock and starts its
  two tasks; suspended; resumed; and gone, when the awaiter \<open>awaiter_with_wait\<close> in its frame does not exist any more.
\<close>

datatype tc_pc = Tc_ready | Tc_push | Tc_unlock | Tc_begin | Tc_suspended | Tc_running | Tc_gone

text \<open>\<open>make_timeout_task\<close>, \<open>on_notify\<close> of the hook, and \<open>make_on_notify_callback_task\<close>, access by access.\<close>

datatype tm_pc = Tm_new | Tm_sleep | Tm_elock | Tm_cas | Tm_won | Tm_lock | Tm_resume | Tm_lost | Tm_done

datatype tn_pc = Tn_idle | Tn_elock | Tn_test | Tn_dead | Tn_dead_set | Tn_lock | Tn_pred | Tn_ready | Tn_set | Tn_unlock | Tn_eunlock | Tn_push | Tn_end

datatype tk_pc = Tk_new | Tk_waiting | Tk_test | Tk_done

record 'e tw_sys =
  tw_listed :: bool
  tw_completed :: bool
  tw_emutex :: "tw_agent option"
  tw_mutex :: "tw_agent option"
  tw_event :: bool
  tw_status :: "cv_status option"
  tw_presult :: bool
  tw_data :: 'e
  tw_stop :: bool
  tw_caller :: tc_pc
  tw_timer :: tm_pc
  tw_notify :: tn_pc
  tw_callback :: tk_pc
  tw_resumed :: nat

text \<open>
  \<open>wait_for\<close> is called with the lock held.  The predicate and the stop token are optional; \<open>wait_until\<close> calls it with the
  time that is left, or with one nanosecond.
\<close>

definition wait_for :: "'e \<Rightarrow> bool \<Rightarrow> 'e tw_sys" where
  "wait_for d stop =
     \<lparr>tw_listed = False, tw_completed = False, tw_emutex = None, tw_mutex = Some Caller, tw_event = False, tw_status = None,
      tw_presult = False, tw_data = d, tw_stop = stop, tw_caller = Tc_ready, tw_timer = Tm_new, tw_notify = Tn_idle,
      tw_callback = Tk_new, tw_resumed = 0\<rparr>"

definition wait_until_duration :: "int \<Rightarrow> int \<Rightarrow> int" where
  "wait_until_duration now wait_until_time = (if now < wait_until_time then wait_until_time - now else 1)"

text \<open>\<open>await_resume\<close>: the predicate result for waits with a predicate, the status for the others.\<close>

definition tw_await_resume_bool :: "'e tw_sys \<Rightarrow> bool" where
  "tw_await_resume_bool s = tw_presult s"

definition tw_await_resume_status :: "'e tw_sys \<Rightarrow> cv_status result" where
  "tw_await_resume_status s = (case tw_status s of Some st \<Rightarrow> Inr st | None \<Rightarrow> Inl Bad_optional_access)"

definition tw_await_ready :: "('e \<Rightarrow> bool) option \<Rightarrow> bool \<Rightarrow> 'e tw_sys \<Rightarrow> bool \<times> 'e tw_sys" where
  "tw_await_ready pred token s =
     (case pred of
        None \<Rightarrow> (False, s)
      | Some p \<Rightarrow>
          (let r = p (tw_data s)
           in (r, s\<lparr>tw_presult := r, tw_status := (if r \<and> token \<and> tw_stop s then Some No_timeout else tw_status s)\<rparr>)))"

definition tw_caller_step :: "('e \<Rightarrow> bool) option \<Rightarrow> bool \<Rightarrow> 'e tw_sys \<Rightarrow> 'e tw_sys option" where
  "tw_caller_step pred token s =
     (case tw_caller s of
        Tc_ready \<Rightarrow> (let (b, s) = tw_await_ready pred token s in Some (s\<lparr>tw_caller := (if b then Tc_running else Tc_push)\<rparr>))
      | Tc_push \<Rightarrow> Some (s\<lparr>tw_listed := True, tw_caller := Tc_unlock\<rparr>)
      | Tc_unlock \<Rightarrow> Some (s\<lparr>tw_mutex := None, tw_caller := Tc_begin\<rparr>)
      | Tc_begin \<Rightarrow> Some (s\<lparr>tw_callback := Tk_waiting, tw_timer := Tm_sleep, tw_caller := Tc_suspended\<rparr>)
      | Tc_suspended \<Rightarrow> None
      | Tc_running \<Rightarrow> Some (s\<lparr>tw_caller := Tc_gone\<rparr>)
      | Tc_gone \<Rightarrow> None)"

text \<open>
  Resuming the caller, who has the lock then.  Steps that write to or read from the awaiter in the frame of the caller when
  it is gone have no result.
\<close>

definition tw_resume :: "'e tw_sys \<Rightarrow> 'e tw_sys option" where
  "tw_resume s =
     (if tw_caller s = Tc_suspended then Some (s\<lparr>tw_caller := Tc_running, tw_mutex := Some Caller, tw_resumed := Suc (tw_resumed s)\<rparr>)
      else None)"

definition tw_timer_step :: "('e \<Rightarrow> bool) option \<Rightarrow> 'e tw_sys \<Rightarrow> 'e tw_sys option" where
  "tw_timer_step pred s =
     (case tw_timer s of
        Tm_new \<Rightarrow> None
      | Tm_sleep \<Rightarrow> Some (s\<lparr>tw_timer := Tm_elock\<rparr>)
      | Tm_elock \<Rightarrow> (if tw_emutex s = None then Some (s\<lparr>tw_emutex := Some Timer, tw_timer := Tm_cas\<rparr>) else None)
      | Tm_cas \<Rightarrow>
          (if tw_completed s then Some (s\<lparr>tw_timer := Tm_lost\<rparr>)
           else if tw_caller s = Tc_gone then None
           else Some (s\<lparr>tw_completed := True, tw_status := Some Timeout, tw_timer := Tm_won\<rparr>))
      | Tm_won \<Rightarrow> Some (s\<lparr>tw_emutex := None, tw_timer := Tm_lock\<rparr>)
      | Tm_lock \<Rightarrow> (if tw_mutex s = None then Some (s\<lparr>tw_mutex := Some Timer, tw_timer := Tm_resume\<rparr>) else None)
      | Tm_resume \<Rightarrow> tw_resume (s\<lparr>tw_presult := (case pred of Some p \<Rightarrow> p (tw_data s) | None \<Rightarrow> True), tw_timer := Tm_done\<rparr>)
      | Tm_lost \<Rightarrow> Some (s\<lparr>tw_emutex := None, tw_timer := Tm_done\<rparr>)
      | Tm_done \<Rightarrow> None)"

definition tw_hook_ready :: "('e \<Rightarrow> bool) option \<Rightarrow> bool \<Rightarrow> 'e tw_sys \<Rightarrow> bool" where
  "tw_hook_ready pred token s = (case pred of None \<Rightarrow> True | Some p \<Rightarrow> p (tw_data s) \<or> token \<and> tw_stop s)"

definition tw_notify_step :: "('e \<Rightarrow> bool) option \<Rightarrow> bool \<Rightarrow> 'e tw_sys \<Rightarrow> 'e tw_sys option" where
  "tw_notify_step pred token s =
     (case tw_notify s of
        Tn_idle \<Rightarrow> (if tw_listed s then Some (s\<lparr>tw_listed := False, tw_notify := Tn_elock\<rparr>) else None)
      | Tn_elock \<Rightarrow> (if tw_emutex s = None then Some (s\<lparr>tw_emutex := Some Notifier, tw_notify := Tn_test\<rparr>) else None)
      | Tn_test \<Rightarrow> Some (s\<lparr>tw_notify := (if tw_completed s then Tn_dead else Tn_lock)\<rparr>)
      | Tn_dead \<Rightarrow> Some (s\<lparr>tw_emutex := None, tw_notify := Tn_dead_set\<rparr>)
      | Tn_dead_set \<Rightarrow> Some (s\<lparr>tw_event := True, tw_notify := Tn_end\<rparr>)
      | Tn_lock \<Rightarrow> (if tw_mutex s = None then Some (s\<lparr>tw_mutex := Some Notifier, tw_notify := Tn_pred\<rparr>) else None)
      | Tn_pred \<Rightarrow>
          (if tw_caller s = Tc_gone then None
           else let s = s\<lparr>tw_presult := (case pred of Some p \<Rightarrow> p (tw_data s) | None \<Rightarrow> tw_presult s)\<rparr>
                in if tw_hook_ready pred token s then Some (s\<lparr>tw_completed := True, tw_status := Some No_timeout, tw_notify := Tn_ready\<rparr>)
                   else Some (s\<lparr>tw_notify := Tn_unlock\<rparr>))
      | Tn_ready \<Rightarrow> Some (s\<lparr>tw_emutex := None, tw_notify := Tn_set\<rparr>)
      | Tn_set \<Rightarrow> Some (s\<lparr>tw_event := True, tw_notify := Tn_end\<rparr>)
      | Tn_unlock \<Rightarrow> Some (s\<lparr>tw_mutex := None, tw_notify := Tn_eunlock\<rparr>)
      | Tn_eunlock \<Rightarrow> Some (s\<lparr>tw_emutex := None, tw_notify := Tn_push\<rparr>)
      | Tn_push \<Rightarrow> Some (s\<lparr>tw_listed := True, tw_notify := Tn_idle\<rparr>)
      | Tn_end \<Rightarrow> None)"

definition tw_callback_step :: "'e tw_sys \<Rightarrow> 'e tw_sys option" where
  "tw_callback_step s =
     (case tw_callback s of
        Tk_waiting \<Rightarrow> (if tw_event s then Some (s\<lparr>tw_callback := Tk_test\<rparr>) else None)
      | Tk_test \<Rightarrow>
          (if tw_caller s = Tc_gone then None
           else if tw_status s = Some No_timeout then tw_resume (s\<lparr>tw_callback := Tk_done\<rparr>)
           else Some (s\<lparr>tw_callback := Tk_done\<rparr>))
      | _ \<Rightarrow> None)"



text \<open>Executions as lists of the agents that take a step; \<open>Other\<close> stands for the callback task.\<close>

fun tw_act :: "('e \<Rightarrow> bool) option \<Rightarrow> bool \<Rightarrow> tw_agent \<Rightarrow> 'e tw_sys \<Rightarrow> 'e tw_sys option" where
  "tw_act pred token Caller s = tw_caller_step pred token s"
| "tw_act pred token Timer s = tw_timer_step pred s"
| "tw_act pred token Notifier s = tw_notify_step pred token s"
| "tw_act pred token Other s = tw_callback_step s"

fun tw_run :: "('e \<Rightarrow> bool) option \<Rightarrow> bool \<Rightarrow> tw_agent list \<Rightarrow> 'e tw_sys \<Rightarrow> 'e tw_sys option" where
  "tw_run pred token [] s = Some s"
| "tw_run pred token (a # as) s = (case tw_act pred token a s of None \<Rightarrow> None | Some s' \<Rightarrow> tw_run pred token as s')"

section \<open>The invariant\<close>




















section \<open>Lemmas\<close>











lemma tw_hook_ready_upd [simp]: "tw_hook_ready pred token (s\<lparr>tw_presult := r\<rparr>) = tw_hook_ready pred token s"
  by (simp add: tw_hook_ready_def split: option.splits)












lemmas tw_run_defs = wait_for_def tw_caller_step_def tw_await_ready_def tw_timer_step_def tw_notify_step_def tw_callback_step_def
  tw_resume_def tw_hook_ready_def

text \<open>
  The callback of a wait that timed out reads \<open>m_status\<close> in the awaiter of the caller, which may be gone: after the time-out
  the caller goes on and its awaiter ends; a later notification finds the dead hook and wakes the callback.
\<close>

lemma timed_wait_callback_reads_gone:
  "\<exists>s. tw_run None False (replicate 4 Caller @ replicate 6 Timer @ [Caller] @ replicate 5 Notifier @ [Other]) (wait_for () False) = Some s \<and>
     tw_caller s = Tc_gone \<and> tw_callback s = Tk_test \<and> tw_callback_step s = None"
  by (simp add: numeral_eq_Suc tw_run_defs)

section \<open>Properties\<close>



end
