(* ===== verification/Expected.thy ===== *)
theory Expected
  imports Prelude
begin

text \<open>
  \<open>tl::expected\<close> of \<open>include/coro/detail/tl_expected.hpp\<close>, the result type of the queue, the ring buffer, the scheduler and the
  network classes: a union of a value and an error with the flag \<open>m_has_val\<close>.  The model follows the lifetime of the members
  through constructors, destructors, assignments, \<open>emplace\<close> and \<open>swap\<close>, overload by overload, with the exceptions that the
  copies and moves of the template arguments may throw.  \<open>expected<void, E>\<close> has its own operations.
\<close>

section \<open>Objects with a lifetime\<close>

text \<open>
  What a call can come to: a value, an exception that leaves it, the end of the program (an exception in a
  \<open>noexcept\<close> function, a failed \<open>TL_ASSERT\<close>) or undefined behaviour (the use of an object that is not alive).
\<close>

datatype ('a, 's) outcome =
    Done 'a 's
  | Thrown exn 's
  | Aborted
  | Undefined

type_synonym ('a, 's) prog = "'s \<Rightarrow> ('a, 's) outcome"

definition ret :: "'a \<Rightarrow> ('a, 's) prog" where
  "ret a s = Done a s"

definition bnd :: "('a, 's) prog \<Rightarrow> ('a \<Rightarrow> ('b, 's) prog) \<Rightarrow> ('b, 's) prog" where
  "bnd p f s = (case p s of Done a s' \<Rightarrow> f a s' | Thrown x s' \<Rightarrow> Thrown x s' | Aborted \<Rightarrow> Aborted | Undefined \<Rightarrow> Undefined)"

primrec block :: "(unit, 's) prog list \<Rightarrow> (unit, 's) prog" where
  "block [] = ret ()"
| "block (p # ps) = bnd p (\<lambda>_. block ps)"

definition cond :: "('s \<Rightarrow> bool) \<Rightarrow> ('a, 's) prog \<Rightarrow> ('a, 's) prog \<Rightarrow> ('a, 's) prog" where
  "cond b p q s = (if b s then p s else q s)"

text \<open>A \<open>noexcept\<close> function, and \<open>try p catch (...) \<lbrace> h; throw; \<rbrace>\<close>.\<close>

definition noexc :: "('a, 's) prog \<Rightarrow> ('a, 's) prog" where
  "noexc p s = (case p s of Thrown x s' \<Rightarrow> Aborted | Done a s' \<Rightarrow> Done a s' | Aborted \<Rightarrow> Aborted | Undefined \<Rightarrow> Undefined)"

definition try_rethrow :: "('a, 's) prog \<Rightarrow> (unit, 's) prog \<Rightarrow> ('a, 's) prog" where
  "try_rethrow p h s =
     (case p s of
        Thrown x s' \<Rightarrow> (case h s' of Done _ s'' \<Rightarrow> Thrown x s'' | Thrown y s'' \<Rightarrow> Thrown y s'' | Aborted \<Rightarrow> Aborted | Undefined \<Rightarrow> Undefined)
      | Done a s' \<Rightarrow> Done a s' | Aborted \<Rightarrow> Aborted | Undefined \<Rightarrow> Undefined)"

definition outcome_of :: "'a result \<Rightarrow> ('a, 's) prog" where
  "outcome_of r s = (case r of Inr a \<Rightarrow> Done a s | Inl x \<Rightarrow> Thrown x s)"

text \<open>
  What the template arguments bring along: the exception, if any, that copying or moving a value raises, the value
  that a move leaves behind, and the two traits by which the overloads are chosen.
\<close>

record 'a traits =
  copy_ctor :: "'a \<Rightarrow> exn option"
  move_ctor :: "'a \<Rightarrow> exn option"
  copy_asg :: "'a \<Rightarrow> exn option"
  move_asg :: "'a \<Rightarrow> exn option"
  moved_from :: "'a \<Rightarrow> 'a"
  is_nothrow_copy_constructible :: bool
  is_nothrow_move_constructible :: bool

definition never_throws :: "'a traits \<Rightarrow> bool" where
  "never_throws t \<longleftrightarrow> (\<forall>v. copy_ctor t v = None \<and> move_ctor t v = None \<and> copy_asg t v = None \<and> move_asg t v = None)"

section \<open>The storage\<close>

text \<open>
  The union of \<open>expected_storage_base\<close> with the member that is alive, and \<open>m_has_val\<close>.  An \<open>unexpected<E>\<close> is the
  value it wraps.
\<close>

datatype ('t, 'e) member =
    M_val 't
  | M_unexpect 'e
  | M_no_init

record ('t, 'e) expected_storage =
  m_member :: "('t, 'e) member"
  m_has_val :: bool

text \<open>The two objects of an operation, and the number of objects that lost their storage without a destructor call.\<close>

datatype side = This | Rhs

record ('t, 'e) mem =
  obj :: "side \<Rightarrow> ('t, 'e) expected_storage"
  leaks :: nat

type_synonym ('a, 't, 'e) xprog = "('a, ('t, 'e) mem) prog"

definition set_member :: "side \<Rightarrow> ('t, 'e) member \<Rightarrow> (unit, 't, 'e) xprog" where
  "set_member a x m = Done () (m\<lparr>obj := (obj m)(a := (obj m a)\<lparr>m_member := x\<rparr>)\<rparr>)"

definition set_has_val :: "side \<Rightarrow> bool \<Rightarrow> (unit, 't, 'e) xprog" where
  "set_has_val a b m = Done () (m\<lparr>obj := (obj m)(a := (obj m a)\<lparr>m_has_val := b\<rparr>)\<rparr>)"

definition has_val :: "side \<Rightarrow> ('t, 'e) mem \<Rightarrow> bool" where
  "has_val a m = m_has_val (obj m a)"

definition get :: "side \<Rightarrow> ('t, 't, 'e) xprog" where
  "get a m = (case m_member (obj m a) of M_val v \<Rightarrow> Done v m | _ \<Rightarrow> Undefined)"

definition geterr :: "side \<Rightarrow> ('e, 't, 'e) xprog" where
  "geterr a m = (case m_member (obj m a) of M_unexpect e \<Rightarrow> Done e m | _ \<Rightarrow> Undefined)"

text \<open>Destructor calls, placement \<open>new\<close> and assignment to a member.\<close>

definition destroy_val :: "side \<Rightarrow> (unit, 't, 'e) xprog" where
  "destroy_val a = bnd (get a) (\<lambda>_. set_member a M_no_init)"

definition destroy_err :: "side \<Rightarrow> (unit, 't, 'e) xprog" where
  "destroy_err a = bnd (geterr a) (\<lambda>_. set_member a M_no_init)"

definition place :: "side \<Rightarrow> ('t, 'e) member \<Rightarrow> (unit, 't, 'e) xprog" where
  "place a x m = (if m_member (obj m a) = M_no_init then set_member a x m else set_member a x (m\<lparr>leaks := leaks m + 1\<rparr>))"

definition new_val :: "side \<Rightarrow> 't result \<Rightarrow> (unit, 't, 'e) xprog" where
  "new_val a r = bnd (outcome_of r) (\<lambda>v. place a (M_val v))"

definition new_err :: "side \<Rightarrow> 'e result \<Rightarrow> (unit, 't, 'e) xprog" where
  "new_err a r = bnd (outcome_of r) (\<lambda>e. place a (M_unexpect e))"

definition asg_val :: "side \<Rightarrow> 't result \<Rightarrow> (unit, 't, 'e) xprog" where
  "asg_val a r = bnd (get a) (\<lambda>_. bnd (outcome_of r) (\<lambda>v. set_member a (M_val v)))"

definition asg_err :: "side \<Rightarrow> 'e result \<Rightarrow> (unit, 't, 'e) xprog" where
  "asg_err a r = bnd (geterr a) (\<lambda>_. bnd (outcome_of r) (\<lambda>e. set_member a (M_unexpect e)))"

text \<open>The expression that hands a member on: by reference to a copy, or by \<open>std::move\<close>, which leaves a moved-from value.\<close>

datatype ref = Copy | Move

definition raise_or :: "exn option \<Rightarrow> 'a \<Rightarrow> 'a result" where
  "raise_or o_x v = (case o_x of None \<Rightarrow> Inr v | Some x \<Rightarrow> Inl x)"

fun ctor_from :: "'a traits \<Rightarrow> ref \<Rightarrow> 'a \<Rightarrow> 'a result" where
  "ctor_from t Copy v = raise_or (copy_ctor t v) v"
| "ctor_from t Move v = raise_or (move_ctor t v) v"

fun asg_from :: "'a traits \<Rightarrow> ref \<Rightarrow> 'a \<Rightarrow> 'a result" where
  "asg_from t Copy v = raise_or (copy_asg t v) v"
| "asg_from t Move v = raise_or (move_asg t v) v"

definition take_val :: "'t traits \<Rightarrow> ref \<Rightarrow> side \<Rightarrow> ('t, 't, 'e) xprog" where
  "take_val tt r b = bnd (get b) (\<lambda>v. bnd (if r = Move then set_member b (M_val (moved_from tt v)) else ret ()) (\<lambda>_. ret v))"

definition take_err :: "'e traits \<Rightarrow> ref \<Rightarrow> side \<Rightarrow> ('e, 't, 'e) xprog" where
  "take_err te r b = bnd (geterr b) (\<lambda>e. bnd (if r = Move then set_member b (M_unexpect (moved_from te e)) else ret ()) (\<lambda>_. ret e))"

section \<open>Constructors and destructor\<close>

definition set_obj :: "side \<Rightarrow> ('t, 'e) expected_storage \<Rightarrow> (unit, 't, 'e) xprog" where
  "set_obj a x m = Done () (m\<lparr>obj := (obj m)(a := x)\<rparr>)"

definition storage_no_init :: "side \<Rightarrow> (unit, 't, 'e) xprog" where
  "storage_no_init a = set_obj a \<lparr>m_member = M_no_init, m_has_val = False\<rparr>"

definition storage_in_place :: "side \<Rightarrow> 't result \<Rightarrow> (unit, 't, 'e) xprog" where
  "storage_in_place a r = bnd (outcome_of r) (\<lambda>v. set_obj a \<lparr>m_member = M_val v, m_has_val = True\<rparr>)"

definition storage_unexpect :: "side \<Rightarrow> 'e result \<Rightarrow> (unit, 't, 'e) xprog" where
  "storage_unexpect a r = bnd (outcome_of r) (\<lambda>e. set_obj a \<lparr>m_member = M_unexpect e, m_has_val = False\<rparr>)"

text \<open>The destructor of the four specialisations, by whether \<open>T\<close> and \<open>E\<close> are trivially destructible.\<close>

fun storage_dtor :: "bool \<Rightarrow> bool \<Rightarrow> side \<Rightarrow> (unit, 't, 'e) xprog" where
  "storage_dtor False False a = cond (has_val a) (destroy_val a) (destroy_err a)"
| "storage_dtor True True a = ret ()"
| "storage_dtor True False a = cond (has_val a) (ret ()) (destroy_err a)"
| "storage_dtor False True a = cond (has_val a) (destroy_val a) (ret ())"

text \<open>\<open>construct\<close> and \<open>construct_error\<close> are \<open>noexcept\<close>.\<close>

definition construct :: "side \<Rightarrow> 't result \<Rightarrow> (unit, 't, 'e) xprog" where
  "construct a r = noexc (block [new_val a r, set_has_val a True])"

definition construct_error :: "side \<Rightarrow> 'e result \<Rightarrow> (unit, 't, 'e) xprog" where
  "construct_error a r = noexc (block [new_err a r, set_has_val a False])"

definition expected_copy_base :: "'t traits \<Rightarrow> 'e traits \<Rightarrow> side \<Rightarrow> side \<Rightarrow> (unit, 't, 'e) xprog" where
  "expected_copy_base tt te a b =
     block [storage_no_init a,
       cond (has_val b)
         (bnd (take_val tt Copy b) (\<lambda>v. construct a (ctor_from tt Copy v)))
         (bnd (take_err te Copy b) (\<lambda>e. construct_error a (ctor_from te Copy e)))]"

definition expected_move_base :: "'t traits \<Rightarrow> 'e traits \<Rightarrow> side \<Rightarrow> side \<Rightarrow> (unit, 't, 'e) xprog" where
  "expected_move_base tt te a b =
     block [storage_no_init a,
       cond (has_val b)
         (bnd (take_val tt Move b) (\<lambda>v. construct a (ctor_from tt Move v)))
         (bnd (take_err te Move b) (\<lambda>e. construct_error a (ctor_from te Move e)))]"

text \<open>
  The constructors from an \<open>expected<U, G>\<close>.  They leave the base class to its default constructor, which makes a
  \<open>T\<close>, and construct over it.
\<close>

definition converting_ctor ::
  "'t result \<Rightarrow> ('u \<Rightarrow> 't result) \<Rightarrow> ('g \<Rightarrow> 'e result) \<Rightarrow> ('u, 'g) expected_storage \<Rightarrow> side \<Rightarrow> (unit, 't, 'e) xprog" where
  "converting_ctor t0 of_u of_g rhs a =
     block [storage_in_place a t0,
       if m_has_val rhs
       then (case m_member rhs of M_val u \<Rightarrow> construct a (of_u u) | _ \<Rightarrow> (\<lambda>_. Undefined))
       else (case m_member rhs of M_unexpect g \<Rightarrow> construct_error a (of_g g) | _ \<Rightarrow> (\<lambda>_. Undefined))]"

text \<open>The constructors from the arguments of a value, from a value and from an \<open>unexpected\<close>.\<close>

definition expected_in_place :: "side \<Rightarrow> 't result \<Rightarrow> (unit, 't, 'e) xprog" where
  "expected_in_place a ctor = storage_in_place a ctor"

definition expected_of_value :: "side \<Rightarrow> 't result \<Rightarrow> (unit, 't, 'e) xprog" where
  "expected_of_value a ctor = expected_in_place a ctor"

definition expected_of_unexpected :: "'e traits \<Rightarrow> ref \<Rightarrow> side \<Rightarrow> 'e \<Rightarrow> (unit, 't, 'e) xprog" where
  "expected_of_unexpected te r a e = storage_unexpect a (ctor_from te r e)"

section \<open>Assignment\<close>

definition assign_common :: "'t traits \<Rightarrow> 'e traits \<Rightarrow> ref \<Rightarrow> side \<Rightarrow> side \<Rightarrow> (unit, 't, 'e) xprog" where
  "assign_common tt te r a b =
     cond (has_val a)
       (cond (has_val b)
          (bnd (take_val tt r b) (\<lambda>v. asg_val a (asg_from tt r v)))
          (block [destroy_val a, bnd (take_err te r b) (\<lambda>e. construct_error a (ctor_from te r e))]))
       (cond (has_val b)
          (ret ())
          (bnd (take_err te r b) (\<lambda>e. asg_err a (asg_from te r e))))"

definition needs_val :: "side \<Rightarrow> side \<Rightarrow> ('t, 'e) mem \<Rightarrow> bool" where
  "needs_val a b m \<longleftrightarrow> \<not> has_val a m \<and> has_val b m"

text \<open>The overloads: a copy that cannot throw, a copy that can with a move that cannot, and both throwing.\<close>

definition assign_copy_nothrow :: "'t traits \<Rightarrow> 'e traits \<Rightarrow> side \<Rightarrow> side \<Rightarrow> (unit, 't, 'e) xprog" where
  "assign_copy_nothrow tt te a b =
     noexc (cond (needs_val a b)
       (block [destroy_err a, bnd (take_val tt Copy b) (\<lambda>v. construct a (ctor_from tt Copy v))])
       (assign_common tt te Copy a b))"

definition assign_copy_then_move :: "'t traits \<Rightarrow> 'e traits \<Rightarrow> side \<Rightarrow> side \<Rightarrow> (unit, 't, 'e) xprog" where
  "assign_copy_then_move tt te a b =
     noexc (cond (needs_val a b)
       (bnd (take_val tt Copy b) (\<lambda>v. bnd (outcome_of (ctor_from tt Copy v)) (\<lambda>tmp.
          block [destroy_err a, construct a (ctor_from tt Move tmp)])))
       (assign_common tt te Copy a b))"

definition assign_copy_restore :: "'t traits \<Rightarrow> 'e traits \<Rightarrow> side \<Rightarrow> side \<Rightarrow> (unit, 't, 'e) xprog" where
  "assign_copy_restore tt te a b =
     cond (needs_val a b)
       (bnd (take_err te Move a) (\<lambda>e. bnd (outcome_of (ctor_from te Move e)) (\<lambda>tmp.
          block [destroy_err a,
            try_rethrow (bnd (take_val tt Copy b) (\<lambda>v. construct a (ctor_from tt Copy v))) (asg_err a (asg_from te Move tmp))])))
       (assign_common tt te Copy a b)"

definition assign_copy :: "'t traits \<Rightarrow> 'e traits \<Rightarrow> side \<Rightarrow> side \<Rightarrow> (unit, 't, 'e) xprog" where
  "assign_copy tt te a b =
     (if is_nothrow_copy_constructible tt then assign_copy_nothrow tt te a b
      else if is_nothrow_move_constructible tt then assign_copy_then_move tt te a b
      else assign_copy_restore tt te a b)"

definition assign_move_nothrow :: "'t traits \<Rightarrow> 'e traits \<Rightarrow> side \<Rightarrow> side \<Rightarrow> (unit, 't, 'e) xprog" where
  "assign_move_nothrow tt te a b =
     noexc (cond (needs_val a b)
       (block [destroy_err a, bnd (take_val tt Move b) (\<lambda>v. construct a (ctor_from tt Move v))])
       (assign_common tt te Move a b))"

definition assign_move_restore :: "'t traits \<Rightarrow> 'e traits \<Rightarrow> side \<Rightarrow> side \<Rightarrow> (unit, 't, 'e) xprog" where
  "assign_move_restore tt te a b =
     cond (needs_val a b)
       (bnd (take_err te Move a) (\<lambda>e. bnd (outcome_of (ctor_from te Move e)) (\<lambda>tmp.
          block [destroy_err a,
            try_rethrow (bnd (take_val tt Move b) (\<lambda>v. construct a (ctor_from tt Move v))) (asg_err a (asg_from te Move tmp))])))
       (assign_common tt te Move a b)"

definition assign_move :: "'t traits \<Rightarrow> 'e traits \<Rightarrow> side \<Rightarrow> side \<Rightarrow> (unit, 't, 'e) xprog" where
  "assign_move tt te a b =
     (if is_nothrow_move_constructible tt then assign_move_nothrow tt te a b else assign_move_restore tt te a b)"

text \<open>
  Assignment of a \<open>U\<close>: \<open>ctor\<close> is the outcome of \<open>T(std::forward<U>(v))\<close> and \<open>asg\<close> that of the assignment; the
  overloads differ in \<open>std::is_nothrow_constructible<T, U&&>\<close>.
\<close>

definition assign_value_nothrow :: "side \<Rightarrow> 't result \<Rightarrow> 't result \<Rightarrow> (unit, 't, 'e) xprog" where
  "assign_value_nothrow a ctor asg =
     cond (has_val a) (asg_val a asg) (block [destroy_err a, new_val a ctor, set_has_val a True])"

definition restoring :: "'e traits \<Rightarrow> side \<Rightarrow> 't result \<Rightarrow> (unit, 't, 'e) xprog" where
  "restoring te a ctor =
     bnd (take_err te Move a) (\<lambda>e. bnd (outcome_of (ctor_from te Move e)) (\<lambda>tmp.
       block [destroy_err a,
         try_rethrow (block [new_val a ctor, set_has_val a True]) (asg_err a (asg_from te Move tmp))]))"

definition assign_value_restore :: "'e traits \<Rightarrow> side \<Rightarrow> 't result \<Rightarrow> 't result \<Rightarrow> (unit, 't, 'e) xprog" where
  "assign_value_restore te a ctor asg = cond (has_val a) (asg_val a asg) (restoring te a ctor)"

definition assign_unexpected_copy :: "'e traits \<Rightarrow> side \<Rightarrow> 'e \<Rightarrow> (unit, 't, 'e) xprog" where
  "assign_unexpected_copy te a e =
     cond (has_val a)
       (block [destroy_val a, new_err a (ctor_from te Copy e), set_has_val a False])
       (asg_err a (asg_from te Copy e))"

definition assign_unexpected_move :: "'e traits \<Rightarrow> side \<Rightarrow> 'e \<Rightarrow> (unit, 't, 'e) xprog" where
  "assign_unexpected_move te a e =
     noexc (cond (has_val a)
       (block [destroy_val a, new_err a (ctor_from te Move e), set_has_val a False])
       (asg_err a (asg_from te Move e)))"

section \<open>emplace\<close>

definition emplace_nothrow :: "side \<Rightarrow> 't result \<Rightarrow> (unit, 't, 'e) xprog" where
  "emplace_nothrow a ctor =
     block [cond (has_val a) (destroy_val a) (block [destroy_err a, set_has_val a True]), new_val a ctor]"

definition emplace_restore :: "'e traits \<Rightarrow> side \<Rightarrow> 't result \<Rightarrow> (unit, 't, 'e) xprog" where
  "emplace_restore te a ctor = cond (has_val a) (block [destroy_val a, new_val a ctor]) (restoring te a ctor)"

text \<open>The overloads with an initialiser list build a temporary and move it in.\<close>

definition emplace_list_nothrow :: "'t traits \<Rightarrow> side \<Rightarrow> 't result \<Rightarrow> (unit, 't, 'e) xprog" where
  "emplace_list_nothrow tt a ctor =
     cond (has_val a)
       (bnd (outcome_of ctor) (\<lambda>t. asg_val a (asg_from tt Move t)))
       (block [destroy_err a, new_val a ctor, set_has_val a True])"

definition emplace_list_restore :: "'t traits \<Rightarrow> 'e traits \<Rightarrow> side \<Rightarrow> 't result \<Rightarrow> (unit, 't, 'e) xprog" where
  "emplace_list_restore tt te a ctor =
     cond (has_val a) (bnd (outcome_of ctor) (\<lambda>t. asg_val a (asg_from tt Move t))) (restoring te a ctor)"

section \<open>swap\<close>

text \<open>\<open>std::swap\<close> of two values and of two errors.\<close>

definition swap_vals :: "'t traits \<Rightarrow> side \<Rightarrow> side \<Rightarrow> (unit, 't, 'e) xprog" where
  "swap_vals tt a b =
     bnd (take_val tt Move a) (\<lambda>v. bnd (outcome_of (ctor_from tt Move v)) (\<lambda>tmp.
       block [bnd (take_val tt Move b) (\<lambda>w. asg_val a (asg_from tt Move w)), asg_val b (asg_from tt Move tmp)]))"

definition swap_errs :: "'e traits \<Rightarrow> side \<Rightarrow> side \<Rightarrow> (unit, 't, 'e) xprog" where
  "swap_errs te a b =
     bnd (take_err te Move a) (\<lambda>e. bnd (outcome_of (ctor_from te Move e)) (\<lambda>tmp.
       block [bnd (take_err te Move b) (\<lambda>f. asg_err a (asg_from te Move f)), asg_err b (asg_from te Move tmp)]))"

definition swap_has_val :: "side \<Rightarrow> side \<Rightarrow> (unit, 't, 'e) xprog" where
  "swap_has_val a b m = block [set_has_val a (has_val b m), set_has_val b (has_val a m)] m"

text \<open>Only \<open>a\<close> has a value: the three forms, by which of \<open>T\<close> and \<open>E\<close> moves without throwing.\<close>

definition swap_one_nothrow :: "'t traits \<Rightarrow> 'e traits \<Rightarrow> side \<Rightarrow> side \<Rightarrow> (unit, 't, 'e) xprog" where
  "swap_one_nothrow tt te a b =
     noexc (bnd (take_val tt Move a) (\<lambda>v. bnd (outcome_of (ctor_from tt Move v)) (\<lambda>temp.
       block [destroy_val a,
         bnd (take_err te Move b) (\<lambda>e. new_err a (ctor_from te Move e)),
         destroy_err b,
         new_val b (ctor_from tt Move temp),
         swap_has_val a b])))"

definition swap_one_restore_val :: "'t traits \<Rightarrow> 'e traits \<Rightarrow> side \<Rightarrow> side \<Rightarrow> (unit, 't, 'e) xprog" where
  "swap_one_restore_val tt te a b =
     bnd (take_val tt Move a) (\<lambda>v. bnd (outcome_of (ctor_from tt Move v)) (\<lambda>temp.
       block [destroy_val a,
         try_rethrow
           (block [bnd (take_err te Move b) (\<lambda>e. new_err a (ctor_from te Move e)),
              destroy_err b,
              new_val b (ctor_from tt Move temp),
              swap_has_val a b])
           (asg_val a (asg_from tt Move temp))]))"

definition swap_one_restore_err :: "'t traits \<Rightarrow> 'e traits \<Rightarrow> side \<Rightarrow> side \<Rightarrow> (unit, 't, 'e) xprog" where
  "swap_one_restore_err tt te a b =
     bnd (take_err te Move b) (\<lambda>e. bnd (outcome_of (ctor_from te Move e)) (\<lambda>temp.
       block [destroy_err b,
         try_rethrow
           (block [bnd (take_val tt Move a) (\<lambda>v. new_val b (ctor_from tt Move v)),
              destroy_val a,
              new_err a (ctor_from te Move temp),
              swap_has_val a b])
           (asg_err b (asg_from te Move temp))]))"

definition swap_one :: "'t traits \<Rightarrow> 'e traits \<Rightarrow> side \<Rightarrow> side \<Rightarrow> (unit, 't, 'e) xprog" where
  "swap_one tt te a b =
     (if is_nothrow_move_constructible tt
      then if is_nothrow_move_constructible te then swap_one_nothrow tt te a b else swap_one_restore_val tt te a b
      else swap_one_restore_err tt te a b)"

text \<open>Where only the argument has a value, \<open>swap\<close> calls itself with the objects exchanged.\<close>

definition expected_swap :: "'t traits \<Rightarrow> 'e traits \<Rightarrow> side \<Rightarrow> side \<Rightarrow> (unit, 't, 'e) xprog" where
  "expected_swap tt te a b =
     cond (has_val a)
       (cond (has_val b) (swap_vals tt a b) (swap_one tt te a b))
       (cond (has_val b) (swap_one tt te b a) (swap_errs te a b))"

section \<open>Observers\<close>

datatype 'e bad_expected_access = Bad_expected_access 'e

definition deref :: "side \<Rightarrow> ('t, 't, 'e) xprog" where
  "deref a = cond (has_val a) (get a) (\<lambda>_. Aborted)"

definition error :: "side \<Rightarrow> ('e, 't, 'e) xprog" where
  "error a = cond (has_val a) (\<lambda>_. Aborted) (geterr a)"

definition expected_value :: "'e traits \<Rightarrow> side \<Rightarrow> ('e bad_expected_access + 't, 't, 'e) xprog" where
  "expected_value te a =
     cond (has_val a) (bnd (get a) (\<lambda>v. ret (Inr v)))
       (bnd (geterr a) (\<lambda>e. bnd (outcome_of (ctor_from te Copy e)) (\<lambda>e'. ret (Inl (Bad_expected_access e')))))"

definition value_or :: "'t traits \<Rightarrow> ref \<Rightarrow> side \<Rightarrow> 't result \<Rightarrow> ('t, 't, 'e) xprog" where
  "value_or tt r a dflt =
     cond (has_val a) (bnd (take_val tt r a) (\<lambda>v. outcome_of (ctor_from tt r v))) (outcome_of dflt)"

text \<open>
  The operations that take a function.  They are called on an lvalue or an rvalue, constant or not; only from an rvalue that is not
  constant the members are moved.
\<close>

datatype qual = Lvalue | Rvalue | Const_lvalue | Const_rvalue

fun ref_of :: "qual \<Rightarrow> ref" where
  "ref_of Lvalue = Copy"
| "ref_of Rvalue = Move"
| "ref_of Const_lvalue = Copy"
| "ref_of Const_rvalue = Copy"

definition has_value_of :: "'u result \<Rightarrow> (('u, 'g) expected_storage, 't, 'e) xprog" where
  "has_value_of r = bnd (outcome_of r) (\<lambda>u. ret \<lparr>m_member = M_val u, m_has_val = True\<rparr>)"

definition unexpect_of :: "'g result \<Rightarrow> (('u, 'g) expected_storage, 't, 'e) xprog" where
  "unexpect_of r = bnd (outcome_of r) (\<lambda>g. ret \<lparr>m_member = M_unexpect g, m_has_val = False\<rparr>)"

definition void_value :: "((unit, 'g) expected_storage, 't, 'e) xprog" where
  "void_value = ret \<lparr>m_member = M_no_init, m_has_val = True\<rparr>"

definition keep_val :: "'t traits \<Rightarrow> ref \<Rightarrow> side \<Rightarrow> (('t, 'g) expected_storage, 't, 'e) xprog" where
  "keep_val tt r a = bnd (take_val tt r a) (\<lambda>v. has_value_of (ctor_from tt r v))"

definition keep_err :: "'e traits \<Rightarrow> ref \<Rightarrow> side \<Rightarrow> (('u, 'e) expected_storage, 't, 'e) xprog" where
  "keep_err te r a = bnd (take_err te r a) (\<lambda>e. unexpect_of (ctor_from te r e))"

definition and_then_impl ::
  "'e traits \<Rightarrow> ref \<Rightarrow> ('t \<Rightarrow> (('u, 'e) expected_storage, 't, 'e) xprog) \<Rightarrow> side \<Rightarrow> (('u, 'e) expected_storage, 't, 'e) xprog" where
  "and_then_impl te r f a = cond (has_val a) (bnd (deref a) f) (keep_err te r a)"

definition expected_map_impl ::
  "'u traits \<Rightarrow> 'e traits \<Rightarrow> ref \<Rightarrow> ('t \<Rightarrow> ('u, 't, 'e) xprog) \<Rightarrow> side \<Rightarrow> (('u, 'e) expected_storage, 't, 'e) xprog" where
  "expected_map_impl tu te r f a =
     cond (has_val a) (bnd (bnd (deref a) f) (\<lambda>u. has_value_of (ctor_from tu Move u))) (keep_err te r a)"

definition expected_map_impl_void ::
  "'e traits \<Rightarrow> ref \<Rightarrow> ('t \<Rightarrow> (unit, 't, 'e) xprog) \<Rightarrow> side \<Rightarrow> ((unit, 'e) expected_storage, 't, 'e) xprog" where
  "expected_map_impl_void te r f a =
     cond (has_val a) (bnd (bnd (deref a) f) (\<lambda>_. void_value)) (keep_err te r a)"

definition map_error_impl ::
  "'t traits \<Rightarrow> 'g traits \<Rightarrow> ref \<Rightarrow> ('e \<Rightarrow> ('g, 't, 'e) xprog) \<Rightarrow> side \<Rightarrow> (('t, 'g) expected_storage, 't, 'e) xprog" where
  "map_error_impl tt tg r f a =
     cond (has_val a) (keep_val tt r a) (bnd (bnd (error a) f) (\<lambda>g. unexpect_of (ctor_from tg Move g)))"

text \<open>A function without a result leaves a \<open>monostate\<close>.\<close>

definition map_error_impl_void ::
  "'t traits \<Rightarrow> ref \<Rightarrow> ('e \<Rightarrow> (unit, 't, 'e) xprog) \<Rightarrow> side \<Rightarrow> (('t, unit) expected_storage, 't, 'e) xprog" where
  "map_error_impl_void tt r f a =
     cond (has_val a) (keep_val tt r a) (bnd (bnd (error a) f) (\<lambda>_. unexpect_of (Inr ())))"

text \<open>\<open>or_else\<close> hands on the object itself, through its copy or move constructor.\<close>

definition or_else_impl ::
  "'t traits \<Rightarrow> ref \<Rightarrow> ('e \<Rightarrow> (('t, 'e) expected_storage, 't, 'e) xprog) \<Rightarrow> side \<Rightarrow> (('t, 'e) expected_storage, 't, 'e) xprog" where
  "or_else_impl tt r f a = cond (has_val a) (noexc (keep_val tt r a)) (bnd (error a) f)"

definition or_else_impl_void ::
  "'t traits \<Rightarrow> 'e traits \<Rightarrow> ref \<Rightarrow> ('e \<Rightarrow> (unit, 't, 'e) xprog) \<Rightarrow> side \<Rightarrow> (('t, 'e) expected_storage, 't, 'e) xprog" where
  "or_else_impl_void tt te r f a =
     cond (has_val a) (noexc (keep_val tt r a)) (bnd (bnd (error a) f) (\<lambda>_. noexc (keep_err te r a)))"

definition expected_and_then ::
  "'e traits \<Rightarrow> qual \<Rightarrow> ('t \<Rightarrow> (('u, 'e) expected_storage, 't, 'e) xprog) \<Rightarrow> side \<Rightarrow> (('u, 'e) expected_storage, 't, 'e) xprog" where
  "expected_and_then te q = and_then_impl te (ref_of q)"

definition expected_map ::
  "'u traits \<Rightarrow> 'e traits \<Rightarrow> qual \<Rightarrow> ('t \<Rightarrow> ('u, 't, 'e) xprog) \<Rightarrow> side \<Rightarrow> (('u, 'e) expected_storage, 't, 'e) xprog" where
  "expected_map tu te q = expected_map_impl tu te (ref_of q)"

definition expected_transform ::
  "'u traits \<Rightarrow> 'e traits \<Rightarrow> qual \<Rightarrow> ('t \<Rightarrow> ('u, 't, 'e) xprog) \<Rightarrow> side \<Rightarrow> (('u, 'e) expected_storage, 't, 'e) xprog" where
  "expected_transform tu te q = expected_map_impl tu te (ref_of q)"

definition expected_map_error ::
  "'t traits \<Rightarrow> 'g traits \<Rightarrow> qual \<Rightarrow> ('e \<Rightarrow> ('g, 't, 'e) xprog) \<Rightarrow> side \<Rightarrow> (('t, 'g) expected_storage, 't, 'e) xprog" where
  "expected_map_error tt tg q = map_error_impl tt tg (ref_of q)"

definition expected_transform_error ::
  "'t traits \<Rightarrow> 'g traits \<Rightarrow> qual \<Rightarrow> ('e \<Rightarrow> ('g, 't, 'e) xprog) \<Rightarrow> side \<Rightarrow> (('t, 'g) expected_storage, 't, 'e) xprog" where
  "expected_transform_error tt tg q = map_error_impl tt tg (ref_of q)"

definition expected_or_else ::
  "'t traits \<Rightarrow> qual \<Rightarrow> ('e \<Rightarrow> (('t, 'e) expected_storage, 't, 'e) xprog) \<Rightarrow> side \<Rightarrow> (('t, 'e) expected_storage, 't, 'e) xprog" where
  "expected_or_else tt q = or_else_impl tt (ref_of q)"

section \<open>Comparison\<close>

definition expected_eq :: "side \<Rightarrow> side \<Rightarrow> (bool, 't, 'e) xprog" where
  "expected_eq a b =
     cond (\<lambda>m. has_val a m \<noteq> has_val b m) (ret False)
       (cond (has_val a) (bnd (deref a) (\<lambda>v. bnd (deref b) (\<lambda>w. ret (v = w))))
          (bnd (error a) (\<lambda>e. bnd (error b) (\<lambda>f. ret (e = f)))))"

definition expected_ne :: "side \<Rightarrow> side \<Rightarrow> (bool, 't, 'e) xprog" where
  "expected_ne a b =
     cond (\<lambda>m. has_val a m \<noteq> has_val b m) (ret True)
       (cond (has_val a) (bnd (deref a) (\<lambda>v. bnd (deref b) (\<lambda>w. ret (v \<noteq> w))))
          (bnd (error a) (\<lambda>e. bnd (error b) (\<lambda>f. ret (e \<noteq> f)))))"

definition expected_eq_value :: "side \<Rightarrow> 't \<Rightarrow> (bool, 't, 'e) xprog" where
  "expected_eq_value a v = cond (has_val a) (bnd (deref a) (\<lambda>w. ret (w = v))) (ret False)"

definition expected_eq_unexpected :: "side \<Rightarrow> 'e \<Rightarrow> (bool, 't, 'e) xprog" where
  "expected_eq_unexpected a e = cond (has_val a) (ret False) (bnd (error a) (\<lambda>f. ret (f = e)))"

definition expected_ne_value :: "side \<Rightarrow> 't \<Rightarrow> (bool, 't, 'e) xprog" where
  "expected_ne_value a v = cond (has_val a) (bnd (deref a) (\<lambda>w. ret (w \<noteq> v))) (ret True)"

definition expected_ne_unexpected :: "side \<Rightarrow> 'e \<Rightarrow> (bool, 't, 'e) xprog" where
  "expected_ne_unexpected a e = cond (has_val a) (ret True) (bnd (error a) (\<lambda>f. ret (f \<noteq> e)))"

section \<open>expected<void, E>\<close>

text \<open>There is no value: the storage is empty where \<open>m_has_val\<close> is set.\<close>

definition void_assign :: "'e traits \<Rightarrow> ref \<Rightarrow> side \<Rightarrow> side \<Rightarrow> (unit, unit, 'e) xprog" where
  "void_assign te r a b =
     noexc (cond (has_val a)
       (cond (has_val b) (ret ()) (bnd (take_err te r b) (\<lambda>e. construct_error a (ctor_from te r e))))
       (cond (has_val b)
          (block [destroy_err a, set_has_val a True])
          (bnd (take_err te r b) (\<lambda>e. asg_err a (asg_from te r e)))))"

definition void_swap_one :: "'e traits \<Rightarrow> side \<Rightarrow> side \<Rightarrow> (unit, unit, 'e) xprog" where
  "void_swap_one te a b =
     block [bnd (take_err te Move b) (\<lambda>e. new_err a (ctor_from te Move e)), destroy_err b, swap_has_val a b]"

definition void_swap :: "'e traits \<Rightarrow> side \<Rightarrow> side \<Rightarrow> (unit, unit, 'e) xprog" where
  "void_swap te a b =
     cond (has_val a)
       (cond (has_val b) (ret ()) (void_swap_one te a b))
       (cond (has_val b) (void_swap_one te b a) (swap_errs te a b))"

definition void_eq :: "side \<Rightarrow> side \<Rightarrow> (bool, unit, 'e) xprog" where
  "void_eq a b =
     cond (\<lambda>m. has_val a m \<noteq> has_val b m) (ret False)
       (cond (has_val a) (ret True) (bnd (error a) (\<lambda>e. bnd (error b) (\<lambda>f. ret (e = f)))))"

definition void_ne :: "side \<Rightarrow> side \<Rightarrow> (bool, unit, 'e) xprog" where
  "void_ne a b =
     cond (\<lambda>m. has_val a m \<noteq> has_val b m) (ret True)
       (cond (has_val a) (ret False) (bnd (error a) (\<lambda>e. bnd (error b) (\<lambda>f. ret (e = f)))))"

text \<open>The operations with a function where there is no value to pass.\<close>

definition void_and_then_impl ::
  "'e traits \<Rightarrow> ref \<Rightarrow> (('u, 'e) expected_storage, unit, 'e) xprog \<Rightarrow> side \<Rightarrow> (('u, 'e) expected_storage, unit, 'e) xprog" where
  "void_and_then_impl te r f a = cond (has_val a) f (keep_err te r a)"

definition void_map_impl ::
  "'u traits \<Rightarrow> 'e traits \<Rightarrow> ref \<Rightarrow> ('u, unit, 'e) xprog \<Rightarrow> side \<Rightarrow> (('u, 'e) expected_storage, unit, 'e) xprog" where
  "void_map_impl tu te r f a = cond (has_val a) (bnd f (\<lambda>u. has_value_of (ctor_from tu Move u))) (keep_err te r a)"

definition void_map_impl_void ::
  "'e traits \<Rightarrow> ref \<Rightarrow> (unit, unit, 'e) xprog \<Rightarrow> side \<Rightarrow> ((unit, 'e) expected_storage, unit, 'e) xprog" where
  "void_map_impl_void te r f a = cond (has_val a) (bnd f (\<lambda>_. void_value)) (keep_err te r a)"

definition void_map_error_impl ::
  "'g traits \<Rightarrow> ('e \<Rightarrow> ('g, unit, 'e) xprog) \<Rightarrow> side \<Rightarrow> ((unit, 'g) expected_storage, unit, 'e) xprog" where
  "void_map_error_impl tg f a =
     cond (has_val a) void_value (bnd (bnd (error a) f) (\<lambda>g. unexpect_of (ctor_from tg Move g)))"

definition void_map_error_impl_void ::
  "('e \<Rightarrow> (unit, unit, 'e) xprog) \<Rightarrow> side \<Rightarrow> ((unit, unit) expected_storage, unit, 'e) xprog" where
  "void_map_error_impl_void f a =
     cond (has_val a) void_value (bnd (bnd (error a) f) (\<lambda>_. unexpect_of (Inr ())))"

section \<open>The contract\<close>

text \<open>
  An \<open>expected\<close> is a value or an error.  \<open>store_of\<close> is how its storage holds it: the member that is alive is the one
  that \<open>m_has_val\<close> announces.
\<close>

fun store_of :: "'e + 't \<Rightarrow> ('t, 'e) expected_storage" where
  "store_of (Inr v) = \<lparr>m_member = M_val v, m_has_val = True\<rparr>"
| "store_of (Inl e) = \<lparr>m_member = M_unexpect e, m_has_val = False\<rparr>"

fun well_typed :: "('t, 'e) expected_storage \<Rightarrow> bool" where
  "well_typed \<lparr>m_member = M_val v, m_has_val = b\<rparr> = b"
| "well_typed \<lparr>m_member = M_unexpect e, m_has_val = b\<rparr> = (\<not> b)"
| "well_typed \<lparr>m_member = M_no_init, m_has_val = b\<rparr> = False"

definition mem_of :: "(side \<Rightarrow> 'e + 't) \<Rightarrow> nat \<Rightarrow> ('t, 'e) mem" where
  "mem_of A n = \<lparr>obj = \<lambda>a. store_of (A a), leaks = n\<rparr>"

text \<open>The operations on objects, with the values that their arguments construct, and what they do to the two sums.\<close>

datatype ('t, 'e) ex_op =
    Value_construct side 't
  | Unexpected_construct ref side 'e
  | Copy_construct side side
  | Move_construct side side
  | Copy_assign side side
  | Move_assign side side
  | Value_assign bool side 't 't
  | Unexpected_assign ref side 'e
  | Emplace bool side 't
  | Emplace_list bool side 't
  | Swap side side

text \<open>A constructor call replaces an object whose destructor has run.\<close>

fun ex_run :: "'t traits \<Rightarrow> 'e traits \<Rightarrow> ('t, 'e) ex_op \<Rightarrow> (unit, 't, 'e) xprog" where
  "ex_run tt te (Value_construct a v) = block [storage_dtor False False a, expected_of_value a (Inr v)]"
| "ex_run tt te (Unexpected_construct r a e) = block [storage_dtor False False a, expected_of_unexpected te r a e]"
| "ex_run tt te (Copy_construct a b) = block [storage_dtor False False a, expected_copy_base tt te a b]"
| "ex_run tt te (Move_construct a b) = block [storage_dtor False False a, expected_move_base tt te a b]"
| "ex_run tt te (Copy_assign a b) = assign_copy tt te a b"
| "ex_run tt te (Move_assign a b) = assign_move tt te a b"
| "ex_run tt te (Value_assign nothrow a v w) =
     (if nothrow then assign_value_nothrow a (Inr v) (Inr w) else assign_value_restore te a (Inr v) (Inr w))"
| "ex_run tt te (Unexpected_assign Copy a e) = assign_unexpected_copy te a e"
| "ex_run tt te (Unexpected_assign Move a e) = assign_unexpected_move te a e"
| "ex_run tt te (Emplace nothrow a v) = (if nothrow then emplace_nothrow a (Inr v) else emplace_restore te a (Inr v))"
| "ex_run tt te (Emplace_list nothrow a v) =
     (if nothrow then emplace_list_nothrow tt a (Inr v) else emplace_list_restore tt te a (Inr v))"
| "ex_run tt te (Swap a b) = expected_swap tt te a b"

fun moved_sum :: "'t traits \<Rightarrow> 'e traits \<Rightarrow> 'e + 't \<Rightarrow> 'e + 't" where
  "moved_sum tt te (Inr v) = Inr (moved_from tt v)"
| "moved_sum tt te (Inl e) = Inl (moved_from te e)"

fun ex_spec :: "'t traits \<Rightarrow> 'e traits \<Rightarrow> ('t, 'e) ex_op \<Rightarrow> (side \<Rightarrow> 'e + 't) \<Rightarrow> side \<Rightarrow> 'e + 't" where
  "ex_spec tt te (Value_construct a v) A = A(a := Inr v)"
| "ex_spec tt te (Unexpected_construct r a e) A = A(a := Inl e)"
| "ex_spec tt te (Copy_construct a b) A = A(a := A b)"
| "ex_spec tt te (Move_construct a b) A = A(a := A b, b := moved_sum tt te (A b))"
| "ex_spec tt te (Copy_assign a b) A = A(a := A b)"
| "ex_spec tt te (Move_assign a b) A = A(a := A b, b := moved_sum tt te (A b))"
| "ex_spec tt te (Value_assign nothrow a v w) A = A(a := Inr (case A a of Inl _ \<Rightarrow> v | Inr _ \<Rightarrow> w))"
| "ex_spec tt te (Unexpected_assign r a e) A = A(a := Inl e)"
| "ex_spec tt te (Emplace nothrow a v) A = A(a := Inr v)"
| "ex_spec tt te (Emplace_list nothrow a v) A = A(a := Inr v)"
| "ex_spec tt te (Swap a b) A = A(a := A b, b := A a)"

text \<open>An object is not constructed from itself and not moved to itself.\<close>

fun ex_op_ok :: "('t, 'e) ex_op \<Rightarrow> bool" where
  "ex_op_ok (Copy_construct a b) = (a \<noteq> b)"
| "ex_op_ok (Move_construct a b) = (a \<noteq> b)"
| "ex_op_ok (Move_assign a b) = (a \<noteq> b)"
| "ex_op_ok _ = True"

primrec ex_runs :: "'t traits \<Rightarrow> 'e traits \<Rightarrow> ('t, 'e) ex_op list \<Rightarrow> (unit, 't, 'e) xprog" where
  "ex_runs tt te [] = ret ()"
| "ex_runs tt te (x # xs) = bnd (ex_run tt te x) (\<lambda>_. ex_runs tt te xs)"

definition ex_end :: "(unit, 't, 'e) xprog" where
  "ex_end = block [storage_dtor False False Rhs, storage_dtor False False This]"

text \<open>Two types for examples: values that copy and move quietly, and values whose copies and moves throw.\<close>

definition quiet :: "nat traits" where
  "quiet = \<lparr>copy_ctor = \<lambda>_. None, move_ctor = \<lambda>_. None, copy_asg = \<lambda>_. None, move_asg = \<lambda>_. None, moved_from = \<lambda>_. 0,
     is_nothrow_copy_constructible = True, is_nothrow_move_constructible = True\<rparr>"

definition noisy :: "nat traits" where
  "noisy = \<lparr>copy_ctor = \<lambda>_. Some (User_exn 7), move_ctor = \<lambda>_. Some (User_exn 7), copy_asg = \<lambda>_. None, move_asg = \<lambda>_. None,
     moved_from = \<lambda>_. 0, is_nothrow_copy_constructible = False, is_nothrow_move_constructible = False\<rparr>"

text \<open>A call that returns a value with a property.\<close>

definition holds :: "('a, 's) outcome \<Rightarrow> ('a \<Rightarrow> bool) \<Rightarrow> bool" where
  "holds r P \<longleftrightarrow> (case r of Done a _ \<Rightarrow> P a | _ \<Rightarrow> False)"

text \<open>How an \<open>expected<void, E>\<close> is stored.\<close>

fun void_store_of :: "'e option \<Rightarrow> (unit, 'e) expected_storage" where
  "void_store_of None = \<lparr>m_member = M_no_init, m_has_val = True\<rparr>"
| "void_store_of (Some e) = \<lparr>m_member = M_unexpect e, m_has_val = False\<rparr>"

definition void_mem_of :: "(side \<Rightarrow> 'e option) \<Rightarrow> nat \<Rightarrow> (unit, 'e) mem" where
  "void_mem_of A n = \<lparr>obj = \<lambda>a. void_store_of (A a), leaks = n\<rparr>"

definition sample_sums :: "side \<Rightarrow> nat + nat" where
  "sample_sums a = (case a of This \<Rightarrow> Inl 1 | Rhs \<Rightarrow> Inr 5)"

definition sample_ops :: "(nat, nat) ex_op list" where
  "sample_ops = [Copy_assign This Rhs, Unexpected_assign Move Rhs 4, Swap This Rhs, Emplace False This 9, Move_assign Rhs This]"

section \<open>Evaluation of the building blocks\<close>

lemmas prog_defs = ret_def bnd_def cond_def noexc_def try_rethrow_def outcome_of_def

lemmas storage_defs =
  set_member_def set_has_val_def has_val_def get_def geterr_def destroy_val_def destroy_err_def place_def new_val_def
  new_err_def asg_val_def asg_err_def raise_or_def take_val_def take_err_def set_obj_def storage_no_init_def
  storage_in_place_def storage_unexpect_def construct_def construct_error_def needs_val_def

lemmas assign_defs =
  assign_common_def assign_copy_nothrow_def assign_copy_then_move_def assign_copy_restore_def assign_copy_def
  assign_move_nothrow_def assign_move_restore_def assign_move_def assign_value_nothrow_def restoring_def
  assign_value_restore_def assign_unexpected_copy_def assign_unexpected_move_def emplace_nothrow_def emplace_restore_def
  emplace_list_nothrow_def emplace_list_restore_def

lemmas swap_defs =
  swap_vals_def swap_errs_def swap_has_val_def swap_one_nothrow_def swap_one_restore_val_def swap_one_restore_err_def
  swap_one_def expected_swap_def

lemmas observer_defs =
  deref_def error_def expected_value_def value_or_def has_value_of_def unexpect_of_def void_value_def keep_val_def keep_err_def
  and_then_impl_def expected_map_impl_def expected_map_impl_void_def map_error_impl_def map_error_impl_void_def or_else_impl_def
  or_else_impl_void_def expected_and_then_def expected_map_def expected_transform_def expected_map_error_def
  expected_transform_error_def expected_or_else_def expected_ne_value_def expected_ne_unexpected_def
  expected_eq_def expected_ne_def expected_eq_value_def expected_eq_unexpected_def

lemma well_typed_store_of: "well_typed (store_of x)"
  by (cases x) simp_all

lemma well_typed_iff: "well_typed s \<longleftrightarrow> (\<exists>x. s = store_of x)"
proof
  assume "well_typed s"
  then show "\<exists>x. s = store_of x"
    by (cases s rule: well_typed.cases) (auto intro: exI [of _ "Inl _"] exI [of _ "Inr _"])
qed (auto simp: well_typed_store_of)

lemma never_throwsD:
  assumes "never_throws t"
  shows "copy_ctor t v = None" and "move_ctor t v = None" and "copy_asg t v = None" and "move_asg t v = None"
  using assms unfolding never_throws_def by blast+

lemmas void_defs =
  void_assign_def void_swap_def void_swap_one_def void_eq_def void_ne_def void_and_then_impl_def void_map_impl_def
  void_map_impl_void_def void_map_error_impl_def void_map_error_impl_void_def

lemmas expected_eval = prog_defs storage_defs assign_defs swap_defs expected_copy_base_def expected_move_base_def
  expected_in_place_def expected_of_value_def expected_of_unexpected_def

lemma ex_run_refines:
  assumes t: "never_throws tt" and e: "never_throws te" and ok: "ex_op_ok p"
  shows "ex_run tt te p (mem_of A n) = Done () (mem_of (ex_spec tt te p A) n)"
proof -
  note [simp] = never_throwsD [OF t] never_throwsD [OF e] expected_eval mem_of_def fun_eq_iff
  show ?thesis
  proof (cases p)
    case (Value_construct a v)
    then show ?thesis
      by (cases "A a") simp_all
  next
    case (Unexpected_construct r a x)
    then show ?thesis
      by (cases r; cases "A a") simp_all
  next
    case (Copy_construct a b)
    then show ?thesis
      using ok by (cases "A a"; cases "A b") simp_all
  next
    case (Move_construct a b)
    then show ?thesis
      using ok by (cases "A a"; cases "A b") simp_all
  next
    case (Copy_assign a b)
    then show ?thesis
      by (cases "A a"; cases "A b"; cases "a = b") simp_all
  next
    case (Move_assign a b)
    then show ?thesis
      using ok by (cases "A a"; cases "A b") simp_all
  next
    case (Value_assign nothrow a v w)
    then show ?thesis
      by (cases "A a") simp_all
  next
    case (Unexpected_assign r a x)
    then show ?thesis
      by (cases r; cases "A a") simp_all
  next
    case (Emplace nothrow a v)
    then show ?thesis
      by (cases "A a") simp_all
  next
    case (Emplace_list nothrow a v)
    then show ?thesis
      by (cases "A a") simp_all
  next
    case (Swap a b)
    then show ?thesis
      by (cases "A a"; cases "A b"; cases "a = b") simp_all
  qed
qed

lemma ex_runs_refine:
  assumes t: "never_throws tt" and e: "never_throws te"
  shows "list_all ex_op_ok ps \<Longrightarrow> ex_runs tt te ps (mem_of A n) = Done () (mem_of (fold (ex_spec tt te) ps A) n)"
proof (induction ps arbitrary: A)
  case Nil
  then show ?case
    by (simp add: ret_def)
next
  case (Cons p ps)
  then show ?case
    by (simp add: bnd_def ex_run_refines [OF t e])
qed

lemma all_side: "(\<forall>a. P a) \<longleftrightarrow> P This \<and> P Rhs"
  by (metis side.exhaust)

lemma obj_mem_of: "obj (mem_of A n) = (\<lambda>a. store_of (A a))" "leaks (mem_of A n) = n"
  by (simp_all add: mem_of_def)

lemma ex_end_ends: "\<exists>m'. ex_end (mem_of A n) = Done () m' \<and> (\<forall>a. m_member (obj m' a) = M_no_init) \<and> leaks m' = n"
  unfolding ex_end_def by (cases "A This"; cases "A Rhs") (simp_all add: expected_eval mem_of_def all_side)

lemma mem_of_cover:
  fixes m :: "('t, 'e) mem"
  assumes "\<And>a. obj m a = store_of (A a)"
  shows "m = mem_of A (leaks m)"
  using assms by (cases m) (simp add: mem_of_def fun_eq_iff)

lemma store_of_inject: "store_of x = store_of y \<Longrightarrow> x = y"
  by (cases x; cases y) simp_all

text \<open>C30: an \<open>expected\<close> is type safe.  Take two objects whose live member is the one that \<open>m_has_val\<close> announces, of types
  whose copies and moves do not throw, and any sequence of constructor calls, copy and move assignments, assignments of values and
  errors, \<open>emplace\<close> calls and swaps, whatever overloads the traits select.  No step touches a member that is not alive and none
  throws or aborts; the live members agree with \<open>m_has_val\<close> again, no object is overwritten without its destructor call, and the
  destructors end everything that is alive.  The objects hold what the same operations on a sum type give: an assignment the
  right-hand side, a move leaving the moved-from value behind, a swap the exchanged contents.\<close>

theorem expected_well_typed:
  assumes t: "never_throws tt" and e: "never_throws te" and ok: "list_all ex_op_ok ps"
    and wt: "\<forall>a. well_typed (obj m a)"
  shows "\<exists>m' m''. ex_runs tt te ps m = Done () m' \<and> (\<forall>a. well_typed (obj m' a)) \<and> leaks m' = leaks m
           \<and> ex_end m' = Done () m'' \<and> (\<forall>a. m_member (obj m'' a) = M_no_init) \<and> leaks m'' = leaks m
           \<and> (\<forall>A. (\<forall>a. obj m a = store_of (A a)) \<longrightarrow> (\<forall>a. obj m' a = store_of (fold (ex_spec tt te) ps A a)))"
proof -
  obtain A where A: "\<And>a. obj m a = store_of (A a)"
    using wt unfolding well_typed_iff by metis
  let ?B = "fold (ex_spec tt te) ps A"
  have run: "ex_runs tt te ps m = Done () (mem_of ?B (leaks m))"
    using ex_runs_refine [OF t e ok, of A "leaks m"] mem_of_cover [OF A] by simp
  obtain m'' where fin: "ex_end (mem_of ?B (leaks m)) = Done () m''" "\<forall>a. m_member (obj m'' a) = M_no_init" "leaks m'' = leaks m"
    using ex_end_ends [of ?B "leaks m"] by blast
  have "C = A" if "\<forall>a. obj m a = store_of (C a)" for C
    using that A by (auto simp: fun_eq_iff intro: store_of_inject)
  then show ?thesis
    using run fin by (fastforce simp: obj_mem_of well_typed_store_of)
qed

text \<open>What becomes of an exception from the value type.  An error is assigned a value whose copy constructor throws: every
  overload ends the program, also the one that moves the old error back and rethrows, because \<open>construct\<close> is \<open>noexcept\<close>.  The
  assignment of a value and \<open>emplace\<close> on an error restore it by assigning to an object that they have destroyed, as do the two forms
  of \<open>swap\<close> with a throwing move.  \<open>emplace\<close> on a value throws and leaves \<open>m_has_val\<close> set with nothing alive, so that the destructor
  destroys a value that is not there.  Only the overloads of \<open>emplace\<close> with an initialiser list keep a value when its successor throws.\<close>

theorem expected_exceptions:
  assumes ab: "a \<noteq> b" and A: "A a = Inl e" "A b = Inr v"
    and T: "copy_ctor tt v = Some x" and E: "move_ctor te e = None"
  shows "assign_copy tt te a b (mem_of A n) = Aborted
       \<and> assign_value_restore te a (Inl x) r (mem_of A n) = Undefined
       \<and> emplace_restore te a (Inl x) (mem_of A n) = Undefined
       \<and> (move_ctor tt v = Some y \<longrightarrow> swap_one_restore_err tt te b a (mem_of A n) = Undefined)
       \<and> (move_ctor tt v = None \<and> move_ctor te' e = Some y \<longrightarrow> swap_one_restore_val tt te' b a (mem_of A n) = Undefined)
       \<and> (\<exists>m. emplace_restore te b (Inl x) (mem_of A n) = Thrown x m \<and> m_has_val (obj m b) \<and> m_member (obj m b) = M_no_init
              \<and> storage_dtor False False b m = Undefined)
       \<and> emplace_list_restore tt te b (Inl x) (mem_of A n) = Thrown x (mem_of A n)"
  using assms by (intro conjI) (simp_all add: expected_eval mem_of_def)

section \<open>Observers, conversions and the void specialisation\<close>

lemma expected_observers:
  assumes t: "never_throws tt" and e: "never_throws te"
  shows "holds (expected_value te a (mem_of A n)) (\<lambda>r. r = map_sum Bad_expected_access id (A a))"
    and "holds (value_or tt r a (Inr d) (mem_of A n)) (\<lambda>w. w = (case A a of Inr v \<Rightarrow> v | Inl _ \<Rightarrow> d))"
    and "holds (expected_eq a b (mem_of A n)) (\<lambda>c. c = (A a = A b))"
    and "holds (expected_ne a b (mem_of A n)) (\<lambda>c. c = (A a \<noteq> A b))"
    and "holds (expected_eq_value a v (mem_of A n)) (\<lambda>c. c = (A a = Inr v))"
    and "holds (expected_eq_unexpected a x (mem_of A n)) (\<lambda>c. c = (A a = Inl x))"
  by (cases "A a"; cases "A b"; cases r; simp add: holds_def observer_defs expected_eval mem_of_def never_throwsD [OF t] never_throwsD [OF e])+

lemma expected_not_equal:
  "holds (expected_ne_value a v (mem_of A n)) (\<lambda>c. c = (A a \<noteq> Inr v))"
  "holds (expected_ne_unexpected a x (mem_of A n)) (\<lambda>c. c = (A a \<noteq> Inl x))"
  by (cases "A a"; simp add: holds_def observer_defs expected_eval mem_of_def)+

text \<open>\<open>and_then\<close> and \<open>or_else\<close> are the binds of the two sides of the sum, \<open>map\<close> and \<open>map_error\<close> its maps.\<close>

lemma expected_functors:
  assumes t: "never_throws tt" and e: "never_throws te" and u: "never_throws tu"
  shows "holds (expected_and_then te q (\<lambda>v. ret (store_of (f v))) a (mem_of A n)) (\<lambda>s. s = store_of (case A a of Inr v \<Rightarrow> f v | Inl x \<Rightarrow> Inl x))"
    and "holds (expected_or_else tt q (\<lambda>x. ret (store_of (g x))) a (mem_of A n)) (\<lambda>s. s = store_of (case A a of Inr v \<Rightarrow> Inr v | Inl x \<Rightarrow> g x))"
    and "holds (expected_map tu te q (\<lambda>v. ret (h v)) a (mem_of A n)) (\<lambda>s. s = store_of (map_sum id h (A a)))"
    and "holds (expected_map_error tt tu q (\<lambda>x. ret (k x)) a (mem_of A n)) (\<lambda>s. s = store_of (map_sum k id (A a)))"
    and "expected_transform tu te q f' = expected_map tu te q f'"
    and "expected_transform_error tt tu q k' = expected_map_error tt tu q k'"
  by (cases "A a"; cases q; simp add: holds_def observer_defs expected_eval mem_of_def never_throwsD [OF t] never_throwsD [OF e] never_throwsD [OF u])+

text \<open>C31: an \<open>expected\<close> observes and composes as the sum type it stands for.  For types whose copies and moves do not throw,
  \<open>value()\<close> returns the value, and throws \<open>bad_expected_access\<close> with the error exactly when there is none; \<open>value_or\<close> returns the
  value or the default; the comparisons compare the contents; \<open>and_then\<close> and \<open>or_else\<close> call their function on the value and on the
  error only and return its result; \<open>map\<close> and \<open>map_error\<close> change one side and keep the other.  None of them touches a member that
  is not alive.\<close>

theorem expected_composes_as_sum:
  assumes "never_throws tt" and "never_throws te" and "never_throws tu"
  shows "holds (expected_value te a (mem_of A n)) (\<lambda>r. r = map_sum Bad_expected_access id (A a))
       \<and> holds (value_or tt r a (Inr d) (mem_of A n)) (\<lambda>w. w = (case A a of Inr v \<Rightarrow> v | Inl _ \<Rightarrow> d))
       \<and> holds (expected_eq a b (mem_of A n)) (\<lambda>c. c = (A a = A b))
       \<and> holds (expected_ne a b (mem_of A n)) (\<lambda>c. c = (A a \<noteq> A b))
       \<and> holds (expected_and_then te q (\<lambda>v. ret (store_of (f v))) a (mem_of A n)) (\<lambda>s. s = store_of (case A a of Inr v \<Rightarrow> f v | Inl x \<Rightarrow> Inl x))
       \<and> holds (expected_or_else tt q (\<lambda>x. ret (store_of (g x))) a (mem_of A n)) (\<lambda>s. s = store_of (case A a of Inr v \<Rightarrow> Inr v | Inl x \<Rightarrow> g x))
       \<and> holds (expected_map tu te q (\<lambda>v. ret (h v)) a (mem_of A n)) (\<lambda>s. s = store_of (map_sum id h (A a)))
       \<and> holds (expected_map_error tt tu q (\<lambda>x. ret (k x)) a (mem_of A n)) (\<lambda>s. s = store_of (map_sum k id (A a)))"
  using expected_observers [OF assms(1,2)] expected_functors [OF assms] by simp

lemma expected_functors_void:
  assumes t: "never_throws tt" and e: "never_throws te"
  shows "holds (expected_map_impl_void te r (\<lambda>v. ret ()) a (mem_of A n)) (\<lambda>s. s = void_store_of (case A a of Inr _ \<Rightarrow> None | Inl x \<Rightarrow> Some x))"
    and "holds (map_error_impl_void tt r (\<lambda>x. ret ()) a (mem_of A n)) (\<lambda>s. s = store_of (map_sum (\<lambda>_. ()) id (A a)))"
    and "holds (or_else_impl_void tt te r (\<lambda>x. ret ()) a (mem_of A n)) (\<lambda>s. s = store_of (A a))"
  by (cases "A a"; cases r; simp add: holds_def observer_defs expected_eval mem_of_def never_throwsD [OF t] never_throwsD [OF e])+

text \<open>A constructor from another \<open>expected\<close> overwrites the value that its base class has made.\<close>

lemma converting_ctor_leaks:
  assumes "of_u u = Inr v"
  shows "\<exists>m'. converting_ctor (Inr t0) of_u of_g (store_of (Inr u)) a m = Done () m' \<and> obj m' a = store_of (Inr v) \<and> leaks m' = leaks m + 1"
  using assms by (simp add: converting_ctor_def expected_eval)

text \<open>Assignment, swap and equality of \<open>expected<void, E>\<close>.\<close>

lemma void_operations:
  assumes e: "never_throws te"
  shows "void_assign te Copy a b (void_mem_of A n) = Done () (void_mem_of (A(a := A b)) n)"
    and "a \<noteq> b \<Longrightarrow> void_assign te Move a b (void_mem_of A n) = Done () (void_mem_of (A(a := A b, b := map_option (moved_from te) (A b))) n)"
    and "void_swap te a b (void_mem_of A n) = Done () (void_mem_of (A(a := A b, b := A a)) n)"
    and "holds (void_eq a b (void_mem_of A n)) (\<lambda>c. c = (A a = A b))"
  by (cases "A a"; cases "A b"; cases "a = b";
      simp add: void_defs observer_defs holds_def expected_eval void_mem_of_def fun_eq_iff never_throwsD [OF e])+

lemma void_functors:
  assumes e: "never_throws te" and u: "never_throws tu"
  shows "holds (void_and_then_impl te r (ret (store_of y)) a (void_mem_of A n)) (\<lambda>s. s = store_of (case A a of None \<Rightarrow> y | Some x \<Rightarrow> Inl x))"
    and "holds (void_map_impl tu te r (ret w) a (void_mem_of A n)) (\<lambda>s. s = store_of (case A a of None \<Rightarrow> Inr w | Some x \<Rightarrow> Inl x))"
    and "holds (void_map_impl_void te r (ret ()) a (void_mem_of A n)) (\<lambda>s. s = void_store_of (A a))"
    and "holds (void_map_error_impl tu (\<lambda>x. ret (k x)) a (void_mem_of A n)) (\<lambda>s. s = void_store_of (map_option k (A a)))"
    and "holds (void_map_error_impl_void (\<lambda>x. ret ()) a (void_mem_of A n)) (\<lambda>s. s = void_store_of (map_option (\<lambda>_. ()) (A a)))"
  by (cases "A a"; cases r; simp add: void_defs observer_defs holds_def expected_eval void_mem_of_def never_throwsD [OF e] never_throwsD [OF u])+

text \<open>\<open>operator!=\<close> of \<open>expected<void, E>\<close> compares two errors with \<open>==\<close>: it answers true exactly when they are equal.\<close>

lemma void_ne_inverted:
  assumes "A a = Some e" "A b = Some f"
  shows "holds (void_ne a b (void_mem_of A n)) (\<lambda>c. c = (e = f))"
  using assms by (simp add: void_defs holds_def observer_defs expected_eval void_mem_of_def)

section \<open>Examples\<close>

theorem expected_well_typed_witness:
  "never_throws quiet \<and> list_all ex_op_ok sample_ops \<and> (\<forall>a. well_typed (obj (mem_of sample_sums 0) a)) \<and>
   (\<exists>m'. ex_runs quiet quiet sample_ops (mem_of sample_sums 0) = Done () m' \<and>
      obj m' This = store_of (Inr 0) \<and> obj m' Rhs = store_of (Inr 9) \<and> leaks m' = 0)"
proof -
  have q: "never_throws quiet" and o: "list_all ex_op_ok sample_ops" and w: "\<forall>a. well_typed (obj (mem_of sample_sums 0) a)"
    by (simp_all add: never_throws_def quiet_def sample_ops_def obj_mem_of well_typed_store_of)
  have "fold (ex_spec quiet quiet) sample_ops sample_sums This = Inr 0" "fold (ex_spec quiet quiet) sample_ops sample_sums Rhs = Inr 9"
    by (simp_all add: sample_ops_def sample_sums_def quiet_def)
  then show ?thesis
    using expected_well_typed [OF q q o w] q o w by (fastforce simp: obj_mem_of)
qed

theorem expected_composes_as_sum_witness:
  "never_throws quiet \<and>
   holds (expected_value quiet This (mem_of sample_sums 0)) (\<lambda>r. r = Inl (Bad_expected_access 1)) \<and>
   holds (expected_map quiet quiet Lvalue (\<lambda>v. ret (v + 1)) Rhs (mem_of sample_sums 0)) (\<lambda>s. s = store_of (Inr 6))"
proof -
  have q: "never_throws quiet" by (simp add: never_throws_def quiet_def)
  note sum = expected_composes_as_sum [OF q q q, where A = sample_sums and n = 0 and q = Lvalue and r = Copy and d = 0 and f = Inr and g = Inl
    and h = "\<lambda>v. v + 1" and k = id and b = This]
  show ?thesis using sum [of This] sum [of Rhs] q by (simp add: sample_sums_def)
qed

theorem expected_exceptions_witness:
  "assign_copy noisy quiet This Rhs (mem_of sample_sums 0) = Aborted
   \<and> swap_one_restore_err noisy quiet Rhs This (mem_of sample_sums 0) = Undefined"
  using expected_exceptions [of This Rhs sample_sums 1 5 noisy "User_exn 7" quiet 0 "Inr 0" "User_exn 7" quiet]
  by (simp add: sample_sums_def noisy_def quiet_def)

end
