(* ===== verification/Generator.thy ===== *)
theory Generator
  imports Task
begin

text \<open>
  The generator of \<open>include/coro/generator.hpp\<close>: its promise, the iterator with \<open>begin\<close>, \<open>operator++\<close> and the comparison with the
  sentinel, and the class that owns the coroutine.  The lemmas compare a loop over a generator with the list of the values that
  its body yields.
\<close>

section \<open>The coroutine and its promise\<close>

text \<open>
  The body of a generator from its current point on: it yields and goes on, returns, or lets an exception escape.  It may yield for
  ever.
\<close>

codatatype 'a gen_body =
    Gen_yield 'a "'a gen_body"
  | Gen_return
  | Gen_throw exn

text \<open>
  The frame: where the coroutine is suspended (\<^term>\<open>None\<close> at its final suspend point), and the promise.  \<open>m_value\<close> is the
  value that the pointer of the source refers to.
\<close>

record 'a gen_frame =
  at :: "'a gen_body option"
  m_value :: "'a option"
  m_exception :: "exn option"

definition gen_start :: "'a gen_body \<Rightarrow> 'a gen_frame" where
  "gen_start b = \<lparr>at = Some b, m_value = None, m_exception = None\<rparr>"

definition yield_value :: "'a \<Rightarrow> 'a gen_body \<Rightarrow> 'a gen_frame \<Rightarrow> 'a gen_frame" where
  "yield_value v b f = f\<lparr>at := Some b, m_value := Some v\<rparr>"

definition unhandled_exception :: "exn \<Rightarrow> 'a gen_frame \<Rightarrow> 'a gen_frame" where
  "unhandled_exception x f = f\<lparr>at := None, m_exception := Some x\<rparr>"

definition return_void :: "'a gen_frame \<Rightarrow> 'a gen_frame" where
  "return_void f = f\<lparr>at := None\<rparr>"

text \<open>\<open>resume\<close> runs the body to its next suspend point; a coroutine at its final suspend point must not be resumed.\<close>

definition gen_resume :: "'a gen_frame \<Rightarrow> 'a gen_frame option" where
  "gen_resume f =
     (case at f of
        None \<Rightarrow> None
      | Some (Gen_yield v b) \<Rightarrow> Some (yield_value v b f)
      | Some Gen_return \<Rightarrow> Some (return_void f)
      | Some (Gen_throw x) \<Rightarrow> Some (unhandled_exception x f))"

definition gen_done :: "'a gen_frame \<Rightarrow> bool" where
  "gen_done f \<longleftrightarrow> at f = None"

definition rethrow_if_exception :: "'a gen_frame \<Rightarrow> unit result" where
  "rethrow_if_exception f = (case m_exception f of Some x \<Rightarrow> Inl x | None \<Rightarrow> Inr ())"

section \<open>Iteration\<close>

text \<open>
  \<open>operator++\<close> and \<open>begin\<close> resume the coroutine and rethrow what ended it.  \<open>begin\<close> of an empty generator gives an iterator without a
  coroutine, which is at the end.
\<close>

definition gen_advance :: "'a gen_frame \<Rightarrow> (unit result \<times> 'a gen_frame) option" where
  "gen_advance f =
     (case gen_resume f of
        None \<Rightarrow> None
      | Some f' \<Rightarrow> Some (if gen_done f' then rethrow_if_exception f' else Inr (), f'))"

definition gen_begin :: "'a gen_frame option \<Rightarrow> (unit result \<times> 'a gen_frame option) option" where
  "gen_begin g = (case g of None \<Rightarrow> Some (Inr (), None) | Some f \<Rightarrow> map_option (map_prod id Some) (gen_advance f))"

definition at_end :: "'a gen_frame option \<Rightarrow> bool" where
  "at_end it = (case it of None \<Rightarrow> True | Some f \<Rightarrow> gen_done f)"

text \<open>
  The loop \<open>for (auto& v : gen)\<close>, with the values it sees and how it ends.  It returns \<^term>\<open>None\<close> where it does not end, where it
  dereferences a null pointer or resumes a coroutine that is done.
\<close>

partial_function (option) gen_loop :: "'a list \<Rightarrow> 'a gen_frame option \<Rightarrow> ('a list \<times> unit result) option" where
  "gen_loop seen it =
     (if at_end it then Some (seen, Inr ())
      else case it of
        None \<Rightarrow> None
      | Some f \<Rightarrow>
          (case m_value f of
             None \<Rightarrow> None
           | Some v \<Rightarrow>
               (case gen_advance f of
                  None \<Rightarrow> None
                | Some (Inl x, f') \<Rightarrow> Some (seen @ [v], Inl x)
                | Some (Inr _, f') \<Rightarrow> gen_loop (seen @ [v]) (Some f'))))"

definition range_for :: "'a gen_frame option \<Rightarrow> ('a list \<times> unit result) option" where
  "range_for g =
     (case gen_begin g of
        None \<Rightarrow> None
      | Some (Inl x, g') \<Rightarrow> Some ([], Inl x)
      | Some (Inr _, g') \<Rightarrow> gen_loop [] g')"

text \<open>An iterator that has been advanced \<open>n\<close> times, and the body that then has not run yet.\<close>

primrec gen_advances :: "nat \<Rightarrow> 'a gen_frame \<Rightarrow> 'a gen_frame option" where
  "gen_advances 0 f = Some f"
| "gen_advances (Suc n) f = (case gen_advance f of Some (Inr _, f') \<Rightarrow> gen_advances n f' | _ \<Rightarrow> None)"

section \<open>The bodies and what they produce\<close>

primrec yields :: "'a list \<Rightarrow> 'a gen_body \<Rightarrow> 'a gen_body" where
  "yields [] b = b"
| "yields (v # vs) b = Gen_yield v (yields vs b)"

fun ending :: "unit result \<Rightarrow> 'a gen_body" where
  "ending (Inr _) = Gen_return"
| "ending (Inl x) = Gen_throw x"

section \<open>Ownership\<close>

text \<open>
  An object of class \<open>generator\<close> owns a coroutine or nothing, as a task object does: construction by \<open>get_return_object\<close>, move
  construction, move assignment and destruction.
\<close>

definition generator_create :: "nat \<Rightarrow> handle \<Rightarrow> owners \<Rightarrow> owners" where
  "generator_create x h s = s\<lparr>ow_task := (ow_task s)(x := Some h), ow_created := h # ow_created s\<rparr>"

definition generator_move :: "nat \<Rightarrow> nat \<Rightarrow> owners \<Rightarrow> owners" where
  "generator_move x other s = s\<lparr>ow_task := (ow_task s)(x := ow_task s other, other := None)\<rparr>"

definition generator_move_assign :: "nat \<Rightarrow> nat \<Rightarrow> owners \<Rightarrow> owners" where
  "generator_move_assign x other s =
     (if other = x then s
      else (ow_destroy_frame (ow_task s x) s)\<lparr>ow_task := (ow_task s)(x := ow_task s other, other := None)\<rparr>)"

definition generator_destructor :: "nat \<Rightarrow> owners \<Rightarrow> owners" where
  "generator_destructor x s = (ow_destroy_frame (ow_task s x) s)\<lparr>ow_task := (ow_task s)(x := None)\<rparr>"

inductive gn_step :: "owners \<Rightarrow> owners \<Rightarrow> bool" where
  gn_create: "ow_task s x = None \<Longrightarrow> h \<notin> set (ow_created s) \<Longrightarrow> gn_step s (generator_create x h s)"
| gn_move: "ow_task s x = None \<Longrightarrow> gn_step s (generator_move x other s)"
| gn_assign: "gn_step s (generator_move_assign x other s)"
| gn_delete: "gn_step s (generator_destructor x s)"

section \<open>Lemmas\<close>

lemmas gen_defs [model_defs] =
  gen_start_def yield_value_def unhandled_exception_def return_void_def gen_resume_def gen_done_def rethrow_if_exception_def
  gen_advance_def gen_begin_def at_end_def

lemma gen_advance_yield:
  assumes "at f = Some (Gen_yield v b)"
  shows "gen_advance f = Some (Inr (), f\<lparr>at := Some b, m_value := Some v\<rparr>)"
  using assms by (simp add: model_defs)

lemma gen_advance_ending:
  assumes "at f = Some (ending r)" and "m_exception f = None"
  shows "\<exists>f'. gen_advance f = Some (r, f') \<and> at f' = None"
  using assms by (cases r) (simp_all add: model_defs)

text \<open>The loop on a coroutine that is suspended at a yield shows that value, the values to come, and the end.\<close>

lemma gen_loop_yields:
  "at f = Some (yields vs (ending r)) \<Longrightarrow> m_value f = Some v \<Longrightarrow> m_exception f = None \<Longrightarrow>
     gen_loop seen (Some f) = Some (seen @ v # vs, r)"
proof (induction vs arbitrary: f v seen)
  case Nil
  then obtain f' where "gen_advance f = Some (r, f')" "at f' = None"
    using gen_advance_ending [of f r] by auto
  then show ?case
    using Nil by (cases r) (simp_all add: gen_loop.simps [of seen] gen_loop.simps [of "seen @ [v]"] at_end_def gen_done_def)
next
  case (Cons w vs)
  then show ?case
    using Cons.IH [of "f\<lparr>at := Some (yields vs (ending r)), m_value := Some w\<rparr>" w "seen @ [v]"]
    by (simp add: gen_loop.simps [of seen] at_end_def gen_done_def gen_advance_yield)
qed

lemma gen_advances_yields:
  "at f = Some (yields vs b) \<Longrightarrow> m_exception f = None \<Longrightarrow>
     gen_advances (length vs) f = Some (f\<lparr>at := Some b, m_value := if vs = [] then m_value f else Some (last vs)\<rparr>)"
proof (induction vs arbitrary: f)
  case (Cons v vs)
  then show ?case
    by (simp add: gen_advance_yield)
qed simp

text \<open>The operations on the object are those of \<open>task\<close>.\<close>

lemma generator_as_task:
  "generator_create = task_create" "generator_move = task_move"
  "generator_move_assign = task_move_assign" "generator_destructor = task_destructor"
  by (auto simp: fun_eq_iff generator_create_def task_create_def generator_move_def task_move_def generator_move_assign_def
      task_move_assign_def generator_destructor_def task_destructor_def ow_destroy_frame_def split: option.splits)

lemma gn_step_ow: "gn_step s t \<Longrightarrow> ow_step s t"
  by (induction rule: gn_step.induct) (auto simp: generator_as_task intro: ow_step.intros)

interpretation gns: invariant_system ow_init gn_step ow_inv
  by unfold_locales (auto intro: ows.inv_init ow_inv_step gn_step_ow)

lemma generator_owns_frame:
  assumes "reach ow_init gn_step s"
  shows "distinct (ow_destroyed s) \<and> (\<forall>h\<in>set (ow_created s). (h \<in> set (ow_destroyed s)) \<noteq> (\<exists>!x. ow_task s x = Some h))"
proof -
  have "ow_inv s"
    by (rule gns.inv_reach [OF assms])
  then show ?thesis
    unfolding ow_inv_def owns_once_def by metis
qed

text \<open>C32: a generator is the list of what its body yields.  A \<open>for\<close> loop over it sees the yielded values in order and then ends as
  the body ends, by returning or with its exception; a loop over an empty generator sees nothing.  The generator is lazy: after
  \<open>n\<close> increments, counting \<open>begin\<close>, the body has run just to its \<open>n\<close>-th yield, whatever it would do afterwards, and the iterator
  refers to the value of that yield.\<close>

theorem generator_enumerates:
  "range_for (Some (gen_start (yields vs (ending r)))) = Some (vs, r)
   \<and> range_for (None :: 'a gen_frame option) = Some ([], Inr ())
   \<and> (\<exists>f. gen_advances (length vs) (gen_start (yields vs b)) = Some f \<and> at f = Some b
          \<and> m_value f = (if vs = [] then None else Some (last vs)))"
proof (intro conjI)
  show "range_for (Some (gen_start (yields vs (ending r)))) = Some (vs, r)"
  proof (cases vs)
    case Nil
    then show ?thesis
      by (cases r) (simp_all add: range_for_def model_defs gen_loop.simps [of "[]"])
  next
    case (Cons w ws)
    then show ?thesis
      by (simp add: range_for_def gen_begin_def gen_advance_yield gen_start_def gen_loop_yields)
  qed
  show "range_for (None :: 'a gen_frame option) = Some ([], Inr ())"
    by (simp add: range_for_def gen_begin_def gen_loop.simps [of "[]"] at_end_def)
  show "\<exists>f. gen_advances (length vs) (gen_start (yields vs b)) = Some f \<and> at f = Some b
          \<and> m_value f = (if vs = [] then None else Some (last vs))"
    by (simp add: gen_advances_yields gen_start_def)
qed

text \<open>Iterating once more over a generator that has ended resumes a finished coroutine, which is undefined.\<close>

lemma generator_begin_again: "gen_done f \<Longrightarrow> gen_begin (Some f) = None"
  by (simp add: model_defs)

end
