(* ===== verification/Invoke.thy ===== *)
theory Invoke
  imports Task
begin

text \<open>
  \<open>invoke\<close> of \<open>include/coro/invoke.hpp\<close> over the coroutine machine of theory \<open>Task\<close>: a coroutine that keeps the functor alive and
  awaits the task it makes, started at once.
\<close>

section \<open>The invoker\<close>

text \<open>
  \<open>make_invoker_task\<close> is a coroutine that calls the functor, which makes the task of the user at address \<open>u\<close>, and
  \<open>co_return\<close>s what awaiting it gives.
\<close>

fun outcome_coro :: "'v result \<Rightarrow> 'v coro" where
  "outcome_coro (Inr v) = Co_return v"
| "outcome_coro (Inl e) = Co_throw e"

definition make_invoker_task :: "addr \<Rightarrow> 'v coro" where
  "make_invoker_task u = Co_await (Some u) outcome_coro"

text \<open>
  A call of \<open>resume()\<close> inside a coroutine: control goes to the task and comes back when it is suspended or done, and the caller
  goes on.
\<close>

inductive comes_back :: "'v machine \<Rightarrow> 'v machine \<Rightarrow> bool" where
  back_now: "mc_current s = None \<Longrightarrow> comes_back s s"
| back_step: "mc_current s = Some h \<Longrightarrow> mc_step s = Some s' \<Longrightarrow> comes_back s' s'' \<Longrightarrow> comes_back s s''"

text \<open>\<open>invoke\<close> makes the invoker at address \<open>i\<close>, resumes it at once and returns it; \<open>c\<close> is the coroutine that calls it.\<close>

definition invoke :: "addr \<Rightarrow> addr \<Rightarrow> addr \<Rightarrow> 'v machine \<Rightarrow> 'v machine \<Rightarrow> bool" where
  "invoke u i c s s' \<longleftrightarrow>
     (\<exists>s1 s2. task_resume (Some i) (mc_set i (frame_new (make_invoker_task u)) s) = Some s1 \<and> comes_back s1 s2 \<and>
        s' = s2\<lparr>mc_current := Some c\<rparr>)"

section \<open>What awaiting the invoker gives\<close>

text \<open>The steps, by the state of the coroutine in control; \<open>outcome_coro r\<close> is a body that ends with \<open>r\<close>.\<close>

lemma step_outcome:
  assumes "mc_current s = Some h" "fr_state (mc_frame s h) = At (outcome_coro r)"
  shows "mc_step s = Some (finish h (promise_store r) s)"
  using assms by (cases r) (simp_all add: mc_step_def)

lemma step_await:
  assumes "mc_current s = Some h" "fr_state (mc_frame s h) = At (Co_await (Some a) k)" "\<not> is_done (mc_frame s a)"
  shows "mc_step s = Some (task_await_suspend h a k s)"
  using assms by (simp add: mc_step_def)

lemma step_await_done:
  assumes "mc_current s = Some h" "fr_state (mc_frame s h) = At (Co_await (Some a) k)" "is_done (mc_frame s a)"
  shows "mc_step s = Some (await_resume h a k s)"
  using assms by (simp add: mc_step_def)

lemma step_awaiting:
  assumes "mc_current s = Some h" "fr_state (mc_frame s h) = Awaiting a k"
  shows "mc_step s = Some (await_resume h a k s)"
  using assms by (simp add: mc_step_def)

lemmas frame_defs [model_defs] = finish_def await_resume_def task_await_suspend_def mc_set_def Let_def is_done_def frame_new_def promise_result_store

lemma invoke_begins:
  assumes "u \<noteq> i" "\<not> is_done (mc_frame s u)"
  shows "\<exists>s1. mc_step ((mc_set i (frame_new (make_invoker_task u)) s)\<lparr>mc_current := Some i\<rparr>) = Some s1 \<and> mc_current s1 = Some u \<and>
    fr_state (mc_frame s1 i) = Awaiting u outcome_coro \<and> fr_continuation (mc_frame s1 i) = None \<and>
    mc_frame s1 u = (mc_frame s u)\<lparr>fr_continuation := Some i\<rparr> \<and> (\<forall>c. c \<noteq> i \<and> c \<noteq> u \<longrightarrow> mc_frame s1 c = mc_frame s c)"
  using assms step_await [of "(mc_set i (frame_new (make_invoker_task u)) s)\<lparr>mc_current := Some i\<rparr>" i u outcome_coro]
  by (simp add: make_invoker_task_def model_defs)

text \<open>
  A user task that completes without suspending: the invoker is done when \<open>invoke\<close> returns, and awaiting it gives the result at once.
\<close>

lemma invoke_completes:
  assumes ui: "u \<noteq> i" "c \<noteq> i" "c \<noteq> u" and u: "mc_frame s u = frame_new (outcome_coro r)"
    and c: "fr_state (mc_frame s c) = At (Co_await (Some i) k)"
  shows "\<exists>s' s''. invoke u i c s s' \<and> mc_steps s' s'' \<and> fr_state (mc_frame s'' c) = At (k r)"
proof -
  let ?s0 = "(mc_set i (frame_new (make_invoker_task u)) s)\<lparr>mc_current := Some i\<rparr>"
  have u': "\<not> is_done (mc_frame s u)"
    using u by (simp add: model_defs)
  obtain s1 where s1: "mc_step ?s0 = Some s1" "mc_current s1 = Some u" "fr_state (mc_frame s1 i) = Awaiting u outcome_coro"
      "fr_continuation (mc_frame s1 i) = None" "mc_frame s1 u = (mc_frame s u)\<lparr>fr_continuation := Some i\<rparr>"
      "mc_frame s1 c = mc_frame s c"
    using invoke_begins [OF ui(1) u'] ui by blast
  define s2 where "s2 = finish u (promise_store r) s1"
  have s2: "mc_step s1 = Some s2" "mc_current s2 = Some i" "mc_frame s2 i = mc_frame s1 i" "mc_frame s2 c = mc_frame s c"
      "fr_storage (mc_frame s2 u) = promise_store r"
    using s1 u ui step_outcome [of s1 u r] by (simp_all add: s2_def model_defs)
  define s3 where "s3 = await_resume i u outcome_coro s2"
  have s3: "mc_step s2 = Some s3" "mc_current s3 = Some i" "fr_state (mc_frame s3 i) = At (outcome_coro r)"
      "fr_continuation (mc_frame s3 i) = None" "mc_frame s3 c = mc_frame s c"
    using s1 s2 ui step_awaiting [of s2 i u outcome_coro] by (simp_all add: s3_def model_defs)
  define s4 where "s4 = finish i (promise_store r) s3"
  have s4: "mc_step s3 = Some s4" "mc_current s4 = None" "is_done (mc_frame s4 i)" "mc_frame s4 c = mc_frame s c"
      "promise_result (fr_storage (mc_frame s4 i)) = r"
    using s3 ui step_outcome [of s3 i r] by (simp_all add: s4_def model_defs)
  let ?t = "s4\<lparr>mc_current := Some c\<rparr>"
  have "mc_current ?s0 = Some i"
    by simp
  then have "comes_back ?s0 s4"
    by (rule back_step [OF _ s1(1) back_step [OF s1(2) s2(1) back_step [OF s2(2) s3(1) back_step [OF s3(2) s4(1) back_now [OF s4(2)]]]]])
  then have "invoke u i c s ?t"
    unfolding invoke_def using u by (auto simp: task_resume_def model_defs)
  moreover have "mc_step ?t = Some (await_resume c i k ?t)"
    using s4 c by (intro step_await_done) simp_all
  moreover have "fr_state (mc_frame (await_resume c i k ?t) c) = At (k r)"
    using s4 by (simp add: await_resume_def mc_set_def)
  ultimately show ?thesis
    using mc_trans mc_refl by blast
qed

text \<open>
  A user task that suspends: \<open>invoke\<close> leaves the invoker waiting for it, and awaiting the invoker resumes it early.  It finds no
  result in the promise of the user task, and the awaiting coroutine gets the exception of an unset promise while the task is still
  suspended.
\<close>

lemma invoke_suspended_throws:
  assumes ui: "u \<noteq> i" "c \<noteq> i" "c \<noteq> u" and u: "mc_frame s u = frame_new (Co_suspend d)"
    and c: "fr_state (mc_frame s c) = At (Co_await (Some i) k)"
  shows "\<exists>s' s''. invoke u i c s s' \<and> mc_steps s' s'' \<and> mc_external s'' = Some u \<and> fr_state (mc_frame s'' c) = At (k (promise_result Unset))"
proof -
  let ?s0 = "(mc_set i (frame_new (make_invoker_task u)) s)\<lparr>mc_current := Some i\<rparr>"
  have u': "\<not> is_done (mc_frame s u)"
    using u by (simp add: model_defs)
  obtain s1 where s1: "mc_step ?s0 = Some s1" "mc_current s1 = Some u" "fr_state (mc_frame s1 i) = Awaiting u outcome_coro"
      "mc_frame s1 u = (mc_frame s u)\<lparr>fr_continuation := Some i\<rparr>" "mc_frame s1 c = mc_frame s c"
    using invoke_begins [OF ui(1) u'] ui by blast
  define s2 where "s2 = (mc_set u ((mc_frame s1 u)\<lparr>fr_state := At d\<rparr>) s1)\<lparr>mc_current := None, mc_external := Some u\<rparr>"
  have s2: "mc_step s1 = Some s2" "mc_current s2 = None" "mc_external s2 = Some u" "mc_frame s2 i = mc_frame s1 i"
      "fr_storage (mc_frame s2 u) = Unset" "mc_frame s2 c = mc_frame s c"
    using s1 u ui by (simp_all add: s2_def mc_step_def model_defs)
  have "mc_current ?s0 = Some i"
    by simp
  then have "comes_back ?s0 s2"
    by (rule back_step [OF _ s1(1) back_step [OF s1(2) s2(1) back_now [OF s2(2)]]])
  then have iv: "invoke u i c s (s2\<lparr>mc_current := Some c\<rparr>)"
    unfolding invoke_def using u by (auto simp: task_resume_def model_defs)
  define t where "t = s2\<lparr>mc_current := Some c\<rparr>"
  define t1 where "t1 = task_await_suspend c i k t"
  have t1: "mc_step t = Some t1" "mc_current t1 = Some i" "mc_external t1 = Some u" "fr_state (mc_frame t1 i) = Awaiting u outcome_coro"
      "fr_continuation (mc_frame t1 i) = Some c" "fr_state (mc_frame t1 c) = Awaiting i k" "fr_storage (mc_frame t1 u) = Unset"
    using s1 s2 c ui step_await [of t c i k] by (simp_all add: t1_def t_def model_defs)
  define t2 where "t2 = await_resume i u outcome_coro t1"
  have t2: "mc_step t1 = Some t2" "mc_current t2 = Some i" "mc_external t2 = Some u" "fr_state (mc_frame t2 i) = At (outcome_coro (promise_result Unset))"
      "fr_continuation (mc_frame t2 i) = Some c" "fr_state (mc_frame t2 c) = Awaiting i k"
    using t1 ui step_awaiting [of t1 i u outcome_coro] by (simp_all add: t2_def model_defs)
  define t3 where "t3 = finish i (promise_store (promise_result Unset)) t2"
  have t3: "mc_step t2 = Some t3" "mc_current t3 = Some c" "mc_external t3 = Some u" "fr_state (mc_frame t3 c) = Awaiting i k"
      "promise_result (fr_storage (mc_frame t3 i)) = promise_result Unset"
    using t2 ui step_outcome [of t2 i "promise_result Unset"] by (simp_all add: t3_def model_defs)
  have t4: "mc_step t3 = Some (await_resume c i k t3)" "mc_external (await_resume c i k t3) = Some u"
    "fr_state (mc_frame (await_resume c i k t3) c) = At (k (promise_result Unset))"
    using t3 step_awaiting [of t3 c i k] by (simp_all add: await_resume_def mc_set_def)
  have "mc_steps t (await_resume c i k t3)"
    using mc_trans [OF t1(1) mc_trans [OF t2(1) mc_trans [OF t3(1) mc_trans [OF t4(1) mc_refl]]]] .
  then show ?thesis
    using iv t4 unfolding t_def by blast
qed

end
