(* ===== verification/DefaultExecutor.thy ===== *)
theory DefaultExecutor
  imports Prelude
begin

text \<open>
  The process-wide executors of \<open>src/default_executor.cpp\<close>: made by the first caller, waited for by the others.
\<close>

section \<open>The lazily made executor\<close>

text \<open>
  A thread in \<open>executor()\<close>: before the exchange of \<open>s_default_executor_init\<close>, making the executor, storing its address in
  \<open>s_default_executor_ptr\<close>, in the loop that waits for that address, and returned; or it has left with an exception of the
  executor's constructor.
\<close>

datatype de_pc =
    De_start
  | De_make
  | De_store addr
  | De_wait
  | De_returned "addr option"
  | De_threw

text \<open>
  The globals, the options with which the executor is made, and the executors made so far.  \<open>s_default_executor\<close> is what the
  function returns a reference to.
\<close>

record 'o de_sys =
  de_options :: 'o
  de_init :: bool
  de_ptr :: ptr
  de_executor :: ptr
  de_made :: "(addr \<times> 'o) list"
  de_pc :: "nat \<Rightarrow> de_pc"

definition de_at :: "nat \<Rightarrow> de_pc \<Rightarrow> 'o de_sys \<Rightarrow> 'o de_sys" where
  "de_at t p s = s\<lparr>de_pc := (de_pc s)(t := p)\<rparr>"

definition set_executor_options :: "'o \<Rightarrow> 'o de_sys \<Rightarrow> 'o de_sys" where
  "set_executor_options x s = s\<lparr>de_options := x\<rparr>"

text \<open>
  One step of \<open>executor()\<close>; \<open>made\<close> is the answer of \<open>make_unique\<close>, an address or an exception.  \<open>io_executor()\<close> is the same code
  over its own globals.
\<close>

definition executor_step :: "addr option \<Rightarrow> nat \<Rightarrow> 'o de_sys \<Rightarrow> 'o de_sys" where
  "executor_step made t s =
     (case de_pc s t of
        De_start \<Rightarrow> de_at t (if de_init s then De_wait else De_make) (s\<lparr>de_init := True\<rparr>)
      | De_make \<Rightarrow>
          (case made of
             Some p \<Rightarrow> de_at t (De_store p) (s\<lparr>de_executor := Some p, de_made := de_made s @ [(p, de_options s)]\<rparr>)
           | None \<Rightarrow> de_at t De_threw s)
      | De_store p \<Rightarrow> de_at t De_wait (s\<lparr>de_ptr := Some p\<rparr>)
      | De_wait \<Rightarrow> (if de_ptr s = None then s else de_at t (De_returned (de_executor s)) s)
      | De_returned p \<Rightarrow> s
      | De_threw \<Rightarrow> s)"

definition set_io_executor_options :: "'o \<Rightarrow> 'o de_sys \<Rightarrow> 'o de_sys" where
  "set_io_executor_options x s = s\<lparr>de_options := x\<rparr>"

definition io_executor_step :: "addr option \<Rightarrow> nat \<Rightarrow> 'o de_sys \<Rightarrow> 'o de_sys" where
  "io_executor_step made t s =
     (case de_pc s t of
        De_start \<Rightarrow> de_at t (if de_init s then De_wait else De_make) (s\<lparr>de_init := True\<rparr>)
      | De_make \<Rightarrow>
          (case made of
             Some p \<Rightarrow> de_at t (De_store p) (s\<lparr>de_executor := Some p, de_made := de_made s @ [(p, de_options s)]\<rparr>)
           | None \<Rightarrow> de_at t De_threw s)
      | De_store p \<Rightarrow> de_at t De_wait (s\<lparr>de_ptr := Some p\<rparr>)
      | De_wait \<Rightarrow> (if de_ptr s = None then s else de_at t (De_returned (de_executor s)) s)
      | De_returned p \<Rightarrow> s
      | De_threw \<Rightarrow> s)"

inductive de_step :: "'o de_sys \<Rightarrow> 'o de_sys \<Rightarrow> bool" where
  de_call: "de_step s (executor_step made t s)"
| de_set: "de_step s (set_executor_options x s)"

definition de_start :: "'o de_sys \<Rightarrow> bool" where
  "de_start s \<longleftrightarrow> \<not> de_init s \<and> de_ptr s = None \<and> de_executor s = None \<and> de_made s = [] \<and> de_pc s = (\<lambda>_. De_start)"

text \<open>The thread whose exchange came first, if there was one, and how far it is.\<close>

fun de_made_by :: "de_pc \<Rightarrow> ptr \<Rightarrow> ptr \<Rightarrow> bool" where
  "de_made_by De_make ex p = (ex = None \<and> p = None)"
| "de_made_by (De_store q) ex p = (ex = Some q \<and> p = None)"
| "de_made_by De_wait ex p = (ex \<noteq> None \<and> p = ex)"
| "de_made_by (De_returned q) ex p = (ex \<noteq> None \<and> p = ex \<and> q = ex)"
| "de_made_by De_threw ex p = (ex = None \<and> p = None)"
| "de_made_by De_start ex p = False"

fun de_other :: "de_pc \<Rightarrow> ptr \<Rightarrow> ptr \<Rightarrow> bool" where
  "de_other De_start ex p = True"
| "de_other De_wait ex p = True"
| "de_other (De_returned q) ex p = (p \<noteq> None \<and> q = ex)"
| "de_other _ ex p = False"

definition de_first :: "'o de_sys \<Rightarrow> nat \<Rightarrow> bool" where
  "de_first s w \<longleftrightarrow>
     (de_init s \<longrightarrow> de_made_by (de_pc s w) (de_executor s) (de_ptr s)) \<and>
     (\<not> de_init s \<longrightarrow> (\<forall>t. de_pc s t = De_start) \<and> de_executor s = None \<and> de_ptr s = None) \<and>
     (\<forall>t. t \<noteq> w \<longrightarrow> de_other (de_pc s t) (de_executor s) (de_ptr s))"

definition de_inv :: "'o de_sys \<Rightarrow> bool" where
  "de_inv s \<longleftrightarrow> (\<exists>w. de_first s w) \<and> map fst (de_made s) = (case de_executor s of None \<Rightarrow> [] | Some p \<Rightarrow> [p])"

text \<open>Two threads: the second one comes while the first makes the executor, and both return it.\<close>

definition sample_executor :: "nat de_sys" where
  "sample_executor = \<lparr>de_options = 4, de_init = False, de_ptr = None, de_executor = None, de_made = [], de_pc = \<lambda>_. De_start\<rparr>"

definition sample_executor_run :: "nat de_sys" where
  "sample_executor_run =
     (let s = executor_step None 2 (executor_step None 1 sample_executor)
      in executor_step None 2 (executor_step None 1 (executor_step None 1 (executor_step (Some 9) 1 s))))"

section \<open>Invariant\<close>

lemma io_executor_same: "io_executor_step = executor_step"
  by (simp add: fun_eq_iff io_executor_step_def executor_step_def)

text \<open>While the address is not stored, nobody else has returned.\<close>

lemma de_other_later: "de_other pc ex None \<Longrightarrow> de_other pc ex' p'"
  by (cases pc) simp_all

lemma de_inv_step:
  assumes "de_inv s" and "de_step s s'"
  shows "de_inv s'"
  using assms(2)
proof cases
  case (de_set x)
  then show ?thesis
    using assms(1) by (simp add: de_inv_def de_first_def set_executor_options_def)
next
  case (de_call made t)
  obtain w where w: "de_first s w" and m: "map fst (de_made s) = (case de_executor s of None \<Rightarrow> [] | Some p \<Rightarrow> [p])"
    using assms(1) unfolding de_inv_def by blast
  show ?thesis
  proof (cases "de_init s")
    case False
    then show ?thesis
      using w m de_call unfolding de_inv_def
      by (intro conjI exI [of _ t]) (auto simp: de_first_def executor_step_def de_at_def)
  next
    case True
    then have "de_first s' w \<and> map fst (de_made s') = (case de_executor s' of None \<Rightarrow> [] | Some p \<Rightarrow> [p])"
      using w m de_call by (cases "de_pc s t"; cases "t = w"; cases made) (auto simp: de_first_def executor_step_def de_at_def intro: de_other_later)
    then show ?thesis
      unfolding de_inv_def by blast
  qed
qed

interpretation des: invariant_system de_start de_step de_inv
proof
  show "de_start s \<Longrightarrow> de_inv s" for s :: "'a de_sys"
    by (auto simp: de_start_def de_inv_def de_first_def)
qed (rule de_inv_step)

lemma de_reach_call: "reach de_start de_step s \<Longrightarrow> reach de_start de_step (executor_step made t s)"
  using reach_step [of de_start de_step s] de_call by blast

section \<open>Properties\<close>

text \<open>C33: the default executor is made at most once.  In every interleaving of calls of \<open>executor()\<close> and of setting the options, at
  most one executor is made; every call that returns refers to it, and does so only after its address was stored; and a caller
  waits for the address only while the thread that came first is making the executor, or after that thread has left with an
  exception.\<close>

theorem default_executor_once:
  assumes "reach de_start de_step s"
  shows "length (de_made s) \<le> 1
    \<and> (\<forall>t p. de_pc s t = De_returned p \<longrightarrow> (\<exists>q x. p = Some q \<and> de_made s = [(q, x)] \<and> de_ptr s = Some q))
    \<and> (\<forall>t. de_pc s t = De_wait \<and> de_ptr s = None \<longrightarrow>
          (\<exists>w. w \<noteq> t \<and> (de_pc s w = De_make \<or> (\<exists>q. de_pc s w = De_store q) \<or> de_pc s w = De_threw)))"
proof -
  have "de_inv s"
    by (rule des.inv_reach [OF assms])
  then obtain w where w: "de_first s w" and m: "map fst (de_made s) = (case de_executor s of None \<Rightarrow> [] | Some p \<Rightarrow> [p])"
    unfolding de_inv_def by blast
  have "length (de_made s) = length (map fst (de_made s))"
    by simp
  also have "\<dots> \<le> 1"
    unfolding m by (simp split: option.splits)
  finally have len: "length (de_made s) \<le> 1" .
  have ret: "\<exists>q x. p = Some q \<and> de_made s = [(q, x)] \<and> de_ptr s = Some q" if "de_pc s t = De_returned p" for t p
  proof -
    have "de_init s"
      using w that unfolding de_first_def by (metis de_pc.distinct(7))
    then have "p = de_executor s \<and> de_executor s \<noteq> None \<and> de_ptr s = de_executor s"
      using w that unfolding de_first_def by (cases "t = w"; cases "de_pc s w") auto
    then show ?thesis
      using m by auto
  qed
  have "\<exists>w. w \<noteq> t \<and> (de_pc s w = De_make \<or> (\<exists>q. de_pc s w = De_store q) \<or> de_pc s w = De_threw)"
    if "de_pc s t = De_wait" "de_ptr s = None" for t
  proof -
    have "de_init s" "t \<noteq> w"
      using w that unfolding de_first_def by auto
    then show ?thesis
      using w that unfolding de_first_def by (cases "de_pc s w") auto
  qed
  then show ?thesis
    using len ret by blast
qed

theorem default_executor_once_witness:
  "de_made sample_executor_run = [(9, 4)] \<and> de_pc sample_executor_run 2 = De_returned (Some 9)
   \<and> length (de_made sample_executor_run) \<le> 1"
proof -
  have init: "reach de_start de_step sample_executor"
    by (rule reach_init) (simp add: sample_executor_def de_start_def)
  have "reach de_start de_step sample_executor_run"
    unfolding sample_executor_run_def Let_def by (intro de_reach_call init)
  from default_executor_once [OF this] show ?thesis
    by (simp add: sample_executor_run_def sample_executor_def executor_step_def de_at_def)
qed

text \<open>When the constructor of the executor throws, no later call returns.\<close>

lemma default_executor_failure_is_final:
  assumes "reach de_start de_step s" and "de_pc s v = De_threw"
  shows "de_ptr s = None \<and> de_pc s t \<noteq> De_returned p"
proof -
  have "de_inv s"
    by (rule des.inv_reach [OF assms(1)])
  then obtain w where w: "de_first s w"
    unfolding de_inv_def by blast
  then have "v = w" "de_init s"
    using assms(2) unfolding de_first_def by force+
  then have "de_ptr s = None" "de_executor s = None"
    using w assms(2) unfolding de_first_def by simp_all
  then show ?thesis
    using w assms(2) \<open>v = w\<close> unfolding de_first_def by (cases "t = w") auto
qed

end
