(* ===== verification/NetAddress.thy ===== *)
theory NetAddress
  imports Prelude
begin

text \<open>
  Addresses: \<open>ip_address\<close> of \<open>include/coro/net/ip_address.hpp\<close> and \<open>socket_address\<close> of
  \<open>include/coro/net/socket_address.hpp\<close>, down to the bytes of \<open>sockaddr_storage\<close>.
\<close>

unbundle bit_operations_syntax

section \<open>IP addresses\<close>

type_synonym byte = "8 word"

datatype domain_t = Ipv4 | Ipv6

definition ipv4_len :: nat where
  "ipv4_len = 4"

definition ipv6_len :: nat where
  "ipv6_len = 16"

record ip_address =
  m_domain :: domain_t
  m_data :: "byte list"

text \<open>The constructor copies the bytes into an array of zeros; the default constructor leaves the array as it is.\<close>

definition ip_default :: ip_address where
  "ip_default = \<lparr>m_domain = Ipv4, m_data = replicate ipv6_len 0\<rparr>"

definition ip_address_of :: "byte list \<Rightarrow> domain_t \<Rightarrow> ip_address result" where
  "ip_address_of bs d =
     (if d = Ipv4 \<and> ipv4_len < length bs
      then Inl (Runtime_error ''coro::net::ip_address provided binary ip address is too long'')
      else if ipv6_len < length bs
      then Inl (Runtime_error ''coro::net::ip_address provided binary ip address is too long'')
      else Inr \<lparr>m_domain = d, m_data = bs @ drop (length bs) (replicate ipv6_len 0)\<rparr>)"

definition ip_data :: "ip_address \<Rightarrow> byte list" where
  "ip_data ip = (if m_domain ip = Ipv4 then take ipv4_len (m_data ip) else take ipv6_len (m_data ip))"

text \<open>
  \<open>from_string\<close> and \<open>to_string\<close> over the functions of the C library.  \<open>inet_pton\<close> answers the bytes it writes, or
  nothing when the text is no address; \<open>inet_ntop\<close> answers the text.
\<close>

definition ip_from_string :: "(domain_t \<Rightarrow> string \<Rightarrow> byte list option) \<Rightarrow> string \<Rightarrow> domain_t \<Rightarrow> ip_address result" where
  "ip_from_string inet_pton address d =
     (case inet_pton d address of
        None \<Rightarrow> Inl (Runtime_error ''coro::net::ip_address faild to convert from string'')
      | Some bs \<Rightarrow> Inr \<lparr>m_domain = d, m_data = bs @ drop (length bs) (m_data ip_default)\<rparr>)"

definition ip_to_string :: "(domain_t \<Rightarrow> byte list \<Rightarrow> string option) \<Rightarrow> ip_address \<Rightarrow> string result" where
  "ip_to_string inet_ntop ip =
     (case inet_ntop (m_domain ip) (ip_data ip) of
        None \<Rightarrow> Inl (Runtime_error ''coro::net::ip_address failed to convert to string representation'')
      | Some t \<Rightarrow> Inr t)"

fun domain_to_string :: "domain_t \<Rightarrow> string" where
  "domain_to_string Ipv4 = ''ipv4''"
| "domain_to_string Ipv6 = ''ipv6''"

section \<open>Socket addresses\<close>

text \<open>
  \<open>sockaddr_storage\<close> is 128 bytes.  A \<open>sockaddr_in\<close> and a \<open>sockaddr_in6\<close> lie over it: the family in the bytes 0 and 1 and the port in
  2 and 3, both as 16-bit integers of a little-endian machine, then the address, from byte 4 on or, after the flow information,
  from byte 8 on.
\<close>

definition get_bytes :: "nat \<Rightarrow> nat \<Rightarrow> byte list \<Rightarrow> byte list" where
  "get_bytes off n st = take n (drop off st)"

definition put_bytes :: "nat \<Rightarrow> byte list \<Rightarrow> byte list \<Rightarrow> byte list" where
  "put_bytes off bs st = take off st @ bs @ drop (off + length bs) st"

definition bytes_of16 :: "16 word \<Rightarrow> byte list" where
  "bytes_of16 w = [ucast w, ucast (drop_bit 8 w)]"

definition of_bytes16 :: "byte list \<Rightarrow> 16 word" where
  "of_bytes16 bs = push_bit 8 (ucast (bs ! 1)) OR ucast (bs ! 0)"

definition htons :: "16 word \<Rightarrow> 16 word" where
  "htons w = push_bit 8 w OR drop_bit 8 w"

definition AF_INET :: "16 word" where
  "AF_INET = 2"

definition AF_INET6 :: "16 word" where
  "AF_INET6 = 10"

record socket_address =
  m_storage :: "byte list"
  m_len :: nat

definition make_uninitialised :: socket_address where
  "make_uninitialised = \<lparr>m_storage = replicate 128 0, m_len = 128\<rparr>"

definition socket_address_of :: "ip_address \<Rightarrow> 16 word \<Rightarrow> socket_address" where
  "socket_address_of ip port =
     (let st = put_bytes 2 (bytes_of16 (htons port)) (put_bytes 0 (bytes_of16 (if m_domain ip = Ipv4 then AF_INET else AF_INET6)) (m_storage make_uninitialised))
      in if m_domain ip = Ipv4
         then \<lparr>m_storage = put_bytes 4 (take 4 (ip_data ip)) st, m_len = 16\<rparr>
         else \<lparr>m_storage = put_bytes 8 (take 16 (ip_data ip)) st, m_len = 28\<rparr>)"

definition socket_address_parse ::
  "(domain_t \<Rightarrow> string \<Rightarrow> byte list option) \<Rightarrow> string \<Rightarrow> 16 word \<Rightarrow> domain_t \<Rightarrow> socket_address result" where
  "socket_address_parse inet_pton ip port d = (case ip_from_string inet_pton ip d of Inl x \<Rightarrow> Inl x | Inr a \<Rightarrow> Inr (socket_address_of a port))"

definition ss_family :: "socket_address \<Rightarrow> 16 word" where
  "ss_family a = of_bytes16 (get_bytes 0 2 (m_storage a))"

definition sa_domain :: "socket_address \<Rightarrow> domain_t result" where
  "sa_domain a =
     (if ss_family a = AF_INET then Inr Ipv4
      else if ss_family a = AF_INET6 then Inr Ipv6
      else Inl (Runtime_error ''coro::net::socket_address::domain() Invalid domain''))"

definition sa_port :: "socket_address \<Rightarrow> (16 word) result" where
  "sa_port a =
     (if ss_family a = AF_INET \<or> ss_family a = AF_INET6
      then Inr (htons (of_bytes16 (get_bytes 2 2 (m_storage a))))
      else Inl (Runtime_error ''coro::net::socket_address::port() Invalid domain''))"

definition sa_ip :: "socket_address \<Rightarrow> ip_address result" where
  "sa_ip a =
     (case sa_domain a of
        Inl x \<Rightarrow> Inl x
      | Inr Ipv4 \<Rightarrow> ip_address_of (get_bytes 4 4 (m_storage a)) Ipv4
      | Inr Ipv6 \<Rightarrow> ip_address_of (get_bytes 8 16 (m_storage a)) Ipv6)"

text \<open>\<open>operator==\<close>: the lengths first; the rest throws for an address without a family.\<close>

definition sa_eq :: "socket_address \<Rightarrow> socket_address \<Rightarrow> bool result" where
  "sa_eq a b =
     (if m_len a \<noteq> m_len b then Inr False
      else case (sa_domain a, sa_domain b) of
        (Inr d, Inr e) \<Rightarrow>
          (if d \<noteq> e then Inr False
           else case (sa_port a, sa_port b) of
             (Inr p, Inr q) \<Rightarrow>
               (if p \<noteq> q then Inr False
                else case (sa_ip a, sa_ip b) of
                  (Inr i, Inr j) \<Rightarrow> Inr (i = j)
                | (Inl x, _) \<Rightarrow> Inl x
                | (_, Inl x) \<Rightarrow> Inl x)
           | (Inl x, _) \<Rightarrow> Inl x
           | (_, Inl x) \<Rightarrow> Inl x)
      | (Inl x, _) \<Rightarrow> Inl x
      | (_, Inl x) \<Rightarrow> Inl x)"

text \<open>The addresses that the constructors make: sixteen bytes, of which an IPv4 address uses the first four.\<close>

definition ip_wf :: "ip_address \<Rightarrow> bool" where
  "ip_wf ip \<longleftrightarrow> length (m_data ip) = 16 \<and> (m_domain ip = Ipv4 \<longrightarrow> drop 4 (m_data ip) = replicate 12 0)"

section \<open>Bytes\<close>

lemma htons_htons: "htons (htons w) = w"
  by (rule bit_word_eqI) (auto simp: htons_def bit_simps)

lemma of_bytes16_bytes_of16: "of_bytes16 (bytes_of16 w) = w"
  by (rule bit_word_eqI) (auto simp: of_bytes16_def bytes_of16_def bit_simps)

lemma length_bytes_of16 [simp]: "length (bytes_of16 w) = 2"
  by (simp add: bytes_of16_def)

lemma length_put_bytes: "off + length bs \<le> length st \<Longrightarrow> length (put_bytes off bs st) = length st"
  by (simp add: put_bytes_def)

lemma get_put_same: "off + length bs \<le> length st \<Longrightarrow> n = length bs \<Longrightarrow> get_bytes off n (put_bytes off bs st) = bs"
  by (simp add: get_bytes_def put_bytes_def)

lemma get_put_other:
  assumes "off' + n \<le> off" "off + length bs \<le> length st"
  shows "get_bytes off' n (put_bytes off bs st) = get_bytes off' n st"
  using assms by (auto simp: get_bytes_def put_bytes_def min_def drop_take)

section \<open>Round trip\<close>

lemma ip_address_of_wf:
  assumes "ip_address_of bs d = Inr ip"
  shows "ip_wf ip" and "m_domain ip = d"
proof -
  have "length bs \<le> 16" "d = Ipv4 \<longrightarrow> length bs \<le> 4"
    using assms by (auto simp: ip_address_of_def ipv4_len_def ipv6_len_def split: if_splits)
  then show "ip_wf ip" "m_domain ip = d"
    using assms by (auto simp: ip_address_of_def ip_wf_def ipv4_len_def ipv6_len_def replicate_add [symmetric] drop_eq_Nil split: if_splits)
qed

lemma ip_address_of_data: "ip_wf ip \<Longrightarrow> ip_address_of (ip_data ip) (m_domain ip) = Inr ip"
proof -
  assume w: "ip_wf ip"
  then have "take 4 (m_data ip) @ replicate 12 0 = m_data ip" if "m_domain ip = Ipv4"
    using that by (metis append_take_drop_id ip_wf_def)
  then show ?thesis
    using w by (cases ip; cases "m_domain ip") (auto simp: ip_wf_def ip_address_of_def ip_data_def ipv4_len_def ipv6_len_def)
qed

lemma socket_address_fields:
  fixes ip :: ip_address and port :: "16 word"
  assumes "ip_wf ip"
  defines "a \<equiv> socket_address_of ip port"
  shows "ss_family a = (if m_domain ip = Ipv4 then AF_INET else AF_INET6)"
    and "get_bytes 2 2 (m_storage a) = bytes_of16 (htons port)"
    and "m_domain ip = Ipv4 \<Longrightarrow> get_bytes 4 4 (m_storage a) = ip_data ip"
    and "m_domain ip = Ipv6 \<Longrightarrow> get_bytes 8 16 (m_storage a) = ip_data ip"
    and "m_len a = (if m_domain ip = Ipv4 then 16 else 28)" and "length (m_storage a) = 128"
  using assms(1) unfolding a_def
  by (auto simp: socket_address_of_def Let_def ss_family_def make_uninitialised_def ip_wf_def ip_data_def ipv4_len_def ipv6_len_def
      get_put_same get_put_other length_put_bytes of_bytes16_bytes_of16)

lemma socket_address_reads:
  assumes "ip_wf ip"
  shows "sa_domain (socket_address_of ip port) = Inr (m_domain ip)"
    and "sa_port (socket_address_of ip port) = Inr port"
    and "sa_ip (socket_address_of ip port) = Inr ip"
proof -
  have ne: "AF_INET6 \<noteq> AF_INET"
    by (simp add: AF_INET_def AF_INET6_def)
  show d: "sa_domain (socket_address_of ip port) = Inr (m_domain ip)"
    using ne by (cases "m_domain ip") (simp_all add: sa_domain_def socket_address_fields(1) [OF assms])
  show "sa_port (socket_address_of ip port) = Inr port"
    by (simp add: sa_port_def socket_address_fields(1,2) [OF assms] of_bytes16_bytes_of16 htons_htons)
  show "sa_ip (socket_address_of ip port) = Inr ip"
    using ip_address_of_data [OF assms] by (cases "m_domain ip") (simp_all add: sa_ip_def d socket_address_fields(3,4) [OF assms])
qed

lemma socket_address_eq:
  assumes "ip_wf ip" "ip_wf jp"
  shows "sa_eq (socket_address_of ip port) (socket_address_of jp port') = Inr (ip = jp \<and> port = port')"
  unfolding sa_eq_def socket_address_reads [OF assms(1)] socket_address_reads [OF assms(2)]
    socket_address_fields(5) [OF assms(1)] socket_address_fields(5) [OF assms(2)]
  by (cases "m_domain ip"; cases "m_domain jp") auto

text \<open>C34: an address survives its journey through a \<open>sockaddr\<close>.  The bytes of an IPv4 or IPv6 address make an \<open>ip_address\<close> that gives
  them back; a \<open>socket_address\<close> made of it and a port gives back the address, the port and the domain, whatever the bytes are; it
  stays within the 128 bytes of \<open>sockaddr_storage\<close>; and two such addresses compare equal exactly when address and port are the
  same.  More bytes than the domain has are refused, and an address without a family answers no question.\<close>

theorem socket_address_roundtrip:
  assumes "length bs = (if d = Ipv4 then 4 else 16)" and "length cs = (if e = Ipv4 then 4 else 16)"
  shows "\<exists>ip jp. ip_address_of bs d = Inr ip \<and> ip_address_of cs e = Inr jp \<and> ip_data ip = bs \<and> m_domain ip = d
     \<and> sa_ip (socket_address_of ip port) = Inr ip \<and> sa_port (socket_address_of ip port) = Inr port
     \<and> sa_domain (socket_address_of ip port) = Inr d \<and> length (m_storage (socket_address_of ip port)) = 128
     \<and> sa_eq (socket_address_of ip port) (socket_address_of jp port') = Inr (bs = cs \<and> d = e \<and> port = port')
     \<and> (\<forall>x xs. \<exists>m. ip_address_of (x # bs @ xs) d = Inl (Runtime_error m))
     \<and> (\<exists>m. sa_ip make_uninitialised = Inl (Runtime_error m)) \<and> (\<exists>m. sa_port make_uninitialised = Inl (Runtime_error m))"
proof -
  let ?ip = "\<lparr>m_domain = d, m_data = bs @ drop (length bs) (replicate ipv6_len 0)\<rparr>"
  let ?jp = "\<lparr>m_domain = e, m_data = cs @ drop (length cs) (replicate ipv6_len 0)\<rparr>"
  have i: "ip_address_of bs d = Inr ?ip" and j: "ip_address_of cs e = Inr ?jp"
    using assms by (cases d; cases e; simp add: ip_address_of_def ipv4_len_def ipv6_len_def)+
  note wi = ip_address_of_wf(1) [OF i] and wj = ip_address_of_wf(1) [OF j]
  have data: "ip_data ?ip = bs"
    using assms by (cases d) (simp_all add: ip_data_def ipv4_len_def ipv6_len_def)
  have "(?ip = ?jp) = (bs = cs \<and> d = e)"
    using assms by (cases d; cases e) (auto simp: ipv6_len_def)
  then have eq: "sa_eq (socket_address_of ?ip port) (socket_address_of ?jp port') = Inr (bs = cs \<and> d = e \<and> port = port')"
    using socket_address_eq [OF wi wj] by auto
  have long: "\<exists>m. ip_address_of (x # bs @ xs) d = Inl (Runtime_error m)" for x xs
    using assms by (cases d) (simp_all add: ip_address_of_def ipv4_len_def ipv6_len_def)
  have "ss_family make_uninitialised = 0"
    by (simp add: ss_family_def make_uninitialised_def get_bytes_def of_bytes16_def)
  then have none: "\<exists>m. sa_ip make_uninitialised = Inl (Runtime_error m)" "\<exists>m. sa_port make_uninitialised = Inl (Runtime_error m)"
    by (simp_all add: sa_ip_def sa_domain_def sa_port_def AF_INET_def AF_INET6_def)
  show ?thesis
    using i j data socket_address_reads [OF wi] socket_address_fields(6) [OF wi] eq long none by (intro exI [of _ ?ip] exI [of _ ?jp]) simp
qed

theorem socket_address_roundtrip_witness:
  "sa_port (socket_address_of \<lparr>m_domain = Ipv4, m_data = [127, 0, 0, 1] @ replicate 12 0\<rparr> 8080) = Inr 8080"
proof -
  obtain ip where "ip_address_of [127, 0, 0, 1] Ipv4 = Inr ip" "sa_port (socket_address_of ip 8080) = Inr 8080"
    using socket_address_roundtrip [of "[127, 0, 0, 1]" Ipv4 "[127, 0, 0, 1]" Ipv4 8080 8080] by auto
  then show ?thesis
    by (simp add: ip_address_of_def ipv4_len_def ipv6_len_def)
qed

text \<open>Text and back, for a C library whose \<open>inet_pton\<close> inverts its \<open>inet_ntop\<close> on addresses of the right length.\<close>

lemma ip_string_roundtrip:
  assumes "\<And>d bs t. inet_ntop d bs = Some t \<Longrightarrow> inet_pton d t = Some bs" and "ip_wf ip" and "ip_to_string inet_ntop ip = Inr t"
  shows "ip_from_string inet_pton t (m_domain ip) = Inr ip"
proof -
  have "inet_pton (m_domain ip) t = Some (ip_data ip)"
    using assms by (auto simp: ip_to_string_def split: option.splits)
  then show ?thesis
    using ip_address_of_data [OF assms(2)]
    by (auto simp: ip_from_string_def ip_default_def ip_address_of_def split: if_splits)
qed

end
