(* ===== verification/NetSocket.thy ===== *)
theory NetSocket
  imports Prelude
begin

text \<open>
  The socket of \<open>include/coro/net/socket.hpp\<close> and \<open>src/net/socket.cpp\<close> as the owner of a file descriptor, and the two functions that
  make sockets.
\<close>

unbundle bit_operations_syntax

section \<open>Sockets\<close>

datatype socket_type = Udp | Tcp

datatype blocking_t = Blocking_yes | Blocking_no

record socket_options =
  so_type :: socket_type
  so_blocking :: blocking_t

text \<open>
  The objects of class \<open>socket\<close> with their \<open>m_fd\<close>, \<^term>\<open>None\<close> for \<open>-1\<close>, and the descriptors that the kernel has open for
  them.  What the kernel answers is an argument.
\<close>

record so_sys =
  so_fd :: "nat \<Rightarrow> nat option"
  so_open :: "nat set"

definition type_to_os :: "socket_type \<Rightarrow> int" where
  "type_to_os t = (case t of Udp \<Rightarrow> 2 | Tcp \<Rightarrow> 1)"

definition socket_close :: "nat \<Rightarrow> so_sys \<Rightarrow> so_sys" where
  "socket_close x s = (case so_fd s x of None \<Rightarrow> s | Some fd \<Rightarrow> s\<lparr>so_open := so_open s - {fd}, so_fd := (so_fd s)(x := None)\<rparr>)"

text \<open>The descriptor that \<open>dup\<close> answers; it fails on \<open>-1\<close> and when the process has too many.\<close>

definition dup_fd :: "nat option \<Rightarrow> nat option \<Rightarrow> nat option" where
  "dup_fd fd fresh = (case fd of None \<Rightarrow> None | Some _ \<Rightarrow> fresh)"

definition so_take :: "nat \<Rightarrow> nat option \<Rightarrow> so_sys \<Rightarrow> so_sys" where
  "so_take x fd s = s\<lparr>so_fd := (so_fd s)(x := fd), so_open := so_open s \<union> set_option fd\<rparr>"

definition socket_of :: "nat \<Rightarrow> nat \<Rightarrow> so_sys \<Rightarrow> so_sys" where
  "socket_of x fd s = so_take x (Some fd) s"

definition socket_copy :: "nat \<Rightarrow> nat \<Rightarrow> nat option \<Rightarrow> so_sys \<Rightarrow> so_sys" where
  "socket_copy x other fresh s = so_take x (dup_fd (so_fd s other) fresh) s"

definition socket_move :: "nat \<Rightarrow> nat \<Rightarrow> so_sys \<Rightarrow> so_sys" where
  "socket_move x other s = s\<lparr>so_fd := (so_fd s)(x := so_fd s other, other := None)\<rparr>"

definition socket_copy_assign :: "nat \<Rightarrow> nat \<Rightarrow> nat option \<Rightarrow> so_sys \<Rightarrow> so_sys" where
  "socket_copy_assign x other fresh s = (let s = socket_close x s in so_take x (dup_fd (so_fd s other) fresh) s)"

definition socket_move_assign :: "nat \<Rightarrow> nat \<Rightarrow> so_sys \<Rightarrow> so_sys" where
  "socket_move_assign x other s = (if other \<noteq> x then s\<lparr>so_fd := (so_fd s)(x := so_fd s other, other := None)\<rparr> else s)"

definition socket_dtor :: "nat \<Rightarrow> so_sys \<Rightarrow> so_sys" where
  "socket_dtor x s = socket_close x s"

definition socket_is_ok :: "nat \<Rightarrow> so_sys \<Rightarrow> bool" where
  "socket_is_ok x s \<longleftrightarrow> so_fd s x \<noteq> None"

text \<open>
  \<open>blocking\<close>: the flags that \<open>fcntl(F_GETFL)\<close> answers, the flags written back, if any, and whether the call succeeded; \<open>set_ok\<close> is
  the answer of the second \<open>fcntl\<close>.
\<close>

definition O_NONBLOCK :: "32 word" where
  "O_NONBLOCK = 2 ^ 11"

definition socket_blocking :: "nat option \<Rightarrow> blocking_t \<Rightarrow> 32 word option \<Rightarrow> bool \<Rightarrow> bool \<times> 32 word option" where
  "socket_blocking fd block getfl set_ok =
     (case fd of
        None \<Rightarrow> (False, None)
      | Some _ \<Rightarrow>
          (case getfl of
             None \<Rightarrow> (False, None)
           | Some flags \<Rightarrow> (set_ok, Some (if block = Blocking_yes then flags AND NOT O_NONBLOCK else flags OR O_NONBLOCK))))"

definition socket_shutdown :: "nat option \<Rightarrow> bool \<Rightarrow> bool" where
  "socket_shutdown fd os_ok = (fd \<noteq> None \<and> os_ok)"

text \<open>
  \<open>make_socket\<close>: the descriptor, or an exception; the local socket object closes the descriptor when the function throws, so the
  result also says which descriptors are open afterwards.
\<close>

definition make_socket :: "socket_options \<Rightarrow> nat option \<Rightarrow> 32 word option \<Rightarrow> bool \<Rightarrow> nat result \<times> nat set" where
  "make_socket opts fd getfl set_ok =
     (case fd of
        None \<Rightarrow> (Inl (Runtime_error ''Failed to create socket.''), {})
      | Some n \<Rightarrow>
          (if so_blocking opts = Blocking_no \<and> \<not> fst (socket_blocking (Some n) Blocking_no getfl set_ok)
           then (Inl (Runtime_error ''Failed to set socket to non-blocking mode.''), {})
           else (Inr n, {n})))"

definition make_accept_socket ::
  "socket_options \<Rightarrow> nat option \<Rightarrow> 32 word option \<Rightarrow> bool \<Rightarrow> bool \<Rightarrow> bool \<Rightarrow> bool \<Rightarrow> bool \<Rightarrow> nat result \<times> nat set" where
  "make_accept_socket opts fd getfl set_ok reuse_addr_ok reuse_port_ok bind_ok listen_ok =
     (case make_socket opts fd getfl set_ok of
        (Inl x, open) \<Rightarrow> (Inl x, open)
      | (Inr n, open) \<Rightarrow>
          (if \<not> reuse_addr_ok then (Inl (Runtime_error ''Failed to setsockopt(SO_REUSEADDR)''), open - {n})
           else if \<not> reuse_port_ok then (Inl (Runtime_error ''Failed to setsockopt(SO_REUSEPORT)''), open - {n})
           else if \<not> bind_ok then (Inl (Runtime_error ''Failed to bind.''), open - {n})
           else if so_type opts = Tcp \<and> \<not> listen_ok then (Inl (Runtime_error ''Failed to listen.''), open - {n})
           else (Inr n, open)))"

section \<open>Sequences of operations\<close>

text \<open>
  A descriptor that the kernel hands out is not open.  A constructor makes an object that holds nothing yet.  With \<open>careful\<close>, a socket
  that holds a descriptor is not the target of a move assignment.
\<close>

definition fresh_fd :: "nat option \<Rightarrow> so_sys \<Rightarrow> bool" where
  "fresh_fd fd s \<longleftrightarrow> (\<forall>n. fd = Some n \<longrightarrow> n \<notin> so_open s)"

inductive so_step :: "bool \<Rightarrow> so_sys \<Rightarrow> so_sys \<Rightarrow> bool" for careful where
  so_new: "so_fd s x = None \<Longrightarrow> fresh_fd (Some fd) s \<Longrightarrow> so_step careful s (socket_of x fd s)"
| so_copy: "so_fd s x = None \<Longrightarrow> fresh_fd fresh s \<Longrightarrow> so_step careful s (socket_copy x other fresh s)"
| so_move: "so_fd s x = None \<Longrightarrow> so_step careful s (socket_move x other s)"
| so_copy_assign: "fresh_fd fresh (socket_close x s) \<Longrightarrow> so_step careful s (socket_copy_assign x other fresh s)"
| so_move_assign: "(careful \<Longrightarrow> other = x \<or> so_fd s x = None) \<Longrightarrow> so_step careful s (socket_move_assign x other s)"
| so_close: "so_step careful s (socket_close x s)"
| so_dtor: "so_step careful s (socket_dtor x s)"

definition so_init :: "so_sys \<Rightarrow> bool" where
  "so_init s \<longleftrightarrow> (\<forall>x. so_fd s x = None) \<and> so_open s = {}"

definition so_inv :: "bool \<Rightarrow> so_sys \<Rightarrow> bool" where
  "so_inv careful s \<longleftrightarrow>
     (\<forall>x y fd. so_fd s x = Some fd \<and> so_fd s y = Some fd \<longrightarrow> x = y) \<and> ran (so_fd s) \<subseteq> so_open s \<and>
     (careful \<longrightarrow> so_open s = ran (so_fd s))"

section \<open>Invariant\<close>

lemma so_inv_take:
  assumes "so_inv c s" "so_fd s x = None" "fresh_fd fd s"
  shows "so_inv c (so_take x fd s)"
proof (cases fd)
  case None
  then show ?thesis
    using assms by (simp add: so_inv_def so_take_def fun_upd_idem)
next
  case (Some n)
  have ran: "ran ((so_fd s)(x \<mapsto> n)) = insert n (ran (so_fd s))"
    using assms(2) by (rule ran_map_upd)
  have "n \<notin> ran (so_fd s)"
    using assms Some by (auto simp: so_inv_def fresh_fd_def)
  then show ?thesis
    using assms Some ran by (auto simp: so_inv_def so_take_def ranI)
qed

lemma so_inv_close:
  assumes "so_inv c s"
  shows "so_inv c (socket_close x s)"
proof (cases "so_fd s x")
  case (Some n)
  have "ran ((so_fd s)(x := None)) = ran (so_fd s) - {n}"
    using assms Some by (auto simp: so_inv_def ran_def) (metis option.inject)+
  then show ?thesis
    using assms Some by (auto simp: so_inv_def socket_close_def)
qed (use assms in \<open>simp add: socket_close_def\<close>)

lemma close_none: "so_fd (socket_close x s) x = None"
  by (simp add: socket_close_def split: option.splits)

lemma so_inv_move:
  assumes "so_inv c s" "c \<longrightarrow> so_fd s x = None" "x \<noteq> other"
  shows "so_inv c (s\<lparr>so_fd := (so_fd s)(x := so_fd s other, other := None)\<rparr>)"
proof -
  define f where "f = (so_fd s)(x := so_fd s other, other := None)"
  have inj: "\<forall>y z n. f y = Some n \<and> f z = Some n \<longrightarrow> y = z"
    using assms(1) unfolding so_inv_def f_def by (metis fun_upd_apply option.distinct(1))
  have sub: "ran f \<subseteq> ran (so_fd s)"
    by (auto simp: f_def ran_def split: if_splits)
  have "n \<in> ran f" if n: "so_fd s x = None" "n \<in> ran (so_fd s)" for n
  proof -
    obtain y where "so_fd s y = Some n"
      using n by (auto simp: ran_def)
    then have "f (if y = other then x else y) = Some n"
      using n assms(3) by (auto simp: f_def)
    then show ?thesis
      by (rule ranI)
  qed
  then have "so_fd s x = None \<longrightarrow> ran f = ran (so_fd s)"
    using sub by blast
  then show ?thesis
    using assms(1,2) inj sub by (simp add: so_inv_def flip: f_def) blast
qed

lemma so_inv_step:
  assumes "so_inv c s" "so_step c s s'"
  shows "so_inv c s'"
  using assms(2)
proof cases
  case (so_copy x fresh other)
  then show ?thesis
    using assms(1) by (auto simp: socket_copy_def dup_fd_def fresh_fd_def intro!: so_inv_take split: option.splits)
next
  case (so_move x other)
  then show ?thesis
    using assms(1) so_inv_move [of c s x other] by (cases "x = other") (simp_all add: socket_move_def fun_upd_idem)
next
  case (so_copy_assign fresh x other)
  then show ?thesis
    using so_inv_close [OF assms(1), of x] close_none [of x s]
    by (auto simp: socket_copy_assign_def dup_fd_def fresh_fd_def Let_def intro!: so_inv_take split: option.splits)
next
  case (so_move_assign other x)
  then show ?thesis
    using assms(1) so_inv_move [of c s x other] by (auto simp: socket_move_assign_def)
qed (use assms(1) in \<open>auto simp: socket_of_def socket_dtor_def intro: so_inv_take so_inv_close\<close>)

interpretation sos: invariant_system so_init "so_step c" "so_inv c" for c
proof
  show "so_init s \<Longrightarrow> so_inv c s" for s
    by (auto simp: so_init_def so_inv_def ran_def)
qed (rule so_inv_step)

lemma make_socket_open: "make_socket opts fd getfl set_ok = (r, open) \<Longrightarrow> open = (case r of Inl _ \<Rightarrow> {} | Inr n \<Rightarrow> {n})"
  by (auto simp: make_socket_def split: option.splits if_splits)

text \<open>C35: a descriptor has one owner.  Through every sequence of constructions, copies, moves, assignments, \<open>close\<close> and destructor
  calls no two sockets hold the same descriptor and every socket that holds one holds an open one, so no descriptor is closed
  twice or used after its end; when no socket that holds a descriptor is the target of a move assignment, the open
  descriptors are just those that the sockets hold.  \<open>make_accept_socket\<close> leaves a descriptor open exactly when it returns it.\<close>

theorem socket_owns_descriptor:
  assumes "reach so_init (so_step careful) s"
  shows "(\<forall>x y fd. so_fd s x = Some fd \<and> so_fd s y = Some fd \<longrightarrow> x = y)
    \<and> (\<forall>x fd. so_fd s x = Some fd \<longrightarrow> fd \<in> so_open s)
    \<and> (careful \<longrightarrow> (\<forall>fd\<in>so_open s. \<exists>x. so_fd s x = Some fd))
    \<and> (\<forall>r open. make_accept_socket opts fd getfl set_ok ra rp b l = (r, open) \<longrightarrow> open = (case r of Inl _ \<Rightarrow> {} | Inr n \<Rightarrow> {n}))"
proof -
  have "so_inv careful s"
    by (rule sos.inv_reach [OF assms])
  moreover have "open = (case r of Inl _ \<Rightarrow> {} | Inr n \<Rightarrow> {n})"
    if "make_accept_socket opts fd getfl set_ok ra rp b l = (r, open)" for r :: "nat result" and "open"
    using that make_socket_open [of opts fd getfl set_ok]
    by (auto simp: make_accept_socket_def split: prod.splits sum.splits if_splits)
  ultimately show ?thesis
    by (auto simp: so_inv_def ran_def)
qed

theorem socket_owns_descriptor_witness:
  "\<exists>s :: so_sys. so_fd s 0 = Some 5 \<and> so_fd s 1 = Some 4 \<and> 4 \<in> so_open s"
proof -
  let ?init = "\<lparr>so_fd = \<lambda>_. None, so_open = {}\<rparr>"
  let ?s = "socket_copy 0 1 (Some 5) (socket_of 1 4 ?init)"
  have r0: "reach so_init (so_step True) ?init"
    by (rule reach_init) (simp add: so_init_def)
  have s1: "so_step True ?init (socket_of 1 4 ?init)"
    by (rule so_new) (simp_all add: fresh_fd_def)
  have s2: "so_step True (socket_of 1 4 ?init) ?s"
    by (rule so_copy) (simp_all add: fresh_fd_def socket_of_def so_take_def)
  have "reach so_init (so_step True) ?s"
    by (rule reach_step [of so_init "so_step True" "socket_of 1 4 ?init", OF reach_step [of so_init "so_step True" ?init, OF r0 s1] s2])
  then have "\<forall>x fd. so_fd ?s x = Some fd \<longrightarrow> fd \<in> so_open ?s"
    using socket_owns_descriptor [of True ?s "\<lparr>so_type = Tcp, so_blocking = Blocking_no\<rparr>" None None True True True True True] by blast
  then show ?thesis
    by (intro exI [of _ ?s] conjI; simp add: socket_copy_def socket_of_def so_take_def dup_fd_def)
qed

text \<open>Move assignment to a socket that holds a descriptor loses it: the descriptor stays open and no socket holds it.\<close>

lemma socket_move_assign_leaks:
  assumes "so_inv c s" "so_fd s x = Some fd" "x \<noteq> other"
  shows "fd \<in> so_open (socket_move_assign x other s) \<and> (\<forall>y. so_fd (socket_move_assign x other s) y \<noteq> Some fd)"
  using assms by (auto simp: so_inv_def socket_move_assign_def ran_def)

text \<open>Copy assignment of a socket to itself closes its descriptor and leaves it empty.\<close>

lemma socket_self_copy_closes:
  assumes "so_fd s x = Some fd"
  shows "so_fd (socket_copy_assign x x fresh s) x = None \<and> fd \<notin> so_open (socket_copy_assign x x fresh s)"
  using assms by (simp add: socket_copy_assign_def socket_close_def dup_fd_def so_take_def)

text \<open>\<open>blocking\<close> changes the one flag and no other.\<close>

lemma socket_blocking_flag:
  assumes "socket_blocking fd block (Some flags) ok = (True, Some flags')"
  shows "bit flags' 11 \<longleftrightarrow> block = Blocking_no" and "n \<noteq> 11 \<Longrightarrow> bit flags' n = bit flags n"
proof -
  have nb: "bit O_NONBLOCK n \<longleftrightarrow> n = 11" for n
    unfolding O_NONBLOCK_def bit_exp_iff by auto
  have "flags' = (if block = Blocking_yes then flags AND NOT O_NONBLOCK else flags OR O_NONBLOCK)"
    using assms by (auto simp: socket_blocking_def split: option.splits)
  then show "bit flags' 11 \<longleftrightarrow> block = Blocking_no" "n \<noteq> 11 \<Longrightarrow> bit flags' n = bit flags n"
    using nb bit_imp_le_length [of flags n] by (cases block; auto simp: bit_simps)+
qed

end
