(* ===== verification/NetClient.thy ===== *)
theory NetClient
  imports IoNotifier NetAddress
begin

text \<open>
  The operations of the sockets: \<open>io_status\<close> of \<open>include/coro/net/io_status.hpp\<close> and \<open>src/net/io_status.cpp\<close>, \<open>tcp::client\<close> of
  \<open>include/coro/net/tcp/client.hpp\<close> and \<open>src/net/tcp/client.cpp\<close>, \<open>tcp::server::accept\<close> of \<open>include/coro/net/tcp/server.hpp\<close> and
  \<open>udp::peer\<close> of \<open>include/coro/net/udp/peer.hpp\<close>.  The system calls are arguments, with what the code relies on of them as laws.
\<close>

section \<open>io\_status\<close>

datatype io_kind =
    Kind_ok
  | Kind_closed
  | Kind_connection_reset
  | Kind_connection_refused
  | Kind_timeout
  | Kind_would_block_or_try_again
  | Kind_polling_error
  | Kind_cancelled
  | Kind_udp_not_bound
  | Kind_message_too_big
  | Kind_native
  | Kind_unknown

record io_status =
  io_type :: io_kind
  native_code :: int

definition status_of :: "io_kind \<Rightarrow> io_status" where
  "status_of k = \<lparr>io_type = k, native_code = 0\<rparr>"

definition is_ok :: "io_status \<Rightarrow> bool" where
  "is_ok st \<longleftrightarrow> io_type st = Kind_ok"

definition try_again :: "io_status \<Rightarrow> bool" where
  "try_again st \<longleftrightarrow> io_type st = Kind_would_block_or_try_again"

text \<open>The error numbers of Linux that the library tells apart; \<open>EOF\<close> is \<open>-1\<close>.\<close>

definition ECONNREFUSED :: int where "ECONNREFUSED = 111"

definition ECONNRESET :: int where "ECONNRESET = 104"

definition EAGAIN :: int where "EAGAIN = 11"

definition EMSGSIZE :: int where "EMSGSIZE = 90"

definition EINPROGRESS :: int where "EINPROGRESS = 115"

definition make_io_status_from_native :: "int \<Rightarrow> io_status" where
  "make_io_status_from_native n =
     \<lparr>io_type =
        (if n = 0 then Kind_ok
         else if n = -1 then Kind_closed
         else if n = ECONNREFUSED then Kind_connection_refused
         else if n = ECONNRESET then Kind_connection_reset
         else if n = EAGAIN then Kind_would_block_or_try_again
         else if n = EMSGSIZE then Kind_message_too_big
         else Kind_native),
      native_code = n\<rparr>"

fun make_io_status_from_poll_status :: "poll_status \<Rightarrow> io_status" where
  "make_io_status_from_poll_status Status_read = status_of Kind_ok"
| "make_io_status_from_poll_status Status_write = status_of Kind_ok"
| "make_io_status_from_poll_status Status_timeout = status_of Kind_timeout"
| "make_io_status_from_poll_status Status_error = status_of Kind_polling_error"
| "make_io_status_from_poll_status Status_closed = status_of Kind_closed"
| "make_io_status_from_poll_status Status_cancelled = status_of Kind_cancelled"

fun io_kind_to_string :: "io_kind \<Rightarrow> string" where
  "io_kind_to_string Kind_ok = ''Success''"
| "io_kind_to_string Kind_closed = ''Connection closed by peer''"
| "io_kind_to_string Kind_connection_reset = ''Connection reset by peer''"
| "io_kind_to_string Kind_connection_refused = ''Connection refused by target host''"
| "io_kind_to_string Kind_timeout = ''Operation timed out''"
| "io_kind_to_string Kind_would_block_or_try_again = ''Operation would block or try again''"
| "io_kind_to_string Kind_polling_error = ''Polling error''"
| "io_kind_to_string Kind_cancelled = ''Operation cancelled''"
| "io_kind_to_string Kind_udp_not_bound = ''Udp socket is not bound''"
| "io_kind_to_string Kind_native = ''Native error code''"
| "io_kind_to_string Kind_message_too_big = ''Message is too big''"
| "io_kind_to_string Kind_unknown = ''unknown''"

text \<open>\<open>message()\<close> over \<open>std::system_category().message\<close>.\<close>

definition io_message :: "(int \<Rightarrow> string) \<Rightarrow> io_status \<Rightarrow> string" where
  "io_message system_message st =
     (if io_type st \<noteq> Kind_native then io_kind_to_string (io_type st)
      else if native_code st = 0 then ''Success''
      else system_message (native_code st))"

section \<open>The operating system\<close>

text \<open>
  What the classes call: \<open>recv\<close> with the size of the buffer, \<open>send\<close>, \<open>m_scheduler->poll\<close> for an operation with a time-out in
  milliseconds, zero for none, and the steady clock.  \<open>recv\<close> answers the bytes it wrote, none when the peer has closed, or the
  error number, \<open>send\<close> the number of bytes it took or the error number.
\<close>

datatype recv_answer = Bytes "byte list" | Recv_errno int

datatype send_answer = Sent nat | Send_errno int

record 's os =
  os_recv :: "nat \<Rightarrow> 's \<Rightarrow> recv_answer \<times> 's"
  os_send :: "byte list \<Rightarrow> 's \<Rightarrow> send_answer \<times> 's"
  os_poll :: "poll_op \<Rightarrow> int \<Rightarrow> 's \<Rightarrow> poll_status \<times> 's"
  os_now :: "'s \<Rightarrow> int \<times> 's"

section \<open>tcp::client\<close>

datatype connect_status = Connected | Invalid_ip_address | Connect_timeout | Connect_error

text \<open>The members but \<open>m_socket\<close>, which is a socket of theory \<open>NetSocket\<close>; copies and moves of a client copy and move it.\<close>

record tcp_client =
  m_scheduler :: ptr
  m_endpoint :: socket_address
  m_connect_status :: "connect_status option"
  m_is_read_ready :: bool
  m_is_write_ready :: bool

definition tcp_client_members :: "ptr \<Rightarrow> socket_address \<Rightarrow> connect_status option \<Rightarrow> tcp_client" where
  "tcp_client_members sch e st =
     \<lparr>m_scheduler = sch, m_endpoint = e, m_connect_status = st, m_is_read_ready = False, m_is_write_ready = False\<rparr>"

definition tcp_client_new :: "ptr \<Rightarrow> socket_address \<Rightarrow> tcp_client result" where
  "tcp_client_new sch e =
     (if sch = None then Inl (Runtime_error ''tcp::client cannot have nullptr scheduler'')
      else Inr (tcp_client_members sch e None))"

definition tcp_client_accepted :: "ptr \<Rightarrow> socket_address \<Rightarrow> tcp_client" where
  "tcp_client_accepted sch e = tcp_client_members sch e (Some Connected)"

definition tcp_recv :: "'s os \<Rightarrow> nat \<Rightarrow> 's \<Rightarrow> (io_status \<times> byte list) \<times> 's" where
  "tcp_recv os n s =
     (case os_recv os n s of
        (Bytes bs, s') \<Rightarrow> ((if bs \<noteq> [] then (status_of Kind_ok, bs) else (status_of Kind_closed, [])), s')
      | (Recv_errno e, s') \<Rightarrow> ((make_io_status_from_native e, []), s'))"

text \<open>\<open>send\<close> answers the bytes that were not sent.\<close>

definition tcp_send :: "'s os \<Rightarrow> byte list \<Rightarrow> 's \<Rightarrow> (io_status \<times> byte list) \<times> 's" where
  "tcp_send os bs s =
     (case os_send os bs s of
        (Sent k, s') \<Rightarrow> ((status_of Kind_ok, drop k bs), s')
      | (Send_errno e, s') \<Rightarrow> ((make_io_status_from_native e, bs), s'))"

text \<open>\<open>read_some_impl\<close>: the part after the fast path, and the whole.\<close>

definition read_after_poll :: "'s os \<Rightarrow> nat \<Rightarrow> int \<Rightarrow> tcp_client \<Rightarrow> 's \<Rightarrow> (io_status \<times> byte list) \<times> tcp_client \<times> 's" where
  "read_after_poll os n timeout c s =
     (case os_poll os Poll_read timeout s of
        (p, s1) \<Rightarrow>
          if p \<noteq> Status_read then ((make_io_status_from_poll_status p, []), c, s1)
          else let (r, s2) = tcp_recv os n s1 in (r, c\<lparr>m_is_read_ready := True\<rparr>, s2))"

definition read_some_impl :: "'s os \<Rightarrow> nat \<Rightarrow> int \<Rightarrow> tcp_client \<Rightarrow> 's \<Rightarrow> (io_status \<times> byte list) \<times> tcp_client \<times> 's" where
  "read_some_impl os n timeout c s =
     (if m_is_read_ready c
      then let (r, s1) = tcp_recv os n s
           in if try_again (fst r) then read_after_poll os n timeout (c\<lparr>m_is_read_ready := False\<rparr>) s1 else (r, c, s1)
      else read_after_poll os n timeout c s)"

definition read_some :: "'s os \<Rightarrow> nat \<Rightarrow> int \<Rightarrow> tcp_client \<Rightarrow> 's \<Rightarrow> (io_status \<times> byte list) \<times> tcp_client \<times> 's" where
  "read_some os n timeout c s = (if n = 0 then ((status_of Kind_ok, []), c, s) else read_some_impl os n timeout c s)"

text \<open>The clock counts nanoseconds; \<open>duration_cast\<close> to milliseconds rounds towards zero.\<close>

definition duration_cast_ms :: "int \<Rightarrow> int" where
  "duration_cast_ms d = (if d < 0 then - ((- d) div 1000000) else d div 1000000)"

text \<open>
  The loop of \<open>read_exact_impl\<close> with the prefix of the buffer that has been filled.  What is left of the time-out goes to each
  read; a loop that never ends has no result.
\<close>

partial_function (option) read_loop ::
  "'s os \<Rightarrow> nat \<Rightarrow> int \<Rightarrow> int \<Rightarrow> byte list \<Rightarrow> tcp_client \<Rightarrow> 's \<Rightarrow> ((io_status \<times> byte list) \<times> tcp_client \<times> 's) option" where
  "read_loop os n timeout start got c s =
     (if n \<le> length got then Some ((status_of Kind_ok, got), c, s)
      else let (now, s1) = (if timeout > 0 then os_now os s else (start, s))
           in if timeout > 0 \<and> duration_cast_ms (now - start) \<ge> timeout then Some ((status_of Kind_timeout, got), c, s1)
              else case read_some_impl os (n - length got) (if timeout > 0 then timeout - duration_cast_ms (now - start) else 0) c s1 of
                ((st, bs), c', s2) \<Rightarrow>
                  if \<not> is_ok st then Some ((st, got @ bs), c', s2)
                  else read_loop os n timeout start (got @ bs) c' s2)"

definition read_exact_impl :: "'s os \<Rightarrow> nat \<Rightarrow> int \<Rightarrow> tcp_client \<Rightarrow> 's \<Rightarrow> ((io_status \<times> byte list) \<times> tcp_client \<times> 's) option" where
  "read_exact_impl os n timeout c s = (case os_now os s of (start, s1) \<Rightarrow> read_loop os n timeout start [] c s1)"

definition read_exact :: "'s os \<Rightarrow> nat \<Rightarrow> int \<Rightarrow> tcp_client \<Rightarrow> 's \<Rightarrow> ((io_status \<times> byte list) \<times> tcp_client \<times> 's) option" where
  "read_exact os n timeout c s = (if n = 0 then Some ((status_of Kind_ok, []), c, s) else read_exact_impl os n timeout c s)"

definition write_after_poll :: "'s os \<Rightarrow> byte list \<Rightarrow> int \<Rightarrow> tcp_client \<Rightarrow> 's \<Rightarrow> (io_status \<times> byte list) \<times> tcp_client \<times> 's" where
  "write_after_poll os bs timeout c s =
     (case os_poll os Poll_write timeout s of
        (p, s1) \<Rightarrow>
          if p \<noteq> Status_write then ((make_io_status_from_poll_status p, bs), c, s1)
          else let (r, s2) = tcp_send os bs s1 in (r, c\<lparr>m_is_write_ready := True\<rparr>, s2))"

definition write_some_impl :: "'s os \<Rightarrow> byte list \<Rightarrow> int \<Rightarrow> tcp_client \<Rightarrow> 's \<Rightarrow> (io_status \<times> byte list) \<times> tcp_client \<times> 's" where
  "write_some_impl os bs timeout c s =
     (if m_is_write_ready c
      then let (r, s1) = tcp_send os bs s
           in if try_again (fst r) then write_after_poll os bs timeout (c\<lparr>m_is_write_ready := False\<rparr>) s1 else (r, c, s1)
      else write_after_poll os bs timeout c s)"

definition write_some :: "'s os \<Rightarrow> byte list \<Rightarrow> int \<Rightarrow> tcp_client \<Rightarrow> 's \<Rightarrow> (io_status \<times> byte list) \<times> tcp_client \<times> 's" where
  "write_some os bs timeout c s = (if bs = [] then ((status_of Kind_ok, []), c, s) else write_some_impl os bs timeout c s)"

partial_function (option) write_loop ::
  "'s os \<Rightarrow> int \<Rightarrow> int \<Rightarrow> byte list \<Rightarrow> tcp_client \<Rightarrow> 's \<Rightarrow> ((io_status \<times> byte list) \<times> tcp_client \<times> 's) option" where
  "write_loop os timeout start left c s =
     (if left = [] then Some ((status_of Kind_ok, []), c, s)
      else let (now, s1) = (if timeout > 0 then os_now os s else (start, s))
           in if timeout > 0 \<and> duration_cast_ms (now - start) \<ge> timeout then Some ((status_of Kind_timeout, left), c, s1)
              else case write_some_impl os left (if timeout > 0 then timeout - duration_cast_ms (now - start) else 0) c s1 of
                ((st, unsent), c', s2) \<Rightarrow>
                  if \<not> is_ok st then Some ((st, unsent), c', s2)
                  else write_loop os timeout start unsent c' s2)"

definition write_all_impl :: "'s os \<Rightarrow> byte list \<Rightarrow> int \<Rightarrow> tcp_client \<Rightarrow> 's \<Rightarrow> ((io_status \<times> byte list) \<times> tcp_client \<times> 's) option" where
  "write_all_impl os bs timeout c s = (case os_now os s of (start, s1) \<Rightarrow> write_loop os timeout start bs c s1)"

definition write_all :: "'s os \<Rightarrow> byte list \<Rightarrow> int \<Rightarrow> tcp_client \<Rightarrow> 's \<Rightarrow> ((io_status \<times> byte list) \<times> tcp_client \<times> 's) option" where
  "write_all os bs timeout c s = (if bs = [] then Some ((status_of Kind_ok, []), c, s) else write_all_impl os bs timeout c s)"

text \<open>
  \<open>poll\<close> is the call of the scheduler.  \<open>connect\<close>: \<open>cret\<close> and \<open>errno\<close> are the answer of \<open>::connect\<close>, \<open>pstatus\<close> that of the poll
  for write; \<open>getsockopt\<close> answers the pending error, or fails, which leaves \<open>result\<close> at zero.
\<close>

definition tcp_connect :: "int \<Rightarrow> int \<Rightarrow> poll_status \<Rightarrow> int option \<Rightarrow> tcp_client \<Rightarrow> connect_status \<times> tcp_client" where
  "tcp_connect cret errno pstatus so_error c =
     (case m_connect_status c of
        Some st \<Rightarrow> (st, c)
      | None \<Rightarrow>
          (let st =
             (if cret = 0 then Connected
              else if cret = -1 \<and> (errno = EAGAIN \<or> errno = EINPROGRESS)
              then (if pstatus = Status_write
                    then (let result = (case so_error of Some e \<Rightarrow> e | None \<Rightarrow> 0) in if result = 0 then Connected else Connect_error)
                    else if pstatus = Status_timeout then Connect_timeout
                    else Connect_error)
              else Connect_error)
           in (st, c\<lparr>m_connect_status := Some st\<rparr>)))"

text \<open>Copies and moves of a client leave the readiness flags of the new object at their defaults, an assignment those of the old one.\<close>

definition tcp_client_copy :: "tcp_client \<Rightarrow> tcp_client" where
  "tcp_client_copy other = tcp_client_members (m_scheduler other) (m_endpoint other) (m_connect_status other)"

definition tcp_client_move :: "tcp_client \<Rightarrow> tcp_client \<times> tcp_client" where
  "tcp_client_move other =
     (tcp_client_members (m_scheduler other) (m_endpoint other) (m_connect_status other), other\<lparr>m_connect_status := None\<rparr>)"

definition tcp_client_copy_assign :: "tcp_client \<Rightarrow> tcp_client \<Rightarrow> tcp_client" where
  "tcp_client_copy_assign c other =
     c\<lparr>m_scheduler := m_scheduler other, m_endpoint := m_endpoint other, m_connect_status := m_connect_status other\<rparr>"

definition tcp_client_move_assign :: "tcp_client \<Rightarrow> tcp_client \<Rightarrow> tcp_client \<times> tcp_client" where
  "tcp_client_move_assign c other =
     (c\<lparr>m_scheduler := m_scheduler other, m_endpoint := m_endpoint other, m_connect_status := m_connect_status other\<rparr>,
      other\<lparr>m_scheduler := None, m_connect_status := None\<rparr>)"

fun connect_status_to_string :: "connect_status \<Rightarrow> string" where
  "connect_status_to_string Connected = ''connected''"
| "connect_status_to_string Invalid_ip_address = ''invalid_ip_address''"
| "connect_status_to_string Connect_timeout = ''timeout''"
| "connect_status_to_string Connect_error = ''error''"

section \<open>tcp::server\<close>

text \<open>
  The members but \<open>m_accept_socket\<close>; \<open>srv_cancelled\<close> tells whether the stop source \<open>m_cancel_trigger\<close>, whose token every poll gets,
  has been triggered.  \<open>accept_now\<close> works over the answer of \<open>::accept\<close>, a descriptor and the address of the peer or an error number.
\<close>

record tcp_server =
  srv_scheduler :: ptr
  srv_backlog :: int
  srv_cancelled :: bool
  srv_read_ready :: bool

definition tcp_server_new :: "ptr \<Rightarrow> int \<Rightarrow> tcp_server result" where
  "tcp_server_new sch backlog =
     (if sch = None then Inl (Runtime_error ''tcp::server cannot have a nullptr scheduler'')
      else Inr \<lparr>srv_scheduler = sch, srv_backlog = backlog, srv_cancelled = False, srv_read_ready = False\<rparr>)"

definition tcp_server_move :: "tcp_server \<Rightarrow> tcp_server \<times> tcp_server" where
  "tcp_server_move other =
     (\<lparr>srv_scheduler = srv_scheduler other, srv_backlog = srv_backlog other, srv_cancelled = False, srv_read_ready = False\<rparr>,
      other\<lparr>srv_scheduler := None\<rparr>)"

definition tcp_server_move_assign :: "tcp_server \<Rightarrow> tcp_server \<Rightarrow> tcp_server \<times> tcp_server" where
  "tcp_server_move_assign c other =
     (c\<lparr>srv_scheduler := srv_scheduler other, srv_backlog := srv_backlog other\<rparr>, other\<lparr>srv_scheduler := None\<rparr>)"

definition tcp_server_shutdown :: "tcp_server \<Rightarrow> tcp_server" where
  "tcp_server_shutdown c = c\<lparr>srv_cancelled := True\<rparr>"

record 's accept_os =
  os_accept :: "'s \<Rightarrow> (int + nat \<times> socket_address) \<times> 's"
  os_accept_poll :: "bool \<Rightarrow> int \<Rightarrow> 's \<Rightarrow> poll_status \<times> 's"

definition accept_now :: "'s accept_os \<Rightarrow> tcp_server \<Rightarrow> 's \<Rightarrow> (io_status + nat \<times> tcp_client) \<times> 's" where
  "accept_now os c s =
     (case os_accept os s of
        (Inl e, s') \<Rightarrow> (Inl (make_io_status_from_native e), s')
      | (Inr (fd, a), s') \<Rightarrow> (Inr (fd, tcp_client_accepted (srv_scheduler c) a), s'))"

definition accept_after_poll ::
  "'s accept_os \<Rightarrow> int \<Rightarrow> tcp_server \<Rightarrow> 's \<Rightarrow> (io_status + nat \<times> tcp_client) \<times> tcp_server \<times> 's" where
  "accept_after_poll os timeout c s =
     (case os_accept_poll os (srv_cancelled c) timeout s of
        (p, s1) \<Rightarrow>
          if p \<noteq> Status_read then (Inl (make_io_status_from_poll_status p), c, s1)
          else let (r, s2) = accept_now os c s1 in (r, c\<lparr>srv_read_ready := True\<rparr>, s2))"

definition tcp_accept ::
  "'s accept_os \<Rightarrow> int \<Rightarrow> tcp_server \<Rightarrow> 's \<Rightarrow> (io_status + nat \<times> tcp_client) \<times> tcp_server \<times> 's" where
  "tcp_accept os timeout c s =
     (if srv_read_ready c
      then let (r, s1) = accept_now os c s
           in (case r of
                 Inl st \<Rightarrow> if try_again st then accept_after_poll os timeout (c\<lparr>srv_read_ready := False\<rparr>) s1 else (r, c, s1)
               | Inr _ \<Rightarrow> (r, c, s1))
      else accept_after_poll os timeout c s)"

section \<open>udp::peer\<close>

text \<open>
  A datagram has an address; \<open>os_sendto\<close> answers the error number if it fails, \<open>os_recvfrom\<close> the datagram cut to the size of the
  buffer.
\<close>

record ('a, 's) udp_os =
  os_sendto :: "'a \<Rightarrow> byte list \<Rightarrow> 's \<Rightarrow> int option \<times> 's"
  os_recvfrom :: "nat \<Rightarrow> 's \<Rightarrow> (int + 'a \<times> byte list) \<times> 's"
  os_udp_poll :: "poll_op \<Rightarrow> int \<Rightarrow> 's \<Rightarrow> poll_status \<times> 's"

record udp_peer =
  udp_scheduler :: ptr
  m_bound :: bool
  udp_read_ready :: bool
  udp_write_ready :: bool

text \<open>The two constructors differ in \<open>bound\<close>; the socket is made by \<open>make_socket\<close> or by \<open>make_accept_socket\<close>.\<close>

definition udp_peer_new :: "ptr \<Rightarrow> bool \<Rightarrow> udp_peer result" where
  "udp_peer_new sch bound =
     (if sch = None then Inl (Runtime_error ''udp::peer cannot have nullptr scheduler'')
      else Inr \<lparr>udp_scheduler = sch, m_bound = bound, udp_read_ready = False, udp_write_ready = True\<rparr>)"

definition udp_peer_move :: "udp_peer \<Rightarrow> udp_peer \<times> udp_peer" where
  "udp_peer_move other =
     (\<lparr>udp_scheduler = udp_scheduler other, m_bound = m_bound other, udp_read_ready = False, udp_write_ready = True\<rparr>,
      other\<lparr>udp_scheduler := None\<rparr>)"

definition udp_peer_move_assign :: "udp_peer \<Rightarrow> udp_peer \<Rightarrow> udp_peer \<times> udp_peer" where
  "udp_peer_move_assign c other =
     (c\<lparr>udp_scheduler := udp_scheduler other, m_bound := m_bound other\<rparr>, other\<lparr>udp_scheduler := None\<rparr>)"

definition udp_peer_copy_assign :: "udp_peer \<Rightarrow> udp_peer \<Rightarrow> udp_peer" where
  "udp_peer_copy_assign c other = c\<lparr>udp_scheduler := udp_scheduler other, m_bound := m_bound other\<rparr>"

definition udp_sendto :: "('a, 's) udp_os \<Rightarrow> 'a \<Rightarrow> byte list \<Rightarrow> 's \<Rightarrow> io_status \<times> 's" where
  "udp_sendto os a bs s =
     (case os_sendto os a bs s of
        (None, s') \<Rightarrow> (status_of Kind_ok, s')
      | (Some e, s') \<Rightarrow> (make_io_status_from_native e, s'))"

definition udp_recvfrom :: "('a, 's) udp_os \<Rightarrow> nat \<Rightarrow> 's \<Rightarrow> (io_status \<times> 'a option \<times> byte list) \<times> 's" where
  "udp_recvfrom os n s =
     (case os_recvfrom os n s of
        (Inl e, s') \<Rightarrow> ((make_io_status_from_native e, None, []), s')
      | (Inr (a, bs), s') \<Rightarrow> ((status_of Kind_ok, Some a, bs), s'))"

definition udp_write_after_poll :: "('a, 's) udp_os \<Rightarrow> 'a \<Rightarrow> byte list \<Rightarrow> int \<Rightarrow> udp_peer \<Rightarrow> 's \<Rightarrow> io_status \<times> udp_peer \<times> 's" where
  "udp_write_after_poll os a bs timeout c s =
     (case os_udp_poll os Poll_write timeout s of
        (p, s1) \<Rightarrow>
          if p \<noteq> Status_write then (make_io_status_from_poll_status p, c, s1)
          else let (r, s2) = udp_sendto os a bs s1 in (r, c\<lparr>udp_write_ready := True\<rparr>, s2))"

definition write_to_impl :: "('a, 's) udp_os \<Rightarrow> 'a \<Rightarrow> byte list \<Rightarrow> int \<Rightarrow> udp_peer \<Rightarrow> 's \<Rightarrow> io_status \<times> udp_peer \<times> 's" where
  "write_to_impl os a bs timeout c s =
     (if bs = [] then (status_of Kind_ok, c, s)
      else if udp_write_ready c
      then let (r, s1) = udp_sendto os a bs s
           in if try_again r then udp_write_after_poll os a bs timeout (c\<lparr>udp_write_ready := False\<rparr>) s1 else (r, c, s1)
      else udp_write_after_poll os a bs timeout c s)"

definition udp_read_after_poll ::
  "('a, 's) udp_os \<Rightarrow> nat \<Rightarrow> int \<Rightarrow> udp_peer \<Rightarrow> 's \<Rightarrow> (io_status \<times> 'a option \<times> byte list) \<times> udp_peer \<times> 's" where
  "udp_read_after_poll os n timeout c s =
     (case os_udp_poll os Poll_read timeout s of
        (p, s1) \<Rightarrow>
          if p \<noteq> Status_read then ((make_io_status_from_poll_status p, None, []), c, s1)
          else let (r, s2) = udp_recvfrom os n s1 in (r, c\<lparr>udp_read_ready := True\<rparr>, s2))"

definition read_from_impl ::
  "('a, 's) udp_os \<Rightarrow> nat \<Rightarrow> int \<Rightarrow> udp_peer \<Rightarrow> 's \<Rightarrow> (io_status \<times> 'a option \<times> byte list) \<times> udp_peer \<times> 's" where
  "read_from_impl os n timeout c s =
     (if \<not> m_bound c then ((status_of Kind_udp_not_bound, None, []), c, s)
      else if n = 0 then ((status_of Kind_ok, None, []), c, s)
      else if udp_read_ready c
      then let (r, s1) = udp_recvfrom os n s
           in if try_again (fst r) then udp_read_after_poll os n timeout (c\<lparr>udp_read_ready := False\<rparr>) s1 else (r, c, s1)
      else udp_read_after_poll os n timeout c s)"

section \<open>What the operating system promises\<close>

text \<open>
  The view of a connection: the bytes that the peer sends from here on, the bytes it has been sent, the clock, and the time-outs of
  the polls so far.  \<open>recv\<close> takes bytes off the front of the stream, no more than asked for; \<open>send\<close> of something takes at
  least one byte or fails; an error number is not zero; a poll reports the operation asked for or a failure; the clock does not
  run backwards.
\<close>

record 's os_view =
  incoming :: "'s \<Rightarrow> byte list"
  outgoing :: "'s \<Rightarrow> byte list"
  clock :: "'s \<Rightarrow> int"
  polls :: "'s \<Rightarrow> int list"

definition recv_law :: "'s os \<Rightarrow> 's os_view \<Rightarrow> bool" where
  "recv_law os v \<longleftrightarrow> (\<forall>n s a s'. os_recv os n s = (a, s') \<longrightarrow>
     (case a of Bytes bs \<Rightarrow> length bs \<le> n \<and> incoming v s = bs @ incoming v s' | Recv_errno e \<Rightarrow> e \<noteq> 0 \<and> incoming v s' = incoming v s) \<and>
     outgoing v s' = outgoing v s \<and> clock v s \<le> clock v s' \<and> polls v s' = polls v s)"

definition send_law :: "'s os \<Rightarrow> 's os_view \<Rightarrow> bool" where
  "send_law os v \<longleftrightarrow> (\<forall>bs s a s'. os_send os bs s = (a, s') \<longrightarrow>
     (case a of Sent k \<Rightarrow> k \<le> length bs \<and> (bs \<noteq> [] \<longrightarrow> 0 < k) \<and> outgoing v s' = outgoing v s @ take k bs
      | Send_errno e \<Rightarrow> e \<noteq> 0 \<and> outgoing v s' = outgoing v s) \<and>
     incoming v s' = incoming v s \<and> clock v s \<le> clock v s' \<and> polls v s' = polls v s)"

definition poll_law :: "'s os \<Rightarrow> 's os_view \<Rightarrow> bool" where
  "poll_law os v \<longleftrightarrow> (\<forall>op t s p s'. os_poll os op t s = (p, s') \<longrightarrow>
     (op = Poll_read \<longrightarrow> p \<noteq> Status_write) \<and> (op = Poll_write \<longrightarrow> p \<noteq> Status_read) \<and>
     incoming v s' = incoming v s \<and> outgoing v s' = outgoing v s \<and> clock v s \<le> clock v s' \<and> polls v s' = polls v s @ [t])"

definition now_law :: "'s os \<Rightarrow> 's os_view \<Rightarrow> bool" where
  "now_law os v \<longleftrightarrow> (\<forall>s t s'. os_now os s = (t, s') \<longrightarrow>
     t = clock v s \<and> incoming v s' = incoming v s \<and> outgoing v s' = outgoing v s \<and> clock v s \<le> clock v s' \<and> polls v s' = polls v s)"

definition os_ok :: "'s os \<Rightarrow> 's os_view \<Rightarrow> bool" where
  "os_ok os v \<longleftrightarrow> recv_law os v \<and> send_law os v \<and> poll_law os v \<and> now_law os v"

text \<open>What a read does: the bytes come off the front of the stream, and there are some exactly when the status is ok.\<close>

definition reads :: "'s os_view \<Rightarrow> nat \<Rightarrow> 's \<Rightarrow> io_status \<times> byte list \<Rightarrow> 's \<Rightarrow> bool" where
  "reads v n s r s' \<longleftrightarrow> incoming v s = snd r @ incoming v s' \<and> length (snd r) \<le> n \<and> (is_ok (fst r) \<longleftrightarrow> snd r \<noteq> []) \<and>
     outgoing v s' = outgoing v s \<and> clock v s \<le> clock v s'"

text \<open>What a write does: a prefix of the bytes is added to what the peer gets, and the rest is returned; ok means that something went.\<close>

definition writes :: "'s os_view \<Rightarrow> byte list \<Rightarrow> 's \<Rightarrow> io_status \<times> byte list \<Rightarrow> 's \<Rightarrow> bool" where
  "writes v bs s r s' \<longleftrightarrow>
     (\<exists>sent. bs = sent @ snd r \<and> outgoing v s' = outgoing v s @ sent \<and> (is_ok (fst r) \<longleftrightarrow> sent \<noteq> [])) \<and>
     incoming v s' = incoming v s \<and> clock v s \<le> clock v s'"

text \<open>The time-outs that a call with \<open>timeout\<close> passes to its polls.\<close>

definition in_time :: "int \<Rightarrow> int list \<Rightarrow> bool" where
  "in_time timeout ts \<longleftrightarrow> (\<forall>t\<in>set ts. if timeout > 0 then 0 < t \<and> t \<le> timeout else t = 0)"

text \<open>The same for connections that are accepted and for datagrams.\<close>

record 's accept_view =
  accepted :: "'s \<Rightarrow> nat list"

definition accept_law :: "'s accept_os \<Rightarrow> 's accept_view \<Rightarrow> bool" where
  "accept_law os v \<longleftrightarrow>
     (\<forall>s a s'. os_accept os s = (a, s') \<longrightarrow> accepted v s' = accepted v s @ (case a of Inl _ \<Rightarrow> [] | Inr (fd, _) \<Rightarrow> [fd])) \<and>
     (\<forall>b t s p s'. os_accept_poll os b t s = (p, s') \<longrightarrow> accepted v s' = accepted v s)"

record ('a, 's) udp_view =
  delivered :: "'s \<Rightarrow> ('a \<times> byte list) list"
  taken :: "'s \<Rightarrow> ('a \<times> byte list) list"

definition udp_law :: "('a, 's) udp_os \<Rightarrow> ('a, 's) udp_view \<Rightarrow> bool" where
  "udp_law os v \<longleftrightarrow>
     (\<forall>a bs s e s'. os_sendto os a bs s = (e, s') \<longrightarrow>
        e \<noteq> Some 0 \<and> delivered v s' = delivered v s @ (if e = None then [(a, bs)] else []) \<and> taken v s' = taken v s) \<and>
     (\<forall>n s r s'. os_recvfrom os n s = (r, s') \<longrightarrow>
        r \<noteq> Inl 0 \<and> taken v s' = taken v s @ (case r of Inl _ \<Rightarrow> [] | Inr d \<Rightarrow> [d]) \<and> delivered v s' = delivered v s) \<and>
     (\<forall>op t s p s'. os_udp_poll os op t s = (p, s') \<longrightarrow>
        (op = Poll_read \<longrightarrow> p \<noteq> Status_write) \<and> (op = Poll_write \<longrightarrow> p \<noteq> Status_read) \<and>
        delivered v s' = delivered v s \<and> taken v s' = taken v s)"

text \<open>
  A system for examples: the stream, the bytes sent, the clock and the polls.  A \<open>recv\<close> answers at most two bytes and every other
  call would block; \<open>send\<close> takes at most three bytes; every call takes a nanosecond.
\<close>

record demo =
  dm_in :: "byte list"
  dm_out :: "byte list"
  dm_clock :: int
  dm_polls :: "int list"
  dm_block :: bool

definition demo_os :: "demo os" where
  "demo_os =
     \<lparr>os_recv = \<lambda>n s. if dm_block s then (Recv_errno EAGAIN, s\<lparr>dm_block := False, dm_clock := dm_clock s + 1\<rparr>)
        else (Bytes (take (min n 2) (dm_in s)), s\<lparr>dm_in := drop (min n 2) (dm_in s), dm_block := True, dm_clock := dm_clock s + 1\<rparr>),
      os_send = \<lambda>bs s. (Sent (min 3 (length bs)), s\<lparr>dm_out := dm_out s @ take (min 3 (length bs)) bs, dm_clock := dm_clock s + 1\<rparr>),
      os_poll = \<lambda>op t s. (case op of Poll_read \<Rightarrow> Status_read | _ \<Rightarrow> Status_write, s\<lparr>dm_polls := dm_polls s @ [t], dm_clock := dm_clock s + 1\<rparr>),
      os_now = \<lambda>s. (dm_clock s, s)\<rparr>"

definition demo_view :: "demo os_view" where
  "demo_view = \<lparr>incoming = dm_in, outgoing = dm_out, clock = dm_clock, polls = dm_polls\<rparr>"

definition demo_start :: demo where
  "demo_start = \<lparr>dm_in = [1, 2, 3, 4, 5], dm_out = [], dm_clock = 0, dm_polls = [], dm_block = False\<rparr>"

section \<open>Statuses\<close>

lemma native_not_ok: "e \<noteq> 0 \<Longrightarrow> \<not> is_ok (make_io_status_from_native e)"
  by (simp add: make_io_status_from_native_def is_ok_def)

lemma status_of_simps [simp]: "is_ok (status_of k) \<longleftrightarrow> k = Kind_ok" "try_again (status_of k) \<longleftrightarrow> k = Kind_would_block_or_try_again"
  by (simp_all add: status_of_def is_ok_def try_again_def)

lemma again_not_ok: "try_again st \<Longrightarrow> \<not> is_ok st"
  by (simp add: try_again_def is_ok_def)

lemma poll_not_ok: "p \<noteq> Status_read \<Longrightarrow> p \<noteq> Status_write \<Longrightarrow> \<not> is_ok (make_io_status_from_poll_status p)"
  by (cases p) simp_all

section \<open>Reading\<close>

lemma os_okD:
  assumes "os_ok os v"
  shows "recv_law os v" and "send_law os v" and "poll_law os v" and "now_law os v"
  using assms by (simp_all add: os_ok_def)

lemma tcp_recv_spec:
  assumes "recv_law os v" "tcp_recv os n s = ((st, bs), s')"
  shows "incoming v s = bs @ incoming v s' \<and> length bs \<le> n \<and> (is_ok st \<longleftrightarrow> bs \<noteq> []) \<and> outgoing v s' = outgoing v s
    \<and> clock v s \<le> clock v s' \<and> polls v s' = polls v s"
proof (cases "os_recv os n s")
  case (Pair a s1)
  then show ?thesis
    using assms unfolding recv_law_def by (cases a) (force simp: tcp_recv_def native_not_ok split: if_splits)+
qed

lemma tcp_recv_reads:
  assumes "recv_law os v" "tcp_recv os n s = (r, s')"
  shows "reads v n s r s'" and "polls v s' = polls v s"
  using tcp_recv_spec [OF assms(1), of n s "fst r" "snd r" s'] assms(2) by (simp_all add: reads_def)

lemma read_after_poll_reads:
  assumes os: "os_ok os v" and "read_after_poll os n t c s = (r, c', s')"
  shows "reads v n s r s' \<and> polls v s' = polls v s @ [t]"
proof -
  obtain p s1 where p: "os_poll os Poll_read t s = (p, s1)"
    by fastforce
  then have l: "p \<noteq> Status_write" "incoming v s1 = incoming v s" "outgoing v s1 = outgoing v s" "clock v s \<le> clock v s1"
      "polls v s1 = polls v s @ [t]"
    using os_okD(3) [OF os] unfolding poll_law_def by blast+
  show ?thesis
  proof (cases "p = Status_read")
    case True
    obtain r' s2 where r: "tcp_recv os n s1 = (r', s2)"
      by fastforce
    then show ?thesis
      using tcp_recv_reads [OF os_okD(1) [OF os] r] assms(2) p l True by (auto simp: read_after_poll_def reads_def)
  next
    case False
    then show ?thesis
      using assms(2) p l poll_not_ok [OF False] by (auto simp: read_after_poll_def reads_def)
  qed
qed

lemma read_some_reads:
  assumes os: "os_ok os v" and "read_some_impl os n t c s = (r, c', s')"
  shows "reads v n s r s' \<and> (\<exists>ts. polls v s' = polls v s @ ts \<and> set ts \<subseteq> {t})"
proof (cases "m_is_read_ready c")
  case True
  obtain r1 s1 where r1: "tcp_recv os n s = (r1, s1)"
    by fastforce
  note l = tcp_recv_reads [OF os_okD(1) [OF os] r1]
  show ?thesis
  proof (cases "try_again (fst r1)")
    case again: True
    then have "read_after_poll os n t (c\<lparr>m_is_read_ready := False\<rparr>) s1 = (r, c', s')"
      using assms(2) True r1 by (simp add: read_some_impl_def)
    from read_after_poll_reads [OF os this] show ?thesis
      using l again_not_ok [OF again] by (auto simp: reads_def)
  next
    case False
    then show ?thesis
      using assms(2) True r1 l by (auto simp: read_some_impl_def)
  qed
next
  case False
  then show ?thesis
    using read_after_poll_reads [OF os, of n t c s r c' s'] assms(2) by (auto simp: read_some_impl_def)
qed

lemma duration_cast_nonneg: "0 \<le> d \<Longrightarrow> 0 \<le> duration_cast_ms d"
  by (simp add: duration_cast_ms_def)

lemma clock_read:
  assumes os: "os_ok os v" and "(if timeout > 0 then os_now os s else (start, s)) = (now, s1)" "start \<le> clock v s"
  shows "incoming v s1 = incoming v s" "outgoing v s1 = outgoing v s" "clock v s \<le> clock v s1" "polls v s1 = polls v s" "start \<le> now"
  using assms(2,3) os_okD(4) [OF os] unfolding now_law_def by (auto split: if_splits)

text \<open>One round of the loop reads some bytes and goes on, or ends the call without any.\<close>

lemma read_round:
  assumes os: "os_ok os v" and "length got < n" "start \<le> clock v s"
  shows "\<exists>st bs c' s' ts. reads v (n - length got) s (st, bs) s' \<and> polls v s' = polls v s @ ts \<and> in_time timeout ts
    \<and> read_loop os n timeout start got c s =
        (if is_ok st then read_loop os n timeout start (got @ bs) c' s' else Some ((st, got @ bs), c', s'))"
proof -
  obtain now s1 where s1: "(if timeout > 0 then os_now os s else (start, s)) = (now, s1)"
    by fastforce
  note l = clock_read [OF os s1 assms(3)]
  show ?thesis
  proof (cases "timeout > 0 \<and> duration_cast_ms (now - start) \<ge> timeout")
    case True
    then show ?thesis
      using s1 l assms(2)
      by (intro exI [of _ "status_of Kind_timeout"] exI [of _ "[]"] exI [of _ c] exI [of _ s1] exI [of _ "[]"])
        (simp add: read_loop.simps [of os _ timeout start got] reads_def in_time_def)
  next
    case False
    let ?t = "if timeout > 0 then timeout - duration_cast_ms (now - start) else 0"
    obtain st bs c2 s2 where r: "read_some_impl os (n - length got) ?t c s1 = ((st, bs), c2, s2)"
      by (metis prod.collapse)
    from read_some_reads [OF os r] obtain ts where
      rd: "reads v (n - length got) s1 (st, bs) s2" and ts: "polls v s2 = polls v s1 @ ts" "set ts \<subseteq> {?t}"
      by blast
    have "read_loop os n timeout start got c s =
        (if is_ok st then read_loop os n timeout start (got @ bs) c2 s2 else Some ((st, got @ bs), c2, s2))"
      using False s1 r assms(2) by (auto simp: read_loop.simps [of os n timeout start got])
    moreover have "in_time timeout ts"
      using ts(2) False l(5) duration_cast_nonneg [of "now - start"] by (auto simp: in_time_def)
    moreover have "reads v (n - length got) s (st, bs) s2"
      using rd l by (simp add: reads_def)
    ultimately show ?thesis
      using ts(1) l(4) by metis
  qed
qed

lemma read_loop_reads:
  assumes os: "os_ok os v"
  shows "length got \<le> n \<Longrightarrow> start \<le> clock v s \<Longrightarrow>
    \<exists>st bs c' s' ts. read_loop os n timeout start got c s = Some ((st, got @ bs), c', s') \<and> incoming v s = bs @ incoming v s'
      \<and> outgoing v s' = outgoing v s \<and> length (got @ bs) \<le> n \<and> (is_ok st \<longleftrightarrow> length (got @ bs) = n)
      \<and> polls v s' = polls v s @ ts \<and> in_time timeout ts"
proof (induction "n - length got" arbitrary: got c s rule: less_induct)
  case less
  show ?case
  proof (cases "length got < n")
    case False
    then show ?thesis
      using less.prems by (intro exI [of _ "status_of Kind_ok"] exI [of _ "[]"] exI [of _ c] exI [of _ s] exI [of _ "[]"])
        (simp add: read_loop.simps [of os _ timeout start got] in_time_def)
  next
    case True
    from read_round [OF os True less.prems(2)] obtain st bs c2 s2 ts where
      rd: "reads v (n - length got) s (st, bs) s2" and ts: "polls v s2 = polls v s @ ts" "in_time timeout ts"
      and eq: "read_loop os n timeout start got c s =
        (if is_ok st then read_loop os n timeout start (got @ bs) c2 s2 else Some ((st, got @ bs), c2, s2))"
      by metis
    show ?thesis
    proof (cases "is_ok st")
      case nok: False
      then show ?thesis
        using eq rd ts True
        by (intro exI [of _ st] exI [of _ bs] exI [of _ c2] exI [of _ s2] exI [of _ ts]) (auto simp: reads_def)
    next
      case ok: True
      then have "length bs > 0"
        using rd by (simp add: reads_def)
      then have dec: "n - length (got @ bs) < n - length got"
        unfolding length_append using True by linarith
      have "length (got @ bs) \<le> n" "start \<le> clock v s2"
        using rd less.prems True by (auto simp: reads_def)
      from less.hyps [OF dec this, of c2] show ?thesis
        using eq ok rd ts by (auto simp: reads_def in_time_def)
    qed
  qed
qed

section \<open>Writing\<close>

lemma tcp_send_writes:
  assumes "send_law os v" "bs \<noteq> []" "tcp_send os bs s = (r, s')"
  shows "writes v bs s r s'" and "polls v s' = polls v s"
proof -
  obtain a s1 where a: "os_send os bs s = (a, s1)"
    by fastforce
  then have l: "(case a of Sent k \<Rightarrow> k \<le> length bs \<and> (bs \<noteq> [] \<longrightarrow> 0 < k) \<and> outgoing v s1 = outgoing v s @ take k bs
      | Send_errno e \<Rightarrow> e \<noteq> 0 \<and> outgoing v s1 = outgoing v s)"
      "incoming v s1 = incoming v s" "clock v s \<le> clock v s1" "polls v s1 = polls v s"
    using assms(1) unfolding send_law_def by blast+
  have s': "s' = s1"
    using a assms(3) by (simp add: tcp_send_def split: send_answer.splits)
  show "polls v s' = polls v s"
    using l s' by simp
  show "writes v bs s r s'"
  proof (cases a)
    case (Sent k)
    then show ?thesis
      using l a s' assms(2,3) by (auto simp: tcp_send_def writes_def intro!: exI [of _ "take k bs"])
  next
    case (Send_errno e)
    then show ?thesis
      using l a s' assms(3) native_not_ok [of e] by (auto simp: tcp_send_def writes_def)
  qed
qed

lemma write_after_poll_writes:
  assumes os: "os_ok os v" and "bs \<noteq> []" and "write_after_poll os bs t c s = (r, c', s')"
  shows "writes v bs s r s' \<and> polls v s' = polls v s @ [t]"
proof -
  obtain p s1 where p: "os_poll os Poll_write t s = (p, s1)"
    by fastforce
  then have l: "p \<noteq> Status_read" "incoming v s1 = incoming v s" "outgoing v s1 = outgoing v s" "clock v s \<le> clock v s1"
      "polls v s1 = polls v s @ [t]"
    using os_okD(3) [OF os] unfolding poll_law_def by blast+
  show ?thesis
  proof (cases "p = Status_write")
    case True
    obtain r' s2 where r: "tcp_send os bs s1 = (r', s2)"
      by fastforce
    then show ?thesis
      using tcp_send_writes [OF os_okD(2) [OF os] assms(2) r] assms(3) p l True by (auto simp: write_after_poll_def writes_def)
  next
    case False
    then show ?thesis
      using assms(3) p l poll_not_ok [of p] by (auto simp: write_after_poll_def writes_def)
  qed
qed

lemma write_some_writes:
  assumes os: "os_ok os v" and bs: "bs \<noteq> []" and "write_some_impl os bs t c s = (r, c', s')"
  shows "writes v bs s r s' \<and> (\<exists>ts. polls v s' = polls v s @ ts \<and> set ts \<subseteq> {t})"
proof (cases "m_is_write_ready c")
  case True
  obtain r1 s1 where r1: "tcp_send os bs s = (r1, s1)"
    by fastforce
  note l = tcp_send_writes [OF os_okD(2) [OF os] bs r1]
  show ?thesis
  proof (cases "try_again (fst r1)")
    case again: True
    then have "write_after_poll os bs t (c\<lparr>m_is_write_ready := False\<rparr>) s1 = (r, c', s')"
      using assms(3) True r1 by (simp add: write_some_impl_def)
    from write_after_poll_writes [OF os bs this] show ?thesis
      using l again_not_ok [OF again] by (auto simp: writes_def)
  next
    case False
    then show ?thesis
      using assms(3) True r1 l by (auto simp: write_some_impl_def)
  qed
next
  case False
  then show ?thesis
    using write_after_poll_writes [OF os bs, of t c s r c' s'] assms(3) by (auto simp: write_some_impl_def)
qed

lemma write_round:
  assumes os: "os_ok os v" and "left \<noteq> []" "start \<le> clock v s"
  shows "\<exists>st rest c' s' ts. writes v left s (st, rest) s' \<and> polls v s' = polls v s @ ts \<and> in_time timeout ts
    \<and> write_loop os timeout start left c s =
        (if is_ok st then write_loop os timeout start rest c' s' else Some ((st, rest), c', s'))"
proof -
  obtain now s1 where s1: "(if timeout > 0 then os_now os s else (start, s)) = (now, s1)"
    by fastforce
  note l = clock_read [OF os s1 assms(3)]
  show ?thesis
  proof (cases "timeout > 0 \<and> duration_cast_ms (now - start) \<ge> timeout")
    case True
    then show ?thesis
      using s1 l assms(2)
      by (intro exI [of _ "status_of Kind_timeout"] exI [of _ left] exI [of _ c] exI [of _ s1] exI [of _ "[]"])
        (simp add: write_loop.simps [of os timeout start left] writes_def in_time_def)
  next
    case False
    let ?t = "if timeout > 0 then timeout - duration_cast_ms (now - start) else 0"
    obtain st rest c2 s2 where r: "write_some_impl os left ?t c s1 = ((st, rest), c2, s2)"
      by (metis prod.collapse)
    from write_some_writes [OF os assms(2) r] obtain ts where
      wr: "writes v left s1 (st, rest) s2" and ts: "polls v s2 = polls v s1 @ ts" "set ts \<subseteq> {?t}"
      by blast
    have "write_loop os timeout start left c s =
        (if is_ok st then write_loop os timeout start rest c2 s2 else Some ((st, rest), c2, s2))"
      using False s1 r assms(2) by (auto simp: write_loop.simps [of os timeout start left])
    moreover have "in_time timeout ts"
      using ts(2) False l(5) duration_cast_nonneg [of "now - start"] by (auto simp: in_time_def)
    moreover have "writes v left s (st, rest) s2"
      using wr l by (simp add: writes_def)
    ultimately show ?thesis
      using ts(1) l(4) by metis
  qed
qed

lemma write_loop_writes:
  assumes os: "os_ok os v"
  shows "start \<le> clock v s \<Longrightarrow>
    \<exists>st sent unsent c' s' ts. write_loop os timeout start left c s = Some ((st, unsent), c', s') \<and> left = sent @ unsent
      \<and> outgoing v s' = outgoing v s @ sent \<and> incoming v s' = incoming v s \<and> (is_ok st \<longleftrightarrow> unsent = [])
      \<and> polls v s' = polls v s @ ts \<and> in_time timeout ts"
proof (induction "length left" arbitrary: left c s rule: less_induct)
  case less
  show ?case
  proof (cases "left = []")
    case True
    then show ?thesis
      by (intro exI [of _ "status_of Kind_ok"] exI [of _ "[]"] exI [of _ c] exI [of _ s]) (simp add: write_loop.simps [of os _ _ "[]"] in_time_def)
  next
    case False
    from write_round [OF os False less.prems] obtain st rest c2 s2 ts where
      wr: "writes v left s (st, rest) s2" and ts: "polls v s2 = polls v s @ ts" "in_time timeout ts"
      and eq: "write_loop os timeout start left c s =
        (if is_ok st then write_loop os timeout start rest c2 s2 else Some ((st, rest), c2, s2))"
      by metis
    obtain sent where sent: "left = sent @ rest" "outgoing v s2 = outgoing v s @ sent" "is_ok st \<longleftrightarrow> sent \<noteq> []"
      using wr by (auto simp: writes_def)
    show ?thesis
    proof (cases "is_ok st")
      case nok: False
      then show ?thesis
        using eq wr sent ts False
        by (intro exI [of _ st] exI [of _ sent] exI [of _ rest] exI [of _ c2] exI [of _ s2] exI [of _ ts]) (auto simp: writes_def)
    next
      case ok: True
      have "length rest < length left" "start \<le> clock v s2"
        using ok sent wr less.prems by (auto simp: writes_def)
      from less.hyps [OF this, of c2] obtain st' sent' unsent c' s' ts' where
        ih: "write_loop os timeout start rest c2 s2 = Some ((st', unsent), c', s')" "rest = sent' @ unsent"
          "outgoing v s' = outgoing v s2 @ sent'" "incoming v s' = incoming v s2" "is_ok st' \<longleftrightarrow> unsent = []"
          "polls v s' = polls v s2 @ ts'" "in_time timeout ts'"
        by blast
      then show ?thesis
        using eq ok wr sent ts
        by (intro exI [of _ st'] exI [of _ "sent @ sent'"] exI [of _ unsent] exI [of _ c'] exI [of _ s'] exI [of _ "ts @ ts'"])
          (auto simp: writes_def in_time_def)
    qed
  qed
qed

section \<open>Properties\<close>

lemma demo_os_ok: "os_ok demo_os demo_view"
  by (auto simp: os_ok_def recv_law_def send_law_def poll_law_def now_law_def demo_os_def demo_view_def EAGAIN_def
      split: if_splits poll_op.splits)

text \<open>C36: a TCP client neither loses, repeats nor reorders bytes, and its calls return.  \<open>read_exact\<close> returns with the next bytes of
  the peer's stream, in order: all that fit the buffer exactly when the status is ok, otherwise those that came before the error,
  the end of the stream or the time-out.  \<open>write_all\<close> returns with the bytes that were not sent, none exactly when the status is
  ok, and the peer gets just the others.  With a time-out every poll waits for a positive time of at most the time-out, never
  for ever; without one every poll waits without limit.\<close>

theorem tcp_transfers_bytes:
  assumes "os_ok os v"
  shows "(\<exists>st bs c' s' ts. read_exact os n timeout c s = Some ((st, bs), c', s')
      \<and> incoming v s = bs @ incoming v s' \<and> outgoing v s' = outgoing v s \<and> length bs \<le> n \<and> (is_ok st \<longleftrightarrow> length bs = n)
      \<and> polls v s' = polls v s @ ts \<and> (\<forall>t\<in>set ts. if timeout > 0 then 0 < t \<and> t \<le> timeout else t = 0))
    \<and> (\<exists>st sent unsent c' s' ts. write_all os buf timeout c s = Some ((st, unsent), c', s')
      \<and> buf = sent @ unsent \<and> outgoing v s' = outgoing v s @ sent \<and> incoming v s' = incoming v s \<and> (is_ok st \<longleftrightarrow> unsent = [])
      \<and> polls v s' = polls v s @ ts \<and> (\<forall>t\<in>set ts. if timeout > 0 then 0 < t \<and> t \<le> timeout else t = 0))"
proof -
  obtain start s1 where now: "os_now os s = (start, s1)"
    by fastforce
  then have l: "start \<le> clock v s1" "incoming v s1 = incoming v s" "outgoing v s1 = outgoing v s" "polls v s1 = polls v s"
    using os_okD(4) [OF assms] unfolding now_law_def by fastforce+
  have "\<exists>st bs c' s' ts. read_exact os n timeout c s = Some ((st, bs), c', s')
      \<and> incoming v s = bs @ incoming v s' \<and> outgoing v s' = outgoing v s \<and> length bs \<le> n \<and> (is_ok st \<longleftrightarrow> length bs = n)
      \<and> polls v s' = polls v s @ ts \<and> in_time timeout ts"
    using read_loop_reads [OF assms, of "[]" n start s1 timeout c] l now
    by (cases "n = 0") (auto simp: read_exact_def read_exact_impl_def in_time_def)
  moreover have "\<exists>st sent unsent c' s' ts. write_all os buf timeout c s = Some ((st, unsent), c', s')
      \<and> buf = sent @ unsent \<and> outgoing v s' = outgoing v s @ sent \<and> incoming v s' = incoming v s \<and> (is_ok st \<longleftrightarrow> unsent = [])
      \<and> polls v s' = polls v s @ ts \<and> in_time timeout ts"
    using write_loop_writes [OF assms l(1), of timeout buf c] l now
    by (cases "buf = []") (auto simp: write_all_def write_all_impl_def in_time_def)
  ultimately show ?thesis
    unfolding in_time_def by blast
qed

theorem tcp_transfers_bytes_witness:
  "os_ok demo_os demo_view \<and>
   (\<exists>st bs c' s'. read_exact demo_os 4 100 (tcp_client_members (Some 1) make_uninitialised None) demo_start = Some ((st, bs), c', s') \<and> [1, 2, 3, 4, 5] = bs @ dm_in s'
      \<and> (is_ok st \<longleftrightarrow> length bs = 4))"
  using demo_os_ok tcp_transfers_bytes [OF demo_os_ok, of 4 100 "tcp_client_members (Some 1) make_uninitialised None" demo_start "[]"]
  by (auto simp: demo_view_def demo_start_def)

text \<open>\<open>connect\<close> runs once: its result is remembered, errors and time-outs included.\<close>

lemma tcp_connect_remembers:
  assumes "tcp_connect cret errno p so_error c = (st, c')"
  shows "tcp_connect cret' errno' p' so_error' c' = (st, c')"
  using assms by (auto simp: tcp_connect_def Let_def split: option.splits)

text \<open>When \<open>getsockopt\<close> itself fails, the connection counts as established.\<close>

lemma tcp_connect_getsockopt_failure:
  assumes "m_connect_status c = None"
  shows "fst (tcp_connect (-1) EINPROGRESS Status_write None c) = Connected"
  using assms by (simp add: tcp_connect_def)

text \<open>A server hands out each connection that the kernel accepts, once and in order.\<close>

lemma tcp_accept_hands_out:
  assumes "accept_law os v" and "tcp_accept os timeout c s = (r, c', s')"
  shows "accepted v s' = accepted v s @ (case r of Inl _ \<Rightarrow> [] | Inr (fd, _) \<Rightarrow> [fd])"
proof -
  have now: "accepted v s2 = accepted v s1 @ (case q of Inl _ \<Rightarrow> [] | Inr (fd, _) \<Rightarrow> [fd])" if "accept_now os c s1 = (q, s2)" for c q s1 s2
  proof -
    obtain a s3 where a: "os_accept os s1 = (a, s3)"
      by fastforce
    then have "accepted v s3 = accepted v s1 @ (case a of Inl _ \<Rightarrow> [] | Inr (fd, _) \<Rightarrow> [fd])"
      using assms(1) unfolding accept_law_def by blast
    then show ?thesis
      using that a by (cases a) (auto simp: accept_now_def)
  qed
  have after: "accepted v s2 = accepted v s1 @ (case q of Inl _ \<Rightarrow> [] | Inr (fd, _) \<Rightarrow> [fd])"
    if "accept_after_poll os timeout c s1 = (q, c', s2)" for q s1 s2 c c'
  proof -
    obtain p s3 where p: "os_accept_poll os (srv_cancelled c) timeout s1 = (p, s3)"
      by fastforce
    then have "accepted v s3 = accepted v s1"
      using assms(1) unfolding accept_law_def by blast
    then show ?thesis
      using that p now [of c s3] by (auto simp: accept_after_poll_def split: if_splits prod.splits)
  qed
  obtain q s1 where q: "accept_now os c s = (q, s1)"
    by fastforce
  show ?thesis
  proof (cases "srv_read_ready c \<and> (\<exists>st. q = Inl st \<and> try_again st)")
    case True
    then have "accept_after_poll os timeout (c\<lparr>srv_read_ready := False\<rparr>) s1 = (r, c', s')" "accepted v s1 = accepted v s"
      using q assms(2) now [OF q] by (auto simp: tcp_accept_def)
    then show ?thesis
      using after [of "c\<lparr>srv_read_ready := False\<rparr>" s1] by simp
  next
    case False
    then show ?thesis
      using q assms(2) now [OF q] after [of c s] by (cases "srv_read_ready c"; cases q) (auto simp: tcp_accept_def split: if_splits)
  qed
qed

text \<open>A server that is moved after \<open>shutdown\<close> accepts again: the stop source stays behind.\<close>

lemma tcp_server_move_forgets_shutdown: "\<not> srv_cancelled (fst (tcp_server_move (tcp_server_shutdown c)))"
  by (simp add: tcp_server_move_def)

text \<open>
  A peer sends a datagram exactly when the status is ok, and returns the datagram that it takes; an unbound peer and an empty
  buffer take none.
\<close>

lemma udp_sendto_spec:
  assumes "udp_law os v" "udp_sendto os a bs s = (st, s')"
  shows "delivered v s' = delivered v s @ (if is_ok st then [(a, bs)] else []) \<and> taken v s' = taken v s"
proof -
  obtain e s1 where e: "os_sendto os a bs s = (e, s1)"
    by fastforce
  then have "e \<noteq> Some 0 \<and> delivered v s1 = delivered v s @ (if e = None then [(a, bs)] else []) \<and> taken v s1 = taken v s"
    using assms(1) unfolding udp_law_def by blast
  then show ?thesis
    using assms(2) e native_not_ok by (cases e) (auto simp: udp_sendto_def)
qed

lemma udp_write_after_poll_spec:
  assumes "udp_law os v" "udp_write_after_poll os a bs timeout c s = (st, c', s')"
  shows "delivered v s' = delivered v s @ (if is_ok st then [(a, bs)] else []) \<and> taken v s' = taken v s"
proof -
  obtain p s1 where p: "os_udp_poll os Poll_write timeout s = (p, s1)"
    by fastforce
  then have l: "p \<noteq> Status_read" "delivered v s1 = delivered v s" "taken v s1 = taken v s"
    using assms(1) unfolding udp_law_def by blast+
  show ?thesis
  proof (cases "p = Status_write")
    case True
    obtain r s2 where r: "udp_sendto os a bs s1 = (r, s2)"
      by fastforce
    then show ?thesis
      using udp_sendto_spec [OF assms(1) r] l True p assms(2) by (simp add: udp_write_after_poll_def)
  next
    case False
    then show ?thesis
      using l p assms(2) poll_not_ok [of p] by (auto simp: udp_write_after_poll_def)
  qed
qed

lemma udp_writes_datagram:
  assumes "udp_law os v" and "bs \<noteq> []" and "write_to_impl os a bs timeout c s = (st, c', s')"
  shows "delivered v s' = delivered v s @ (if is_ok st then [(a, bs)] else [])"
proof (cases "udp_write_ready c")
  case True
  obtain r s1 where r: "udp_sendto os a bs s = (r, s1)"
    by fastforce
  note sp = udp_sendto_spec [OF assms(1) r]
  show ?thesis
  proof (cases "try_again r")
    case again: True
    then have "udp_write_after_poll os a bs timeout (c\<lparr>udp_write_ready := False\<rparr>) s1 = (st, c', s')"
      using assms(2,3) True r by (simp add: write_to_impl_def)
    from udp_write_after_poll_spec [OF assms(1) this] show ?thesis
      using sp again_not_ok [OF again] by simp
  next
    case False
    then show ?thesis
      using assms(2,3) True r sp by (auto simp: write_to_impl_def)
  qed
next
  case False
  then show ?thesis
    using udp_write_after_poll_spec [OF assms(1), of a bs timeout c s st c' s'] assms(2,3) by (simp add: write_to_impl_def)
qed

lemma udp_unbound: "\<not> m_bound c \<Longrightarrow> read_from_impl os n timeout c s = ((status_of Kind_udp_not_bound, None, []), c, s)"
  by (simp add: read_from_impl_def)

end
