(* ===== verification/NetTls.thy ===== *)
theory NetTls
  imports NetClient
begin

text \<open>
  TLS connections: \<open>tls::client\<close> of \<open>include/coro/net/tls/client.hpp\<close> and \<open>src/net/tls/client.cpp\<close>, \<open>tls::server\<close>, \<open>tls::context\<close> and the
  statuses of \<open>include/coro/net/tls\<close> and \<open>src/net/tls\<close>.  OpenSSL is an argument, with what its documentation promises as laws.
\<close>

section \<open>Statuses\<close>

text \<open>
  What \<open>SSL_get_error\<close> answers, with a case for codes that the library has no name for.  The statuses of \<open>recv\<close> and \<open>send\<close> are these codes
  and three of their own: \<open>ok\<close> is \<open>SSL_ERROR_NONE\<close>, \<open>closed\<close> is \<open>SSL_ERROR_ZERO_RETURN\<close>, \<open>error\<close> is \<open>SSL_ERROR_SSL\<close>.
\<close>

datatype ssl_error =
    Ssl_none
  | Ssl_ssl
  | Ssl_want_read
  | Ssl_want_write
  | Ssl_want_x509_lookup
  | Ssl_syscall
  | Ssl_zero_return
  | Ssl_want_connect
  | Ssl_want_accept
  | Ssl_unlisted int

datatype recv_status = Recv_of ssl_error | Recv_buffer_is_empty | Recv_timeout | Recv_cancelled

datatype send_status = Send_of ssl_error | Send_buffer_is_empty | Send_timeout | Send_cancelled

fun recv_status_to_string :: "recv_status \<Rightarrow> string" where
  "recv_status_to_string (Recv_of Ssl_none) = ''ok''"
| "recv_status_to_string Recv_buffer_is_empty = ''buffer_is_empty''"
| "recv_status_to_string Recv_timeout = ''timeout''"
| "recv_status_to_string (Recv_of Ssl_zero_return) = ''closed''"
| "recv_status_to_string (Recv_of Ssl_ssl) = ''error''"
| "recv_status_to_string Recv_cancelled = ''cancelled''"
| "recv_status_to_string (Recv_of Ssl_want_read) = ''want_read''"
| "recv_status_to_string (Recv_of Ssl_want_write) = ''want_write''"
| "recv_status_to_string (Recv_of Ssl_want_connect) = ''want_connect''"
| "recv_status_to_string (Recv_of Ssl_want_accept) = ''want_accept''"
| "recv_status_to_string (Recv_of Ssl_want_x509_lookup) = ''want_x509_lookup''"
| "recv_status_to_string (Recv_of Ssl_syscall) = ''error_syscall''"
| "recv_status_to_string (Recv_of (Ssl_unlisted _)) = ''unknown''"

fun send_status_to_string :: "send_status \<Rightarrow> string" where
  "send_status_to_string (Send_of Ssl_none) = ''ok''"
| "send_status_to_string Send_buffer_is_empty = ''buffer_is_empty''"
| "send_status_to_string Send_timeout = ''timeout''"
| "send_status_to_string (Send_of Ssl_zero_return) = ''closed''"
| "send_status_to_string (Send_of Ssl_ssl) = ''error''"
| "send_status_to_string Send_cancelled = ''cancelled''"
| "send_status_to_string (Send_of Ssl_want_read) = ''want_read''"
| "send_status_to_string (Send_of Ssl_want_write) = ''want_write''"
| "send_status_to_string (Send_of Ssl_want_connect) = ''want_connect''"
| "send_status_to_string (Send_of Ssl_want_accept) = ''want_accept''"
| "send_status_to_string (Send_of Ssl_want_x509_lookup) = ''want_x509_lookup''"
| "send_status_to_string (Send_of Ssl_syscall) = ''error_syscall''"
| "send_status_to_string (Send_of (Ssl_unlisted _)) = ''unknown''"

datatype connection_status =
    Tls_connected
  | Tls_not_connected
  | Tls_context_required
  | Tls_resource_allocation_failed
  | Tls_set_fd_failure
  | Tls_handshake_failed
  | Tls_timeout
  | Tls_poll_error
  | Tls_unexpected_close
  | Tls_invalid_ip_address
  | Tls_error

fun connection_status_to_string :: "connection_status \<Rightarrow> string" where
  "connection_status_to_string Tls_connected = ''connected''"
| "connection_status_to_string Tls_not_connected = ''not_connected''"
| "connection_status_to_string Tls_context_required = ''context_required''"
| "connection_status_to_string Tls_resource_allocation_failed = ''resource_allocation_failed''"
| "connection_status_to_string Tls_set_fd_failure = ''set_fd_failure''"
| "connection_status_to_string Tls_handshake_failed = ''handshake_failed''"
| "connection_status_to_string Tls_timeout = ''timeout''"
| "connection_status_to_string Tls_poll_error = ''poll_error''"
| "connection_status_to_string Tls_unexpected_close = ''unexpected_close''"
| "connection_status_to_string Tls_invalid_ip_address = ''invalid_ip_address''"
| "connection_status_to_string Tls_error = ''error''"

section \<open>The library and the system\<close>

text \<open>
  The calls of OpenSSL and of the scheduler, each over a state of their own.  A call that fails answers what \<open>SSL_get_error\<close> says of it;
  \<open>tls_poll\<close> is the scheduler's \<open>poll\<close> on the socket.
\<close>

datatype shutdown_answer = Shutdown_complete | Shutdown_progress ssl_error | Shutdown_failed

record 's tls_os =
  ssl_new :: "'s \<Rightarrow> ptr \<times> 's"
  ssl_set_fd :: "'s \<Rightarrow> bool \<times> 's"
  ssl_set_state :: "bool \<Rightarrow> 's \<Rightarrow> 's"
  ssl_connect :: "'s \<Rightarrow> ssl_error option \<times> 's"
  ssl_read :: "nat \<Rightarrow> 's \<Rightarrow> (ssl_error + byte list) \<times> 's"
  ssl_write :: "byte list \<Rightarrow> 's \<Rightarrow> (ssl_error + nat) \<times> 's"
  ssl_shutdown :: "'s \<Rightarrow> shutdown_answer \<times> 's"
  tls_poll :: "poll_op \<Rightarrow> int \<Rightarrow> 's \<Rightarrow> poll_status \<times> 's"
  tls_now :: "'s \<Rightarrow> int \<times> 's"

section \<open>tls::client\<close>

datatype tls_connection_type = Type_connect | Type_accept

record tls_info =
  m_tls_connection_type :: tls_connection_type
  m_tls_ptr :: ptr
  m_tls_error :: bool
  m_tls_connection_status :: "connection_status option"

definition tls_info_new :: "tls_connection_type \<Rightarrow> tls_info" where
  "tls_info_new t = \<lparr>m_tls_connection_type = t, m_tls_ptr = None, m_tls_error = False, m_tls_connection_status = None\<rparr>"

text \<open>What a move leaves behind; moving an \<open>optional\<close> leaves it as it is.\<close>

definition tls_info_moved :: "tls_info \<Rightarrow> tls_info" where
  "tls_info_moved i = i\<lparr>m_tls_connection_type := Type_connect, m_tls_ptr := None, m_tls_error := False\<rparr>"

text \<open>The members of the client but \<open>m_socket\<close>, which is a socket of theory \<open>NetSocket\<close>.\<close>

record tls_client =
  tls_scheduler :: ptr
  tls_ctx :: ptr
  tls_endpoint :: socket_address
  tls_connect_status :: "connection_status option"
  m_tls_info :: tls_info
  m_shutdown :: bool

definition tls_client_new :: "ptr \<Rightarrow> ptr \<Rightarrow> socket_address \<Rightarrow> tls_client result" where
  "tls_client_new sch ctx e =
     (if sch = None then Inl (Runtime_error ''tls::client cannot have nullptr scheduler'')
      else if ctx = None then Inl (Runtime_error ''tls::client cannot have nullptr tls_ctx'')
      else Inr \<lparr>tls_scheduler = sch, tls_ctx = ctx, tls_endpoint = e, tls_connect_status = None,
        m_tls_info = tls_info_new Type_connect, m_shutdown = False\<rparr>)"

definition tls_client_accepted :: "ptr \<Rightarrow> ptr \<Rightarrow> socket_address \<Rightarrow> tls_client" where
  "tls_client_accepted sch ctx e =
     \<lparr>tls_scheduler = sch, tls_ctx = ctx, tls_endpoint = e, tls_connect_status = Some Tls_connected,
      m_tls_info = tls_info_new Type_accept, m_shutdown = False\<rparr>"

definition tls_client_left :: "tls_client \<Rightarrow> tls_client" where
  "tls_client_left other =
     other\<lparr>tls_scheduler := None, tls_ctx := None, tls_connect_status := None, m_tls_info := tls_info_moved (m_tls_info other)\<rparr>"

definition tls_client_move :: "tls_client \<Rightarrow> tls_client \<times> tls_client" where
  "tls_client_move other = (other\<lparr>m_shutdown := False\<rparr>, tls_client_left other)"

text \<open>Move assignment with the connection that it frees.\<close>

definition tls_client_move_assign :: "tls_client \<Rightarrow> tls_client \<Rightarrow> tls_client \<times> tls_client \<times> ptr" where
  "tls_client_move_assign c other =
     (other\<lparr>m_shutdown := m_shutdown c\<rparr>, tls_client_left other, m_tls_ptr (m_tls_info c))"

subsection \<open>recv and send\<close>

text \<open>
  The head of the loops of \<open>recv\<close> and \<open>send\<close>: what is left of the time-out, \<^term>\<open>None\<close> when it is used up, and the new start.
\<close>

definition take_time :: "'s tls_os \<Rightarrow> int option \<Rightarrow> bool \<Rightarrow> int \<Rightarrow> int \<Rightarrow> 's \<Rightarrow> (int option \<times> int \<times> 's) option" where
  "take_time os timeout first start stop s =
     (case timeout of
        None \<Rightarrow> Some (None, start, s)
      | Some t \<Rightarrow>
          (let t' = (if first then t else t - duration_cast_ms (stop - start))
           in if \<not> first \<and> t' \<le> 0 then None
              else case tls_now os s of (now, s1) \<Rightarrow> Some (Some t', now, s1)))"

definition stop_time :: "'s tls_os \<Rightarrow> int option \<Rightarrow> int \<Rightarrow> 's \<Rightarrow> int \<times> 's" where
  "stop_time os timeout stop s = (case timeout of None \<Rightarrow> (stop, s) | Some _ \<Rightarrow> tls_now os s)"

definition value_or_zero :: "int option \<Rightarrow> int" where
  "value_or_zero timeout = (case timeout of None \<Rightarrow> 0 | Some t \<Rightarrow> t)"

partial_function (option) tls_recv_loop ::
  "'s tls_os \<Rightarrow> nat \<Rightarrow> int option \<Rightarrow> poll_op \<Rightarrow> bool \<Rightarrow> int \<Rightarrow> int \<Rightarrow> 's \<Rightarrow> ((recv_status \<times> byte list) \<times> 's) option" where
  "tls_recv_loop os n timeout op first start stop s =
     (case take_time os timeout first start stop s of
        None \<Rightarrow> Some ((Recv_timeout, []), s)
      | Some (timeout', start', s1) \<Rightarrow>
          (case tls_poll os op (value_or_zero timeout') s1 of
             (Status_write, s2) \<Rightarrow> tls_recv_loop os n timeout' op False start' stop s2
           | (Status_timeout, s2) \<Rightarrow> Some ((Recv_timeout, []), s2)
           | (Status_error, s2) \<Rightarrow> Some ((Recv_of Ssl_ssl, []), s2)
           | (Status_closed, s2) \<Rightarrow> Some ((Recv_of Ssl_zero_return, []), s2)
           | (Status_cancelled, s2) \<Rightarrow> Some ((Recv_cancelled, []), s2)
           | (Status_read, s2) \<Rightarrow>
               (case ssl_read os n s2 of
                  (Inl e, s3) \<Rightarrow>
                    (case stop_time os timeout' stop s3 of
                       (stop', s4) \<Rightarrow>
                         if e = Ssl_want_read then tls_recv_loop os n timeout' Poll_read False start' stop' s4
                         else if e = Ssl_want_write then tls_recv_loop os n timeout' Poll_write False start' stop' s4
                         else Some ((Recv_of e, []), s4))
                | (Inr bs, s3) \<Rightarrow> (case stop_time os timeout' stop s3 of (stop', s4) \<Rightarrow> Some ((Recv_of Ssl_none, bs), s4)))))"

definition tls_recv :: "'s tls_os \<Rightarrow> nat \<Rightarrow> int option \<Rightarrow> 's \<Rightarrow> ((recv_status \<times> byte list) \<times> 's) option" where
  "tls_recv os n timeout s =
     (if n = 0 then Some ((Recv_buffer_is_empty, []), s) else tls_recv_loop os n timeout Poll_read True 0 0 s)"



subsection \<open>Handshake, connect and shutdown\<close>

partial_function (option) handshake_loop :: "'s tls_os \<Rightarrow> int \<Rightarrow> 's \<Rightarrow> (connection_status \<times> 's) option" where
  "handshake_loop os timeout s =
     (case ssl_connect os s of
        (None, s1) \<Rightarrow> Some (Tls_connected, s1)
      | (Some e, s1) \<Rightarrow>
          if e \<noteq> Ssl_want_write \<and> e \<noteq> Ssl_want_read then Some (Tls_handshake_failed, s1)
          else (case tls_poll os (if e = Ssl_want_write then Poll_write else Poll_read) timeout s1 of
                  (Status_timeout, s2) \<Rightarrow> Some (Tls_timeout, s2)
                | (Status_error, s2) \<Rightarrow> Some (Tls_poll_error, s2)
                | (Status_closed, s2) \<Rightarrow> Some (Tls_unexpected_close, s2)
                | (Status_cancelled, s2) \<Rightarrow> Some (Tls_unexpected_close, s2)
                | (_, s2) \<Rightarrow> handshake_loop os timeout s2))"

definition handshake :: "'s tls_os \<Rightarrow> int \<Rightarrow> tls_client \<Rightarrow> 's \<Rightarrow> (connection_status \<times> tls_client \<times> 's) option" where
  "handshake os timeout c s =
     (let (p, s1) = ssl_new os s; c1 = c\<lparr>m_tls_info := (m_tls_info c)\<lparr>m_tls_ptr := p\<rparr>\<rparr>
      in if p = None then Some (Tls_resource_allocation_failed, c1, s1)
         else let (ok, s2) = ssl_set_fd os s1
           in if \<not> ok then Some (Tls_set_fd_failure, c1, s2)
              else map_option (\<lambda>(st, s3). (st, c1, s3))
                (handshake_loop os timeout (ssl_set_state os (m_tls_connection_type (m_tls_info c) = Type_accept) s2)))"

text \<open>\<open>return_value\<close> of \<open>connect\<close>; \<open>cret\<close>, \<open>errno\<close> and \<open>so_error\<close> are as in \<^const>\<open>tcp_connect\<close>.\<close>

definition tls_remember :: "connection_status \<Rightarrow> tls_client \<Rightarrow> tls_client" where
  "tls_remember st c = c\<lparr>tls_connect_status := Some st\<rparr>"

definition tls_connect ::
  "'s tls_os \<Rightarrow> int \<Rightarrow> int \<Rightarrow> int option \<Rightarrow> int \<Rightarrow> tls_client \<Rightarrow> 's \<Rightarrow> (connection_status \<times> tls_client \<times> 's) option" where
  "tls_connect os cret errno so_error timeout c s =
     (let shake = (\<lambda>s. map_option (\<lambda>(st, c', s'). (st, tls_remember st c', s')) (handshake os timeout c s));
          return_value = (\<lambda>st s. Some (st, tls_remember st c, s))
      in case tls_connect_status c of
           Some st \<Rightarrow> Some (st, c, s)
         | None \<Rightarrow>
             if tls_ctx c = None then Some (Tls_context_required, c, s)
             else if cret = 0 then shake s
             else if cret = -1 \<and> (errno = EAGAIN \<or> errno = EINPROGRESS)
             then (case tls_poll os Poll_write timeout s of
                     (p, s1) \<Rightarrow>
                       if p = Status_write
                       then (if (case so_error of Some e \<Rightarrow> e | None \<Rightarrow> 0) = 0 then shake s1 else return_value Tls_error s1)
                       else if p = Status_timeout then return_value Tls_timeout s1
                       else return_value Tls_error s1)
             else return_value Tls_error s)"

partial_function (option) tls_shutdown_and_free :: "'s tls_os \<Rightarrow> int \<Rightarrow> 's \<Rightarrow> 's option" where
  "tls_shutdown_and_free os timeout s =
     (case ssl_shutdown os s of
        (Shutdown_complete, s1) \<Rightarrow> Some s1
      | (Shutdown_progress e, s1) \<Rightarrow>
          if e \<noteq> Ssl_want_write \<and> e \<noteq> Ssl_want_read then Some s1
          else (case tls_poll os (if e = Ssl_want_write then Poll_write else Poll_read) timeout s1 of
                  (p, s2) \<Rightarrow>
                    if p \<in> {Status_timeout, Status_error, Status_closed, Status_cancelled} then Some s2
                    else tls_shutdown_and_free os timeout s2)
      | (Shutdown_failed, s1) \<Rightarrow> Some s1)"

definition tls_shutdown :: "'s tls_os \<Rightarrow> int \<Rightarrow> tls_client \<Rightarrow> 's \<Rightarrow> (tls_client \<times> 's) option" where
  "tls_shutdown os timeout c s =
     (if m_shutdown c then Some (c, s)
      else let c1 = c\<lparr>m_shutdown := True\<rparr>
        in if m_tls_ptr (m_tls_info c) \<noteq> None \<and> \<not> m_tls_error (m_tls_info c)
           then map_option (\<lambda>s1. (c1, s1)) (tls_shutdown_and_free os timeout s)
           else Some (c1, s))"

text \<open>The destructor waits for \<open>shutdown\<close> with 30 seconds, in milliseconds, and answers the connection that it then frees.\<close>

definition tls_client_destructor :: "'s tls_os \<Rightarrow> tls_client \<Rightarrow> 's \<Rightarrow> (ptr \<times> 's) option" where
  "tls_client_destructor os c s =
     (if m_shutdown c then Some (m_tls_ptr (m_tls_info c), s)
      else map_option (\<lambda>(c1, s1). (m_tls_ptr (m_tls_info c1), s1)) (tls_shutdown os 30000 c s))"

section \<open>tls::server and tls::context\<close>

record tls_server =
  tsrv_scheduler :: ptr
  tsrv_ctx :: ptr
  tsrv_backlog :: int
  tsrv_cancelled :: bool

definition tls_server_new :: "ptr \<Rightarrow> ptr \<Rightarrow> int \<Rightarrow> tls_server result" where
  "tls_server_new sch ctx backlog =
     (if sch = None then Inl (Runtime_error ''tls::server cannot have a nullptr scheduler'')
      else if ctx = None then Inl (Runtime_error ''tls::server cannot have a nullptr tls_ctx'')
      else Inr \<lparr>tsrv_scheduler = sch, tsrv_ctx = ctx, tsrv_backlog = backlog, tsrv_cancelled = False\<rparr>)"

definition tls_server_move :: "tls_server \<Rightarrow> tls_server \<times> tls_server" where
  "tls_server_move other = (other\<lparr>tsrv_cancelled := False\<rparr>, other\<lparr>tsrv_scheduler := None, tsrv_ctx := None\<rparr>)"

definition tls_server_move_assign :: "tls_server \<Rightarrow> tls_server \<Rightarrow> tls_server \<times> tls_server" where
  "tls_server_move_assign c other =
     (other\<lparr>tsrv_cancelled := tsrv_cancelled c\<rparr>, other\<lparr>tsrv_scheduler := None, tsrv_ctx := None\<rparr>)"

definition tls_server_shutdown :: "tls_server \<Rightarrow> tls_server" where
  "tls_server_shutdown c = c\<lparr>tsrv_cancelled := True\<rparr>"

text \<open>
  \<open>accept\<close>: the socket of the client holds what \<open>::accept\<close> answered, \<^term>\<open>None\<close> for a failure, and the handshake is begun in either case;
  its status is thrown away.
\<close>

definition tls_accept ::
  "'s tls_os \<Rightarrow> int \<Rightarrow> nat option \<times> socket_address \<Rightarrow> tls_server \<Rightarrow> 's \<Rightarrow> ((nat option \<times> tls_client) \<times> 's) option" where
  "tls_accept os timeout answer c s =
     map_option (\<lambda>(hstatus, k, s1). ((fst answer, k), s1))
       (handshake os timeout (tls_client_accepted (tsrv_scheduler c) (tsrv_ctx c) (snd answer)) s)"

text \<open>
  The context: the count of contexts, the number of times the library was initialised, and the \<open>SSL_CTX\<close> objects made and not freed,
  with what has been set on them.  An exception in the body of a constructor runs no destructor, except in the delegating
  constructor after its target has returned.  Arguments are what \<open>SSL_CTX_new\<close> answers and whether the certificate, the key and
  their match are accepted.
\<close>

record ssl_config =
  cfg_no_sslv3 :: bool
  cfg_verify_peer :: bool
  cfg_min_tls12 :: bool
  cfg_certificate :: "string option"
  cfg_private_key :: "string option"

record tls_lib =
  g_tls_context_count :: "64 word"
  lib_inits :: nat
  ssl_ctxs :: "nat \<Rightarrow> ssl_config option"

definition tls_context_new :: "bool \<Rightarrow> ptr \<Rightarrow> tls_lib \<Rightarrow> nat result \<times> tls_lib" where
  "tls_context_new verify_peer p g =
     (let g1 = (if g_tls_context_count g = 0 then g\<lparr>lib_inits := Suc (lib_inits g)\<rparr> else g);
          g2 = g1\<lparr>g_tls_context_count := g_tls_context_count g1 + 1\<rparr>
      in case p of
           None \<Rightarrow> (Inl (Runtime_error ''Failed to initialize OpenSSL Context object.''), g2)
         | Some x \<Rightarrow>
             (Inr x, g2\<lparr>ssl_ctxs := (ssl_ctxs g2)(x := Some \<lparr>cfg_no_sslv3 = True, cfg_verify_peer = verify_peer, cfg_min_tls12 = True,
                cfg_certificate = None, cfg_private_key = None\<rparr>)\<rparr>))"

definition tls_context_destructor :: "nat \<Rightarrow> tls_lib \<Rightarrow> tls_lib" where
  "tls_context_destructor x g = g\<lparr>ssl_ctxs := (ssl_ctxs g)(x := None)\<rparr>"

definition tls_context_certificate ::
  "bool \<Rightarrow> ptr \<Rightarrow> bool \<Rightarrow> bool \<Rightarrow> bool \<Rightarrow> string \<Rightarrow> string \<Rightarrow> tls_lib \<Rightarrow> nat result \<times> tls_lib" where
  "tls_context_certificate verify_peer p cert_ok key_ok match certificate private_key g =
     (case tls_context_new verify_peer p g of
        (Inl e, g1) \<Rightarrow> (Inl e, g1)
      | (Inr x, g1) \<Rightarrow>
          if \<not> cert_ok then (Inl (Runtime_error (''Failed to load certificate file '' @ certificate)), tls_context_destructor x g1)
          else if \<not> key_ok then (Inl (Runtime_error (''Failed to load private key file '' @ private_key)), tls_context_destructor x g1)
          else if \<not> match then (Inl (Runtime_error ''Certificate and private key do not match.''), tls_context_destructor x g1)
          else (Inr x, g1\<lparr>ssl_ctxs := (ssl_ctxs g1)(x := map_option
            (\<lambda>k. k\<lparr>cfg_certificate := Some certificate, cfg_private_key := Some private_key\<rparr>) (ssl_ctxs g1 x))\<rparr>))"

section \<open>What OpenSSL and the scheduler promise\<close>

text \<open>
  The view of a connection: the decrypted bytes to come, the bytes handed to the library for the peer, and the clock.  A read answers
  bytes of the stream, a write takes some; a failure does neither and has a code other than \<open>SSL_ERROR_NONE\<close>.  A poll reports the
  operation asked for or a failure, and the clock does not go back.
\<close>

record 's tls_view =
  plain_in :: "'s \<Rightarrow> byte list"
  plain_out :: "'s \<Rightarrow> byte list"
  tls_clock :: "'s \<Rightarrow> int"

definition tls_same :: "'s tls_view \<Rightarrow> 's \<Rightarrow> 's \<Rightarrow> bool" where
  "tls_same v s s' \<longleftrightarrow> plain_in v s' = plain_in v s \<and> plain_out v s' = plain_out v s \<and> tls_clock v s \<le> tls_clock v s'"

definition asks :: "ssl_error \<Rightarrow> bool" where
  "asks e \<longleftrightarrow> e = Ssl_want_read \<or> e = Ssl_want_write"

definition ssl_read_law :: "'s tls_os \<Rightarrow> 's tls_view \<Rightarrow> bool" where
  "ssl_read_law os v \<longleftrightarrow> (\<forall>n s r s'. ssl_read os n s = (r, s') \<longrightarrow>
     plain_out v s' = plain_out v s \<and> tls_clock v s \<le> tls_clock v s' \<and>
     (case r of
        Inr bs \<Rightarrow> bs \<noteq> [] \<and> length bs \<le> n \<and> plain_in v s = bs @ plain_in v s'
      | Inl e \<Rightarrow> e \<noteq> Ssl_none \<and> plain_in v s' = plain_in v s))"

definition ssl_write_law :: "'s tls_os \<Rightarrow> 's tls_view \<Rightarrow> bool" where
  "ssl_write_law os v \<longleftrightarrow> (\<forall>bs s r s'. bs \<noteq> [] \<longrightarrow> ssl_write os bs s = (r, s') \<longrightarrow>
     plain_in v s' = plain_in v s \<and> tls_clock v s \<le> tls_clock v s' \<and>
     (case r of
        Inr k \<Rightarrow> 0 < k \<and> k \<le> length bs \<and> plain_out v s' = plain_out v s @ take k bs
      | Inl e \<Rightarrow> e \<noteq> Ssl_none \<and> plain_out v s' = plain_out v s))"

definition tls_poll_law :: "'s tls_os \<Rightarrow> 's tls_view \<Rightarrow> bool" where
  "tls_poll_law os v \<longleftrightarrow> (\<forall>op t s p s'. tls_poll os op t s = (p, s') \<longrightarrow>
     tls_same v s s' \<and> (op = Poll_read \<longrightarrow> p \<noteq> Status_write) \<and> (op = Poll_write \<longrightarrow> p \<noteq> Status_read))"

definition tls_now_law :: "'s tls_os \<Rightarrow> 's tls_view \<Rightarrow> bool" where
  "tls_now_law os v \<longleftrightarrow> (\<forall>s t s'. tls_now os s = (t, s') \<longrightarrow> tls_same v s s' \<and> t = tls_clock v s)"

definition tls_ok :: "'s tls_os \<Rightarrow> 's tls_view \<Rightarrow> bool" where
  "tls_ok os v \<longleftrightarrow> ssl_read_law os v \<and> ssl_write_law os v \<and> tls_poll_law os v \<and> tls_now_law os v"

text \<open>A read that does not have to write, and a write that does not have to read: no renegotiation and no key update in between.\<close>

definition one_way :: "'s tls_os \<Rightarrow> bool" where
  "one_way os \<longleftrightarrow> (\<forall>n s. fst (ssl_read os n s) \<noteq> Inl Ssl_want_write) \<and> (\<forall>bs s. fst (ssl_write os bs s) \<noteq> Inl Ssl_want_read)"









text \<open>The states of the loop of \<open>recv\<close> in which it waits for the socket to become writable, with a \<open>stop\<close> that is not after \<open>start\<close>.\<close>

definition tls_stuck :: "'s tls_view \<Rightarrow> 's tls_os \<Rightarrow> int option \<Rightarrow> poll_op \<Rightarrow> bool \<Rightarrow> int \<Rightarrow> int \<Rightarrow> 's \<Rightarrow> bool" where
  "tls_stuck v os timeout op first start stop s \<longleftrightarrow>
     tls_ok os v \<and> (\<forall>t s. fst (tls_poll os Poll_write t s) = Status_write) \<and> op = Poll_write \<and> \<not> first \<and> stop \<le> start
     \<and> start \<le> tls_clock v s \<and> (\<forall>t. timeout = Some t \<longrightarrow> 0 < t)"

text \<open>
  A connection for examples.  The first call that needs the socket asks for it, as long as \<open>td_wait\<close> says so; a read answers at most two bytes
  and a write takes at most three.  With \<open>cross\<close> a read asks to write.
\<close>

record tls_demo =
  td_in :: "byte list"
  td_out :: "byte list"
  td_clock :: int
  td_wait :: nat

definition td_ask :: "tls_demo \<Rightarrow> tls_demo" where
  "td_ask s = s\<lparr>td_wait := td_wait s - 1, td_clock := td_clock s + 1\<rparr>"

definition tls_demo_os :: "bool \<Rightarrow> tls_demo tls_os" where
  "tls_demo_os cross =
     \<lparr>ssl_new = \<lambda>s. (Some 7, s), ssl_set_fd = \<lambda>s. (True, s), ssl_set_state = \<lambda>_ s. s,
      ssl_connect = \<lambda>s. if 0 < td_wait s then (Some Ssl_want_read, td_ask s) else (None, s),
      ssl_read = \<lambda>n s.
        if 0 < td_wait s then (Inl (if cross then Ssl_want_write else Ssl_want_read), td_ask s)
        else if n = 0 \<or> td_in s = [] then (Inl Ssl_zero_return, s)
        else (Inr (take (min n 2) (td_in s)), s\<lparr>td_in := drop (min n 2) (td_in s), td_clock := td_clock s + 1\<rparr>),
      ssl_write = \<lambda>bs s.
        if 0 < td_wait s then (Inl Ssl_want_write, td_ask s)
        else (Inr (min 3 (length bs)), s\<lparr>td_out := td_out s @ take (min 3 (length bs)) bs, td_clock := td_clock s + 1\<rparr>),
      ssl_shutdown = \<lambda>s. (Shutdown_complete, s),
      tls_poll = \<lambda>op t s. (case op of Poll_read \<Rightarrow> Status_read | _ \<Rightarrow> Status_write, s\<lparr>td_clock := td_clock s + 1\<rparr>),
      tls_now = \<lambda>s. (td_clock s, s)\<rparr>"

definition tls_demo_view :: "tls_demo tls_view" where
  "tls_demo_view = \<lparr>plain_in = td_in, plain_out = td_out, tls_clock = td_clock\<rparr>"

definition tls_demo_start :: tls_demo where
  "tls_demo_start = \<lparr>td_in = [1, 2, 3], td_out = [], td_clock = 5, td_wait = 2\<rparr>"

section \<open>Receiving and sending\<close>

lemma tls_okD:
  assumes "tls_ok os v"
  shows "ssl_read_law os v" "ssl_write_law os v" "tls_poll_law os v" "tls_now_law os v"
  using assms by (simp_all add: tls_ok_def)

lemma tls_same_refl [simp]: "tls_same v s s"
  by (simp add: tls_same_def)














section \<open>Properties\<close>

lemma tls_demo_ok: "tls_ok (tls_demo_os cross) tls_demo_view" "one_way (tls_demo_os False)"
  by (auto simp: tls_ok_def ssl_read_law_def ssl_write_law_def tls_poll_law_def tls_now_law_def tls_same_def
      tls_demo_os_def tls_demo_view_def td_ask_def one_way_def asks_def split: if_splits poll_op.splits)




text \<open>
  A read that has to write never returns.  After \<open>SSL_ERROR_WANT_WRITE\<close> the loop polls for write, and when the socket is writable it
  goes back to the poll without trying the read again.  A time-out does not help: \<open>stop\<close> stays behind \<open>start\<close>, so every round adds to
  the time that is left.
\<close>

lemma duration_cast_nonpos: "d \<le> 0 \<Longrightarrow> duration_cast_ms d \<le> 0"
  by (simp add: duration_cast_ms_def pos_imp_zdiv_nonneg_iff)

lemma tls_stuck_round:
  assumes "tls_stuck v os timeout op first start stop s"
  shows "\<exists>timeout' start' s1 s2. take_time os timeout first start stop s = Some (timeout', start', s1)
    \<and> tls_poll os op (value_or_zero timeout') s1 = (Status_write, s2) \<and> tls_stuck v os timeout' op False start' stop s2"
proof -
  note h = assms [unfolded tls_stuck_def]
  then have ok: "tls_ok os v" and d: "duration_cast_ms (stop - start) \<le> 0"
    by (simp_all add: duration_cast_nonpos)
  obtain now s0 where now: "tls_now os s = (now, s0)"
    by fastforce
  then have "start \<le> now" "now \<le> tls_clock v s0"
    using h tls_okD(4) [OF ok] unfolding tls_now_law_def tls_same_def by fastforce+
  then have "\<exists>timeout' start' s1. take_time os timeout first start stop s = Some (timeout', start', s1) \<and>
      stop \<le> start' \<and> start' \<le> tls_clock v s1 \<and> (\<forall>t. timeout' = Some t \<longrightarrow> 0 < t)"
    using h d now by (cases timeout) (auto simp: take_time_def)
  then obtain timeout' start' s1 where t: "take_time os timeout first start stop s = Some (timeout', start', s1)"
    and t': "stop \<le> start'" "start' \<le> tls_clock v s1" "\<forall>t. timeout' = Some t \<longrightarrow> 0 < t"
    by blast
  obtain s2 where p: "tls_poll os op (value_or_zero timeout') s1 = (Status_write, s2)"
    using h by (metis prod.collapse)
  then have "start' \<le> tls_clock v s2"
    using t'(2) tls_okD(3) [OF ok] unfolding tls_poll_law_def tls_same_def by (meson order_trans)
  then show ?thesis
    using t t' p h unfolding tls_stuck_def by blast
qed

lemma tls_recv_livelock_loop:
  assumes "tls_recv_loop os n timeout op first start stop s = Some r"
  shows "\<not> tls_stuck v os timeout op first start stop s"
  apply (rule tls_recv_loop.raw_induct [where P = "\<lambda>os n timeout op first start stop s r. \<not> tls_stuck v os timeout op first start stop s", OF _ assms])
  subgoal premises p for loop os n timeout op first start stop s r
  proof
    assume "tls_stuck v os timeout op first start stop s"
    from tls_stuck_round [OF this] obtain timeout' start' s1 s2 where
      "take_time os timeout first start stop s = Some (timeout', start', s1)"
      "tls_poll os op (value_or_zero timeout') s1 = (Status_write, s2)" and stuck: "tls_stuck v os timeout' op False start' stop s2"
      by blast
    then have "loop os n timeout' op False start' stop s2 = Some r"
      using p(2) by simp
    from p(1) [OF this] show False
      using stuck by contradiction
  qed
  done

lemma tls_recv_livelock:
  assumes "tls_ok os v" and "\<And>t s. fst (tls_poll os Poll_write t s) = Status_write"
    and "tls_poll os Poll_read 0 s = (Status_read, s1)" and "ssl_read os n s1 = (Inl Ssl_want_write, s2)" and "0 < n" and "0 \<le> tls_clock v s2"
  shows "tls_recv os n None s = None"
proof -
  have "tls_recv os n None s = tls_recv_loop os n None Poll_write False 0 0 s2"
    using assms(3-5) by (simp add: tls_recv_def tls_recv_loop.simps [of os n None Poll_read] take_time_def stop_time_def value_or_zero_def)
  then show ?thesis
    using tls_recv_livelock_loop [of os n None Poll_write False 0 0 s2 _ v] assms(1,2,6) by (cases "tls_recv_loop os n None Poll_write False 0 0 s2") (auto simp: tls_stuck_def)
qed

lemma tls_recv_livelock_demo: "tls_recv (tls_demo_os True) 2 None tls_demo_start = None"
  by (rule tls_recv_livelock [OF tls_demo_ok(1), of True tls_demo_start "tls_demo_start\<lparr>td_clock := 6\<rparr>" 2 "td_ask (tls_demo_start\<lparr>td_clock := 6\<rparr>)"])
    (simp_all add: tls_demo_os_def tls_demo_start_def tls_demo_view_def td_ask_def)

text \<open>\<open>connect\<close> remembers its result, and a server's client says that it is connected whatever its handshake came to.\<close>

lemma tls_connect_remembers:
  assumes "tls_connect os cret errno so_error timeout c s = Some (st, c', s')" and "tls_ctx c \<noteq> None"
  shows "tls_connect os cret' errno' so_error' timeout' c' s'' = Some (st, c', s'')"
proof -
  have "tls_connect_status c' = Some st"
    using assms by (auto simp: tls_connect_def tls_remember_def Let_def split: option.splits if_splits prod.splits)
  then show ?thesis
    by (simp add: tls_connect_def)
qed

lemma tls_accept_reports_connected:
  assumes "tls_accept os timeout answer c s = Some ((fd, k), s')"
  shows "tls_connect os' cret errno so_error t k s'' = Some (Tls_connected, k, s'')"
proof -
  have "tls_connect_status k = Some Tls_connected"
    using assms
    by (auto simp: tls_accept_def handshake_def tls_client_accepted_def Let_def split: if_splits prod.splits)
  then show ?thesis
    by (simp add: tls_connect_def)
qed

text \<open>A client that takes over a connection by move assignment after its own \<open>shutdown\<close> never shuts the new connection down.\<close>

lemma tls_move_assign_skips_shutdown:
  assumes "m_shutdown c"
  shows "tls_client_destructor os (fst (tls_client_move_assign c other)) s = Some (m_tls_ptr (m_tls_info other), s)"
  using assms by (simp add: tls_client_move_assign_def tls_client_destructor_def)

text \<open>
  A context that cannot be made leaves no \<open>SSL_CTX\<close> behind; one that is made verifies the peer as asked and accepts neither SSLv3 nor a
  version before TLS 1.2.
\<close>

lemma tls_context_made:
  assumes "tls_context_certificate verify_peer p cert_ok key_ok match certificate private_key g = (r, g')"
    and "\<forall>x. p = Some x \<longrightarrow> ssl_ctxs g x = None"
  shows "case r of
      Inl e \<Rightarrow> ssl_ctxs g' = ssl_ctxs g
    | Inr x \<Rightarrow> ssl_ctxs g' = (ssl_ctxs g)(x := Some \<lparr>cfg_no_sslv3 = True, cfg_verify_peer = verify_peer, cfg_min_tls12 = True,
        cfg_certificate = Some certificate, cfg_private_key = Some private_key\<rparr>)"
  using assms
  by (cases p) (auto simp: tls_context_certificate_def tls_context_new_def tls_context_destructor_def Let_def fun_upd_idem split: if_splits)

end
