(* ===== verification/NetDns.thy ===== *)
theory NetDns
  imports IoNotifier NetAddress Event
begin

text \<open>
  The resolver of \<open>include/coro/net/dns/resolver.hpp\<close>: the count of resolvers, a lookup with its callback and event, and the tasks that
  poll the sockets of \<open>c-ares\<close>.  What \<open>c-ares\<close> does is when and with what it calls back.
\<close>

section \<open>The library and its count\<close>

text \<open>
  The globals of the header: how many resolvers there are, and whether \<open>c-ares\<close> is initialised.  \<open>ares_library_init\<close> and
  \<open>ares_init_options\<close> answer the text of an error or succeed, the latter with a channel.
\<close>

record ares_lib =
  m_ares_count :: "64 word"
  ares_ready :: bool

definition resolver_new :: "ptr \<Rightarrow> string option \<Rightarrow> string + nat \<Rightarrow> ares_lib \<Rightarrow> nat result \<times> ares_lib" where
  "resolver_new executor init channel g =
     (if executor = None then (Inl (Runtime_error ''dns resolver cannot have nullptr executor''), g)
      else case (if m_ares_count g = 0 then init else None) of
        Some e \<Rightarrow> (Inl (Runtime_error e), g)
      | None \<Rightarrow>
          (let g1 = g\<lparr>m_ares_count := m_ares_count g + 1, ares_ready := (m_ares_count g = 0 \<or> ares_ready g)\<rparr>
           in case channel of Inl e \<Rightarrow> (Inl (Runtime_error e), g1) | Inr c \<Rightarrow> (Inr c, g1)))"

definition resolver_destructor :: "ares_lib \<Rightarrow> ares_lib" where
  "resolver_destructor g =
     (let g1 = g\<lparr>m_ares_count := m_ares_count g - 1\<rparr> in if m_ares_count g1 = 0 then g1\<lparr>ares_ready := False\<rparr> else g1)"

section \<open>The answers\<close>

datatype dns_status = Dns_complete | Dns_error

record dns_result =
  m_pending_dns_requests :: "64 word"
  m_status :: dns_status
  m_ip_addresses :: "ip_address list"

definition dns_result_new :: "64 word \<Rightarrow> dns_result" where
  "dns_result_new n = \<lparr>m_pending_dns_requests = n, m_status = Dns_complete, m_ip_addresses = []\<rparr>"

text \<open>A node of \<open>ares_addrinfo\<close>: \<open>ai_family\<close> and the bytes that \<open>ai_addr\<close> refers to.\<close>

record ares_node =
  ai_family :: "16 word"
  ai_addr :: "byte list"

fun add_nodes :: "ares_node list \<Rightarrow> ip_address list \<Rightarrow> ip_address list result" where
  "add_nodes [] ips = Inr ips"
| "add_nodes (node # nodes) ips =
     (if ai_family node = AF_INET
      then (case ip_address_of (get_bytes 4 ipv4_len (ai_addr node)) Ipv4 of Inl e \<Rightarrow> Inl e | Inr ip \<Rightarrow> add_nodes nodes (ips @ [ip]))
      else if ai_family node = AF_INET6
      then (case ip_address_of (get_bytes 8 ipv6_len (ai_addr node)) Ipv6 of Inl e \<Rightarrow> Inl e | Inr ip \<Rightarrow> add_nodes nodes (ips @ [ip]))
      else add_nodes nodes ips)"

text \<open>
  \<open>ares_dns_callback\<close> with the coroutines that the event resumes.  \<open>ok\<close> is \<open>status == ARES_SUCCESS\<close>, \<open>info\<close> the nodes or \<^term>\<open>None\<close>
  for a null pointer.
\<close>

definition ares_dns_callback ::
  "bool \<Rightarrow> ares_node list option \<Rightarrow> dns_result \<Rightarrow> event \<Rightarrow> (handle list \<times> dns_result \<times> event) result" where
  "ares_dns_callback ok info r e =
     (let r1 = r\<lparr>m_pending_dns_requests := m_pending_dns_requests r - 1\<rparr>;
          filled = (case info of
                      Some nodes \<Rightarrow>
                        if ok
                        then (case add_nodes nodes (m_ip_addresses r1) of
                                Inl x \<Rightarrow> Inl x
                              | Inr ips \<Rightarrow> Inr (r1\<lparr>m_status := Dns_complete, m_ip_addresses := ips\<rparr>))
                        else Inr (r1\<lparr>m_status := Dns_error\<rparr>)
                    | None \<Rightarrow> Inr (r1\<lparr>m_status := Dns_error\<rparr>))
      in case filled of
           Inl x \<Rightarrow> Inl x
         | Inr r2 \<Rightarrow>
             if m_pending_dns_requests r2 = 0
             then (case event_set Lifo e of None \<Rightarrow> Inl Diverges | Some (hs, e') \<Rightarrow> Inr (hs, r2, e'))
             else Inr ([], r2, e))"

text \<open>
  \<open>host_by_name\<close> up to its suspension: \<open>early\<close> is the answer when \<open>ares_getaddrinfo\<close> calls back before it returns.  The flag says
  whether the caller \<open>h\<close> is suspended.
\<close>

definition host_by_name :: "(bool \<times> ares_node list option) option \<Rightarrow> handle \<Rightarrow> (bool \<times> dns_result \<times> event) result" where
  "host_by_name early h =
     (let e = event_new False; r = dns_result_new 1
      in case (case early of None \<Rightarrow> Inr ([], r, e) | Some (ok, info) \<Rightarrow> ares_dns_callback ok info r e) of
           Inl x \<Rightarrow> Inl x
         | Inr (hs, r1, e1) \<Rightarrow> (case event_await e1 h of (suspended, e2) \<Rightarrow> Inr (suspended, r1, e2)))"

section \<open>The poll tasks\<close>

text \<open>
  The coroutines of \<open>make_poll_task\<close>: at the test of the loop, suspended in \<open>poll\<close>, resumed with its status, and ended.  The last three
  fields record an execution: the operations that \<open>c-ares\<close> last asked for on each socket that it has open, the sockets whose poll task
  the executor did not take, and those that a poll task took from the map because its poll ended with closed, error or cancelled.
\<close>

datatype poll_task = Loop_test | In_poll poll_op | Polled poll_status | Task_ended

record resolver =
  m_active_sockets :: "nat \<Rightarrow> poll_op option"
  dr_alive :: bool
  dr_fd :: "nat \<Rightarrow> nat"
  dr_task :: "nat \<Rightarrow> poll_task option"
  dr_open :: "nat \<Rightarrow> poll_op option"
  dr_refused :: "nat set"
  dr_given_up :: "nat set"

fun socket_ops :: "bool \<Rightarrow> bool \<Rightarrow> poll_op option" where
  "socket_ops False False = None"
| "socket_ops True False = Some Poll_read"
| "socket_ops False True = Some Poll_write"
| "socket_ops True True = Some Poll_read_write"

text \<open>\<open>t\<close> names the poll task that is spawned; \<open>accepted\<close> is the answer of \<open>spawn_detached\<close>, which the code ignores.\<close>

definition ares_socket_state_callback :: "nat \<Rightarrow> bool \<Rightarrow> bool \<Rightarrow> nat \<Rightarrow> bool \<Rightarrow> resolver \<Rightarrow> resolver" where
  "ares_socket_state_callback fd readable writable t accepted s =
     (case socket_ops readable writable of
        Some ops \<Rightarrow>
          (let s1 = s\<lparr>m_active_sockets := (m_active_sockets s)(fd := Some ops), dr_open := (dr_open s)(fd := Some ops)\<rparr>
           in if m_active_sockets s fd = None
              then (if accepted
                    then s1\<lparr>dr_fd := (dr_fd s)(t := fd), dr_task := (dr_task s)(t := Some Loop_test),
                      dr_refused := dr_refused s - {fd}, dr_given_up := dr_given_up s - {fd}\<rparr>
                    else s1\<lparr>dr_refused := insert fd (dr_refused s), dr_given_up := dr_given_up s - {fd}\<rparr>)
              else s1)
      | None \<Rightarrow>
          s\<lparr>m_active_sockets := (m_active_sockets s)(fd := None), dr_open := (dr_open s)(fd := None),
            dr_refused := dr_refused s - {fd}, dr_given_up := dr_given_up s - {fd}\<rparr>)"

text \<open>
  A step of the task \<open>t\<close>; \<open>p\<close> is the status that ends its poll.  \<open>ares_process_fd\<close> acts through the callbacks.  A task of a resolver that is
  gone must not take a step that reads the map.
\<close>

definition make_poll_task_step :: "poll_status \<Rightarrow> nat \<Rightarrow> resolver \<Rightarrow> resolver option" where
  "make_poll_task_step p t s =
     (let goto = (\<lambda>x s. s\<lparr>dr_task := (dr_task s)(t := Some x)\<rparr>)
      in case dr_task s t of
           Some Loop_test \<Rightarrow>
             if \<not> dr_alive s then None
             else Some (case m_active_sockets s (dr_fd s t) of Some ops \<Rightarrow> goto (In_poll ops) s | None \<Rightarrow> goto Task_ended s)
         | Some (In_poll ops) \<Rightarrow> Some (goto (Polled p) s)
         | Some (Polled q) \<Rightarrow>
             if \<not> dr_alive s then None
             else Some (goto Loop_test
               (if q \<in> {Status_closed, Status_error, Status_cancelled}
                then s\<lparr>m_active_sockets := (m_active_sockets s)(dr_fd s t := None), dr_given_up := insert (dr_fd s t) (dr_given_up s)\<rparr>
                else s))
         | _ \<Rightarrow> None)"

text \<open>The destructor: \<open>ares_destroy\<close> calls back for every socket, and the object is gone.\<close>

definition resolver_destroy :: "resolver \<Rightarrow> resolver" where
  "resolver_destroy s = s\<lparr>m_active_sockets := \<lambda>_. None, dr_open := \<lambda>_. None, dr_alive := False\<rparr>"

inductive dn_step :: "resolver \<Rightarrow> resolver \<Rightarrow> bool" where
  dn_socket: "dr_alive s \<Longrightarrow> dr_task s t = None \<Longrightarrow> dn_step s (ares_socket_state_callback fd readable writable t accepted s)"
| dn_task: "make_poll_task_step p t s = Some s' \<Longrightarrow> dn_step s s'"
| dn_destroy: "dr_alive s \<Longrightarrow> dn_step s (resolver_destroy s)"

definition dn_init :: "resolver \<Rightarrow> bool" where
  "dn_init s \<longleftrightarrow> m_active_sockets s = (\<lambda>_. None) \<and> dr_alive s \<and> dr_task s = (\<lambda>_. None) \<and>
     dr_open s = (\<lambda>_. None) \<and> dr_refused s = {} \<and> dr_given_up s = {}"

definition dr_polls :: "resolver \<Rightarrow> nat \<Rightarrow> nat \<Rightarrow> bool" where
  "dr_polls s t fd \<longleftrightarrow> dr_fd s t = fd \<and> dr_task s t \<noteq> None \<and> dr_task s t \<noteq> Some Task_ended"

definition dn_inv :: "resolver \<Rightarrow> bool" where
  "dn_inv s \<longleftrightarrow> (\<forall>fd. m_active_sockets s fd \<noteq> None \<longrightarrow> fd \<in> dr_refused s \<or> (\<exists>t. dr_polls s t fd))
     \<and> (\<forall>fd. dr_open s fd \<noteq> None \<longrightarrow> m_active_sockets s fd = dr_open s fd \<or> fd \<in> dr_given_up s)
     \<and> (\<not> dr_alive s \<longrightarrow> m_active_sockets s = (\<lambda>_. None) \<and> dr_open s = (\<lambda>_. None))"

text \<open>A resolver whose socket 5 is opened for reading and polled.\<close>

definition dn_demo :: resolver where
  "dn_demo = \<lparr>m_active_sockets = \<lambda>_. None, dr_alive = True, dr_fd = \<lambda>_. 0, dr_task = \<lambda>_. None,
     dr_open = \<lambda>_. None, dr_refused = {}, dr_given_up = {}\<rparr>"

definition dn_demo_polling :: resolver where
  "dn_demo_polling =
     dn_demo\<lparr>m_active_sockets := (\<lambda>_. None)(5 := Some Poll_read), dr_fd := (\<lambda>_. 0)(1 := 5), dr_task := (\<lambda>_. None)(1 := Some (In_poll Poll_read)),
       dr_open := (\<lambda>_. None)(5 := Some Poll_read)\<rparr>"

section \<open>Lookups\<close>

text \<open>The node's address, when it is of one of the two families.\<close>

lemma ip_address_of_get_bytes: "\<exists>ip. ip_address_of (get_bytes k (if d = Ipv4 then ipv4_len else ipv6_len) bs) d = Inr ip \<and> m_domain ip = d"
  by (cases d) (auto simp: ip_address_of_def get_bytes_def ipv4_len_def ipv6_len_def)

lemma add_nodes_total:
  "\<exists>added. add_nodes nodes ips = Inr (ips @ added) \<and> length added = length (filter (\<lambda>n. ai_family n \<in> {AF_INET, AF_INET6}) nodes)
    \<and> map m_domain added = map (\<lambda>n. if ai_family n = AF_INET then Ipv4 else Ipv6) (filter (\<lambda>n. ai_family n \<in> {AF_INET, AF_INET6}) nodes)"
proof (induction nodes arbitrary: ips)
  case (Cons node nodes)
  obtain a where a: "ip_address_of (get_bytes 4 ipv4_len (ai_addr node)) Ipv4 = Inr a" "m_domain a = Ipv4"
    using ip_address_of_get_bytes [of 4 Ipv4] by auto
  obtain b where b: "ip_address_of (get_bytes 8 ipv6_len (ai_addr node)) Ipv6 = Inr b" "m_domain b = Ipv6"
    using ip_address_of_get_bytes [of 8 Ipv6] by auto
  consider "ai_family node = AF_INET" | "ai_family node = AF_INET6" "ai_family node \<noteq> AF_INET" | "ai_family node \<notin> {AF_INET, AF_INET6}"
    by (cases "ai_family node = AF_INET"; cases "ai_family node = AF_INET6") simp_all
  then show ?case
  proof cases
    case 1
    then show ?thesis
      using a Cons.IH [of "ips @ [a]"] by fastforce
  next
    case 2
    then show ?thesis
      using b Cons.IH [of "ips @ [b]"] by fastforce
  next
    case 3
    then show ?thesis
      using Cons.IH [of ips] by auto
  qed
qed simp

text \<open>
  A lookup whose answer comes at once goes on without suspending, and one whose answer comes later is suspended and resumed by the answer,
  which resumes nobody else.  It has an address for every node of the two families, in order, exactly when \<open>c-ares\<close> succeeded.
\<close>

lemma dns_lookup_completes:
  shows "\<exists>r e. host_by_name (Some (ok, info)) h = Inr (False, r, e) \<and> (m_status r = Dns_complete \<longleftrightarrow> ok \<and> info \<noteq> None)"
    and "\<exists>r e r' e'. host_by_name None h = Inr (True, r, e) \<and> ares_dns_callback ok info r e = Inr ([h], r', e')
      \<and> (m_status r' = Dns_complete \<longleftrightarrow> ok \<and> info \<noteq> None)"
proof -
  have set: "\<exists>e'. event_set Lifo e = Some (ws, e') \<and> is_set e'" if "ev_view e (Some ws)" for e ws
    using event_set_view [OF that, of Lifo] by auto
  have call: "\<exists>r' e'. ares_dns_callback ok info (dns_result_new 1) e = Inr (ws, r', e') \<and> is_set e' \<and> (m_status r' = Dns_complete \<longleftrightarrow> ok \<and> info \<noteq> None)"
    if "ev_view e (Some ws)" for e ws
  proof (cases info)
    case None
    then show ?thesis
      using set [OF that] by (auto simp: ares_dns_callback_def dns_result_new_def Let_def)
  next
    case (Some nodes)
    then show ?thesis
      using set [OF that] add_nodes_total [of nodes "[]"] by (auto simp: ares_dns_callback_def dns_result_new_def Let_def)
  qed
  have new: "ev_view (event_new False) (Some [])"
    by (simp add: event_new_def)
  obtain r e where "ares_dns_callback ok info (dns_result_new 1) (event_new False) = Inr ([], r, e)" "is_set e"
    "m_status r = Dns_complete \<longleftrightarrow> ok \<and> info \<noteq> None"
    using call [OF new] by blast
  then show "\<exists>r e. host_by_name (Some (ok, info)) h = Inr (False, r, e) \<and> (m_status r = Dns_complete \<longleftrightarrow> ok \<and> info \<noteq> None)"
    by (simp add: host_by_name_def event_await_def)
  have "fst (event_await (event_new False) h)" "ev_view (snd (event_await (event_new False) h)) (Some [h])"
    using event_await_view [OF new, of h] by simp_all
  then obtain r' e' where "ares_dns_callback ok info (dns_result_new 1) (snd (event_await (event_new False) h)) = Inr ([h], r', e')"
    "m_status r' = Dns_complete \<longleftrightarrow> ok \<and> info \<noteq> None"
    using call by blast
  then show "\<exists>r e r' e'. host_by_name None h = Inr (True, r, e) \<and> ares_dns_callback ok info r e = Inr ([h], r', e')
      \<and> (m_status r' = Dns_complete \<longleftrightarrow> ok \<and> info \<noteq> None)"
    using \<open>fst (event_await (event_new False) h)\<close> by (cases "event_await (event_new False) h") (simp add: host_by_name_def)
qed

section \<open>Sockets\<close>

text \<open>Each kind of step, first for the tasks, then for what \<open>c-ares\<close> has open.\<close>

lemma dn_callback_polled:
  assumes "dn_inv s" "dr_alive s" "dr_task s t = None"
  shows "dn_inv (ares_socket_state_callback fd readable writable t accepted s)" (is "dn_inv ?s")
proof (cases "socket_ops readable writable")
  case None
  then show ?thesis
    using assms by (auto simp: dn_inv_def ares_socket_state_callback_def dr_polls_def)
next
  case (Some ops)
  then have polls: "dr_polls ?s u f" if "dr_polls s u f" for u f
    using that assms(3) by (auto simp: ares_socket_state_callback_def dr_polls_def Let_def)
  have new: "fd \<in> dr_refused ?s \<or> (\<exists>u. dr_polls ?s u fd)" if "m_active_sockets s fd = None"
    using that Some by (cases accepted) (auto simp: ares_socket_state_callback_def dr_polls_def)
  have old: "fd \<in> dr_refused ?s \<longleftrightarrow> fd \<in> dr_refused s" if "m_active_sockets s fd \<noteq> None"
    using that Some by (auto simp: ares_socket_state_callback_def Let_def)
  have eqs: "m_active_sockets ?s = (m_active_sockets s)(fd := Some ops)" "dr_open ?s = (dr_open s)(fd := Some ops)" "dr_alive ?s"
    "\<And>f. f \<noteq> fd \<Longrightarrow> (f \<in> dr_refused ?s \<longleftrightarrow> f \<in> dr_refused s) \<and> (f \<in> dr_given_up ?s \<longleftrightarrow> f \<in> dr_given_up s)"
    using assms(2) Some by (auto simp: ares_socket_state_callback_def Let_def)
  have "f \<in> dr_refused ?s \<or> (\<exists>u. dr_polls ?s u f)" if "m_active_sockets ?s f \<noteq> None" for f
    using assms(1) that new old eqs polls unfolding dn_inv_def by (cases "f = fd"; cases "m_active_sockets s fd = None") (metis fun_upd_other)+
  then show ?thesis
    using assms(1) eqs unfolding dn_inv_def by auto
qed

lemma dn_task_polled:
  assumes "dn_inv s" "make_poll_task_step p t s = Some s'"
  shows "dn_inv s'"
proof -
  have "m_active_sockets s' f \<noteq> None \<longrightarrow> m_active_sockets s f \<noteq> None \<and> (\<forall>u. dr_polls s u f \<longrightarrow> dr_polls s' u f)" for f
    using assms(2) unfolding make_poll_task_step_def Let_def dr_polls_def
    by (auto split: option.splits poll_task.splits if_splits)
  moreover have "dr_alive s' = dr_alive s" "dr_refused s' = dr_refused s" "dr_open s' = dr_open s" "dr_given_up s \<subseteq> dr_given_up s'"
    using assms(2) unfolding make_poll_task_step_def Let_def by (auto split: option.splits poll_task.splits if_splits)
  moreover have "m_active_sockets s' f = m_active_sockets s f \<or> f \<in> dr_given_up s'" for f
    using assms(2) unfolding make_poll_task_step_def Let_def by (auto split: option.splits poll_task.splits if_splits)
  moreover have "m_active_sockets s' = m_active_sockets s" if "\<not> dr_alive s"
    using that assms(2) unfolding make_poll_task_step_def Let_def by (auto split: option.splits poll_task.splits if_splits)
  ultimately show ?thesis
    using assms(1) unfolding dn_inv_def by (metis subsetD)
qed

lemma dn_inv_step:
  assumes "dn_inv s" "dn_step s s'"
  shows "dn_inv s'"
  using assms(2)
proof cases
  case dn_destroy
  then show ?thesis
    by (simp add: dn_inv_def resolver_destroy_def)
qed (use assms(1) dn_callback_polled dn_task_polled in auto)

interpretation dns: invariant_system dn_init dn_step dn_inv
proof unfold_locales
  show "dn_inv s" if "dn_init s" for s
    using that by (simp add: dn_init_def dn_inv_def)
  show "dn_inv s'" if "dn_inv s" "dn_step s s'" for s s'
    using that by (rule dn_inv_step)
qed

section \<open>Properties\<close>

text \<open>C38: a socket that \<open>c-ares\<close> has open for reading or writing is watched.  In every interleaving of its callbacks and of the poll
  tasks, a socket that \<open>c-ares\<close> last asked to be watched for \<open>ops\<close> is in \<open>m_active_sockets\<close> with \<open>ops\<close> and has a poll task that has not
  ended, except when the executor refused the task or a poll of the socket ended with closed, error or cancelled since
  the socket was added.  The task can take its next step, whatever status its poll ends with: at the test of its loop it goes on to poll for
  \<open>ops\<close>, while one that is suspended in a poll keeps the operations of that poll until it ends and then comes back to the test.\<close>

theorem dns_sockets_polled:
  assumes "reach dn_init dn_step s" and "dr_open s fd = Some ops" and "fd \<notin> dr_refused s" and "fd \<notin> dr_given_up s"
  shows "m_active_sockets s fd = Some ops \<and>
    (\<exists>t. dr_fd s t = fd \<and> (\<exists>s'. make_poll_task_step p t s = Some s'
      \<and> (dr_task s t = Some Loop_test \<longrightarrow> dr_task s' t = Some (In_poll ops))
      \<and> ((\<exists>m. dr_task s t = Some (In_poll m)) \<longrightarrow> dr_task s' t = Some (Polled p))
      \<and> ((\<exists>q. dr_task s t = Some (Polled q)) \<longrightarrow> dr_task s' t = Some Loop_test)))"
proof -
  have inv: "dn_inv s"
    by (rule dns.inv_reach [OF assms(1)])
  then have act: "m_active_sockets s fd = Some ops"
    using assms(2,4) unfolding dn_inv_def by force
  then have "dr_alive s"
    using inv by (auto simp: dn_inv_def)
  moreover obtain t where "dr_polls s t fd"
    using inv act assms(3) unfolding dn_inv_def by blast
  ultimately have "\<exists>t. dr_fd s t = fd \<and> (\<exists>s'. make_poll_task_step p t s = Some s'
      \<and> (dr_task s t = Some Loop_test \<longrightarrow> dr_task s' t = Some (In_poll ops))
      \<and> ((\<exists>m. dr_task s t = Some (In_poll m)) \<longrightarrow> dr_task s' t = Some (Polled p))
      \<and> ((\<exists>q. dr_task s t = Some (Polled q)) \<longrightarrow> dr_task s' t = Some Loop_test))"
    using act unfolding dr_polls_def make_poll_task_step_def Let_def
    by (intro exI [of _ t]) (auto split: option.splits poll_task.splits)
  with act show ?thesis by blast
qed

lemma dn_demo_reach: "reach dn_init dn_step dn_demo_polling"
proof -
  let ?s1 = "ares_socket_state_callback 5 True False 1 True dn_demo"
  have "reach dn_init dn_step dn_demo"
    by (rule reach_init) (simp add: dn_init_def dn_demo_def)
  then have s1: "reach dn_init dn_step ?s1"
    using reach_step [of dn_init dn_step dn_demo] dn_socket [of dn_demo 1 5 True False True] by (simp add: dn_demo_def)
  have "make_poll_task_step Status_read 1 ?s1 = Some dn_demo_polling"
    by (simp add: make_poll_task_step_def ares_socket_state_callback_def dn_demo_def dn_demo_polling_def)
  then show ?thesis
    using reach_step [of dn_init dn_step ?s1, OF s1] dn_task by blast
qed

theorem dns_sockets_polled_witness:
  "reach dn_init dn_step dn_demo_polling \<and> dr_open dn_demo_polling 5 = Some Poll_read
   \<and> (\<exists>t s'. dr_fd dn_demo_polling t = 5 \<and> make_poll_task_step Status_timeout t dn_demo_polling = Some s')"
proof -
  have "dr_open dn_demo_polling 5 = Some Poll_read" "5 \<notin> dr_refused dn_demo_polling" "5 \<notin> dr_given_up dn_demo_polling"
    by (simp_all add: dn_demo_polling_def dn_demo_def)
  then show ?thesis
    using dn_demo_reach dns_sockets_polled [OF dn_demo_reach, of 5 Poll_read Status_timeout] by blast
qed

text \<open>
  A poll that ends with an error takes the socket from the map although \<open>c-ares\<close> has it open; its task ends, and nobody polls the socket.
\<close>

lemma dns_socket_given_up:
  "\<exists>s :: resolver. reach dn_init dn_step s \<and> dr_alive s \<and> dr_open s 5 = Some Poll_read \<and> (\<forall>t. \<not> dr_polls s t 5)"
proof -
  let ?s1 = "dn_demo_polling\<lparr>dr_task := (\<lambda>_. None)(1 := Some (Polled Status_error))\<rparr>"
  let ?s2 = "?s1\<lparr>m_active_sockets := \<lambda>_. None, dr_given_up := {5}, dr_task := (\<lambda>_. None)(1 := Some Loop_test)\<rparr>"
  let ?s3 = "?s2\<lparr>dr_task := (\<lambda>_. None)(1 := Some Task_ended)\<rparr>"
  note sim = make_poll_task_step_def dn_demo_polling_def dn_demo_def
  have "reach dn_init dn_step ?s1"
    by (rule reach_step [of dn_init dn_step dn_demo_polling, OF dn_demo_reach], rule dn_task [of Status_error 1]) (simp add: sim)
  then have "reach dn_init dn_step ?s2"
    by (rule reach_step [of dn_init dn_step ?s1], intro dn_task [of Status_error 1]) (simp add: sim fun_eq_iff)
  then have "reach dn_init dn_step ?s3"
    by (rule reach_step [of dn_init dn_step ?s2], intro dn_task [of Status_error 1]) (simp add: sim)
  moreover have "\<not> dr_polls ?s3 t 5" for t by (simp add: dr_polls_def)
  ultimately show ?thesis by (intro exI [of _ ?s3]) (simp add: dn_demo_polling_def dn_demo_def)
qed

text \<open>
  A socket that \<open>c-ares\<close> closes and opens again while its poll task is suspended gets a second one; the comment on \<open>m_active_sockets\<close>
  says that this does not happen.
\<close>

lemma dns_two_poll_tasks:
  "\<exists>s :: resolver. reach dn_init dn_step s \<and> dr_polls s 1 5 \<and> dr_polls s 2 5"
proof -
  let ?s1 = "ares_socket_state_callback 5 False False 2 True dn_demo_polling"
  let ?s2 = "ares_socket_state_callback 5 True False 2 True ?s1"
  have "reach dn_init dn_step ?s1"
    using reach_step [of dn_init dn_step dn_demo_polling, OF dn_demo_reach] dn_socket [of dn_demo_polling 2 5 False False True]
    by (simp add: dn_demo_polling_def dn_demo_def)
  then have "reach dn_init dn_step ?s2"
    using reach_step [of dn_init dn_step ?s1] dn_socket [of ?s1 2 5 True False True]
    by (simp add: dn_demo_polling_def dn_demo_def ares_socket_state_callback_def)
  moreover have "dr_polls ?s2 1 5 \<and> dr_polls ?s2 2 5"
    by (simp add: dr_polls_def dn_demo_polling_def dn_demo_def ares_socket_state_callback_def)
  ultimately show ?thesis
    by blast
qed

text \<open>A poll task that is suspended when the resolver is destroyed goes on to read a map that is gone.\<close>

lemma dns_destroy_dangling:
  "\<exists>s s' :: resolver. reach dn_init dn_step s \<and> \<not> dr_alive s \<and> make_poll_task_step Status_read 1 s = Some s'
    \<and> dr_task s' 1 = Some (Polled Status_read) \<and> make_poll_task_step p 1 s' = None"
proof -
  let ?s = "resolver_destroy dn_demo_polling"
  have "reach dn_init dn_step ?s"
    using reach_step [of dn_init dn_step dn_demo_polling, OF dn_demo_reach] dn_destroy [of dn_demo_polling]
    by (simp add: dn_demo_polling_def dn_demo_def)
  moreover have "\<not> dr_alive ?s \<and> (\<exists>s'. make_poll_task_step Status_read 1 ?s = Some s'
    \<and> dr_task s' 1 = Some (Polled Status_read) \<and> make_poll_task_step p 1 s' = None)"
    by (simp add: resolver_destroy_def make_poll_task_step_def dn_demo_polling_def dn_demo_def)
  ultimately show ?thesis
    by blast
qed

text \<open>
  A resolver that is made and destroyed leaves the library as it was, but one whose channel cannot be made counts for ever: after
  it no destructor brings the count back to zero, so the library is never cleaned up.
\<close>

lemma resolver_count_restored:
  assumes "resolver_new executor init channel g = (Inr c, g')" and "m_ares_count g = 0 \<longleftrightarrow> \<not> ares_ready g"
  shows "resolver_destructor g' = g"
  using assms by (auto simp: resolver_new_def resolver_destructor_def Let_def split: if_splits option.splits sum.splits)

lemma resolver_failure_counts:
  assumes "m_ares_count g = 0"
  shows "\<exists>g1 g2. resolver_new (Some x) None (Inl e) g = (Inl (Runtime_error e), g1) \<and> resolver_new (Some x) None (Inr c) g1 = (Inr c, g2)
    \<and> ares_ready (resolver_destructor g2)"
  using assms by (simp add: resolver_new_def resolver_destructor_def Let_def)

end
