(* ===== verification/EventLoop.thy ===== *)
theory EventLoop
  imports Scheduler WhenAny
begin

text \<open>
  The threads of the scheduler of \<open>src/scheduler.cpp\<close>: who runs the event loop, and what \<open>shutdown\<close> waits for.  And tasks with a time limit
  of \<open>include/coro/scheduler.hpp\<close>, which are \<open>when_any\<close> over the task and a timer.
\<close>

section \<open>The threads of the event loop\<close>

text \<open>
  A call of \<open>process_events_manual\<close>, the dedicated thread, and a call of \<open>shutdown\<close>, between their shared accesses.  The dedicated thread
  does not exist under the manual strategy.
\<close>

datatype manual_pc = Mn_idle | Mn_execute | Mn_release

datatype io_pc = Io_none | Io_start | Io_test | Io_execute | Io_clear | Io_ended

datatype shutdown_pc = Sh_idle | Sh_write | Sh_join | Sh_pool | Sh_returned bool

text \<open>
  \<open>el_size\<close> is the value of \<open>size()\<close>; what changes it is the business of theory \<open>Scheduler\<close>.  \<open>el_joined\<close> says that the dedicated thread is not
  joinable any more; \<open>Sh_returned True\<close> is the return of the call that did the shutdown.
\<close>

record el_sys =
  el_processing :: bool
  el_shutdown :: bool
  el_pipe :: bool
  el_size :: nat
  el_io :: io_pc
  el_joined :: bool
  el_has_pool :: bool
  el_pool_stopped :: bool
  el_manual :: "nat \<Rightarrow> manual_pc"
  el_closer :: "nat \<Rightarrow> shutdown_pc"

definition make_unique :: "bool \<Rightarrow> bool \<Rightarrow> el_sys" where
  "make_unique spawn pool =
     \<lparr>el_processing = False, el_shutdown = False, el_pipe = False, el_size = 0, el_io = (if spawn then Io_start else Io_none),
      el_joined = False, el_has_pool = pool, el_pool_stopped = False, el_manual = \<lambda>_. Mn_idle, el_closer = \<lambda>_. Sh_idle\<rparr>"

definition process_events_manual_step :: "nat \<Rightarrow> el_sys \<Rightarrow> el_sys" where
  "process_events_manual_step t s =
     (case el_manual s t of
        Mn_idle \<Rightarrow>
          (case compare_exchange False (el_processing s) False True of
             (ok, _, b) \<Rightarrow> s\<lparr>el_processing := b, el_manual := (el_manual s)(t := if ok then Mn_execute else Mn_idle)\<rparr>)
      | Mn_execute \<Rightarrow> s\<lparr>el_manual := (el_manual s)(t := Mn_release)\<rparr>
      | Mn_release \<Rightarrow> s\<lparr>el_processing := False, el_manual := (el_manual s)(t := Mn_idle)\<rparr>)"

definition process_events_dedicated_step :: "el_sys \<Rightarrow> el_sys option" where
  "process_events_dedicated_step s =
     (case el_io s of
        Io_start \<Rightarrow> Some (s\<lparr>el_processing := True, el_io := Io_test\<rparr>)
      | Io_test \<Rightarrow> Some (s\<lparr>el_io := (if \<not> el_shutdown s \<or> el_size s > 0 then Io_execute else Io_clear)\<rparr>)
      | Io_execute \<Rightarrow> Some (s\<lparr>el_io := Io_test\<rparr>)
      | Io_clear \<Rightarrow> Some (s\<lparr>el_processing := False, el_io := Io_ended\<rparr>)
      | Io_ended \<Rightarrow> None
      | Io_none \<Rightarrow> None)"

definition joinable :: "el_sys \<Rightarrow> bool" where
  "joinable s \<longleftrightarrow> el_io s \<noteq> Io_none \<and> \<not> el_joined s"

text \<open>\<open>shutdown\<close>; \<open>join\<close> waits until the dedicated thread has ended.\<close>

definition scheduler_shutdown_step :: "nat \<Rightarrow> el_sys \<Rightarrow> el_sys option" where
  "scheduler_shutdown_step t s =
     (let goto = (\<lambda>x s. s\<lparr>el_closer := (el_closer s)(t := x)\<rparr>)
      in case el_closer s t of
           Sh_idle \<Rightarrow> Some (goto (if el_shutdown s then Sh_returned False else Sh_write) (s\<lparr>el_shutdown := True\<rparr>))
         | Sh_write \<Rightarrow> Some (goto Sh_join (s\<lparr>el_pipe := True\<rparr>))
         | Sh_join \<Rightarrow>
             if joinable s
             then (if el_io s = Io_ended then Some (goto Sh_pool (s\<lparr>el_joined := True\<rparr>)) else None)
             else Some (goto Sh_pool s)
         | Sh_pool \<Rightarrow> Some (goto (Sh_returned True) (if el_has_pool s then s\<lparr>el_pool_stopped := True\<rparr> else s))
         | Sh_returned b \<Rightarrow> None)"

inductive el_step :: "el_sys \<Rightarrow> el_sys \<Rightarrow> bool" where
  el_process: "el_step s (process_events_manual_step t s)"
| el_dedicated: "process_events_dedicated_step s = Some s' \<Longrightarrow> el_step s s'"
| el_close: "scheduler_shutdown_step t s = Some s' \<Longrightarrow> el_step s s'"
| el_tasks: "el_step s (s\<lparr>el_size := n\<rparr>)"

definition el_init :: "bool \<Rightarrow> bool \<Rightarrow> el_sys \<Rightarrow> bool" where
  "el_init spawn pool s \<longleftrightarrow> s = make_unique spawn pool"

text \<open>How far the call of \<open>shutdown\<close> that came first has got; the others return at once.\<close>

fun el_first :: "shutdown_pc \<Rightarrow> el_sys \<Rightarrow> bool" where
  "el_first Sh_idle s = False"
| "el_first Sh_write s = True"
| "el_first Sh_join s = el_pipe s"
| "el_first Sh_pool s = (el_pipe s \<and> el_io s \<in> {Io_none, Io_ended})"
| "el_first (Sh_returned b) s = (b \<and> el_pipe s \<and> el_io s \<in> {Io_none, Io_ended} \<and> (el_has_pool s \<longrightarrow> el_pool_stopped s))"

definition el_closing :: "el_sys \<Rightarrow> bool" where
  "el_closing s \<longleftrightarrow>
     (if el_shutdown s then \<exists>w. el_first (el_closer s w) s \<and> (\<forall>u. u \<noteq> w \<longrightarrow> el_closer s u \<in> {Sh_idle, Sh_returned False})
      else \<forall>u. el_closer s u = Sh_idle)"

definition el_manual_ok :: "el_sys \<Rightarrow> bool" where
  "el_manual_ok s \<longleftrightarrow>
     (\<forall>t. el_manual s t \<noteq> Mn_idle \<longrightarrow> el_processing s) \<and>
     (\<forall>t u. el_manual s t \<noteq> Mn_idle \<and> el_manual s u \<noteq> Mn_idle \<longrightarrow> t = u)"

definition el_inv :: "bool \<Rightarrow> bool \<Rightarrow> el_sys \<Rightarrow> bool" where
  "el_inv spawn pool s \<longleftrightarrow>
     el_has_pool s = pool \<and> (el_io s = Io_none \<longleftrightarrow> \<not> spawn) \<and> (\<not> spawn \<longrightarrow> el_manual_ok s) \<and> el_closing s \<and>
     (el_io s \<in> {Io_clear, Io_ended} \<longrightarrow> el_shutdown s) \<and> (el_joined s \<longrightarrow> el_io s = Io_ended)"

text \<open>A scheduler with its own thread, after that thread has begun its loop and one call of \<open>shutdown\<close> has asked it to stop.\<close>

definition el_demo :: el_sys where
  "el_demo = (make_unique True False)\<lparr>el_processing := True, el_shutdown := True, el_io := Io_test, el_closer := (\<lambda>_. Sh_idle)(1 := Sh_write)\<rparr>"

text \<open>The same scheduler when that call has returned.\<close>

definition el_demo_done :: el_sys where
  "el_demo_done =
     el_demo\<lparr>el_processing := False, el_pipe := True, el_io := Io_ended, el_joined := True, el_closer := (\<lambda>_. Sh_idle)(1 := Sh_returned True)\<rparr>"

section \<open>Tasks with a time limit\<close>

text \<open>
  \<open>schedule(task, timeout)\<close> with and without a stop source.  Its result when \<open>when_any\<close> over the task and \<open>make_timeout_task\<close> gives
  the alternative of index 0 or 1; a time-out that is not positive means just to schedule the task.
\<close>

datatype timeout_status = No_timeout | Timeout

definition limit_ms :: "int \<Rightarrow> int" where
  "limit_ms timeout = max (if timeout < 0 then - ((- timeout) div 1000000) else timeout div 1000000) 0"

definition make_timeout_task :: "unit result \<Rightarrow> ('v + timeout_status) result" where
  "make_timeout_task after = (case after of Inl e \<Rightarrow> Inl e | Inr _ \<Rightarrow> Inr (Inr Timeout))"

definition schedule_result :: "'v + timeout_status \<Rightarrow> timeout_status + 'v" where
  "schedule_result r = (case r of Inl v \<Rightarrow> Inr v | Inr t \<Rightarrow> Inl t)"

definition schedule_limited :: "int \<Rightarrow> 'v result \<Rightarrow> (nat \<times> ('v + timeout_status)) result \<Rightarrow> (timeout_status + 'v) result" where
  "schedule_limited timeout plain any =
     (if limit_ms timeout = 0 then (case plain of Inl e \<Rightarrow> Inl e | Inr v \<Rightarrow> Inr (Inr v))
      else case any of Inl e \<Rightarrow> Inl e | Inr (i, r) \<Rightarrow> Inr (schedule_result r))"

section \<open>Lemmas\<close>

lemma el_first_cong:
  "el_first p s \<Longrightarrow> el_pipe s' = el_pipe s \<Longrightarrow> el_has_pool s' = el_has_pool s \<Longrightarrow> el_pool_stopped s' = el_pool_stopped s \<Longrightarrow>
   (el_io s \<in> {Io_none, Io_ended} \<longrightarrow> el_io s' \<in> {Io_none, Io_ended}) \<Longrightarrow> el_first p s'"
  by (cases p) auto

lemma el_closing_cong:
  assumes c: "el_closing s" and same: "el_closer s' = el_closer s" "el_shutdown s' = el_shutdown s" "el_pipe s' = el_pipe s"
      "el_has_pool s' = el_has_pool s" "el_pool_stopped s' = el_pool_stopped s"
    and io: "el_io s \<in> {Io_none, Io_ended} \<longrightarrow> el_io s' \<in> {Io_none, Io_ended}"
  shows "el_closing s'"
proof -
  have first: "el_first p s'" if "el_first p s" for p
    by (rule el_first_cong [OF that same(3-5) io])
  show ?thesis
  proof (cases "el_shutdown s")
    case True
    then show ?thesis
      using c first unfolding el_closing_def same(1,2) by (simp only: if_True) blast
  next
    case False
    then show ?thesis
      using c unfolding el_closing_def same(1,2) by simp
  qed
qed

lemma el_inv_manual:
  assumes i: "el_inv spawn pool s"
  shows "el_inv spawn pool (process_events_manual_step t s)"
proof -
  let ?s = "process_events_manual_step t s"
  have same: "el_closer ?s = el_closer s" "el_shutdown ?s = el_shutdown s" "el_pipe ?s = el_pipe s" "el_has_pool ?s = el_has_pool s"
    "el_pool_stopped ?s = el_pool_stopped s" "el_io ?s = el_io s" "el_joined ?s = el_joined s"
    by (auto simp: process_events_manual_step_def split: manual_pc.splits prod.splits)
  have "el_manual_ok ?s" if ok: "el_manual_ok s"
  proof -
    have "el_manual s u = Mn_idle" if "el_manual s t \<noteq> Mn_idle" "u \<noteq> t" for u
      using ok that unfolding el_manual_ok_def by blast
    then show ?thesis
      using ok by (cases "el_manual s t") (auto simp: el_manual_ok_def process_events_manual_step_def compare_exchange_def)
  qed
  then show ?thesis
    using i el_closing_cong [of s ?s] unfolding el_inv_def same by auto
qed

lemma el_inv_dedicated:
  assumes i: "el_inv spawn pool s" and step: "process_events_dedicated_step s = Some s'"
  shows "el_inv spawn pool s'"
proof -
  have io: "el_io s \<notin> {Io_none, Io_ended}"
    using step by (auto simp: process_events_dedicated_step_def)
  have same: "el_closer s' = el_closer s" "el_shutdown s' = el_shutdown s" "el_pipe s' = el_pipe s" "el_has_pool s' = el_has_pool s"
    "el_pool_stopped s' = el_pool_stopped s" "el_joined s' = el_joined s" "el_io s' \<noteq> Io_none"
    and ends: "el_io s' \<in> {Io_clear, Io_ended} \<Longrightarrow> el_shutdown s \<or> el_io s = Io_clear"
    using step by (auto simp: process_events_dedicated_step_def split: io_pc.splits if_splits)
  then show ?thesis
    using i io el_closing_cong [of s s'] unfolding el_inv_def by auto
qed

lemma el_inv_close:
  assumes i: "el_inv spawn pool s" and step: "scheduler_shutdown_step t s = Some s'"
  shows "el_inv spawn pool s'"
proof -
  have same: "el_has_pool s' = el_has_pool s" "el_io s' = el_io s" "el_manual s' = el_manual s" "el_processing s' = el_processing s"
    "el_shutdown s \<longrightarrow> el_shutdown s'" "el_joined s' \<longrightarrow> el_joined s \<or> el_io s = Io_ended"
    using step by (auto simp: scheduler_shutdown_step_def Let_def split: shutdown_pc.splits if_splits)
  have "el_closing s'"
  proof (cases "el_shutdown s")
    case False
    then have "s' = s\<lparr>el_shutdown := True, el_closer := (el_closer s)(t := Sh_write)\<rparr>" "\<forall>u. el_closer s u = Sh_idle"
      using i step by (auto simp: el_inv_def el_closing_def scheduler_shutdown_step_def)
    then show ?thesis
      by (auto simp: el_closing_def intro!: exI [of _ t])
  next
    case True
    then obtain w where w: "el_first (el_closer s w) s" "\<forall>u. u \<noteq> w \<longrightarrow> el_closer s u \<in> {Sh_idle, Sh_returned False}"
      using i by (auto simp: el_inv_def el_closing_def)
    have "el_first (el_closer s' w) s' \<and> (\<forall>u. u \<noteq> w \<longrightarrow> el_closer s' u \<in> {Sh_idle, Sh_returned False})"
    proof (cases "t = w")
      case False
      then have "el_closer s t = Sh_idle" "s' = s\<lparr>el_shutdown := True, el_closer := (el_closer s)(t := Sh_returned False)\<rparr>"
        using w(2) step True by (auto simp: scheduler_shutdown_step_def split: shutdown_pc.splits)
      then show ?thesis
        using w False el_first_cong [OF w(1), of s'] by auto
    next
      case True
      have joined: "el_joined s \<longrightarrow> el_io s = Io_ended"
        using i by (simp add: el_inv_def)
      show ?thesis
        using w step True joined
        by (cases "el_closer s w") (auto simp: scheduler_shutdown_step_def joinable_def split: if_splits)
    qed
    then show ?thesis
      using True same(5) by (auto simp: el_closing_def)
  qed
  then show ?thesis
    using i same by (auto simp: el_inv_def el_manual_ok_def)
qed

interpretation els: invariant_system "el_init spawn pool" el_step "el_inv spawn pool" for spawn pool
proof unfold_locales
  show "el_inv spawn pool s" if "el_init spawn pool s" for s
    using that by (simp add: el_init_def el_inv_def make_unique_def el_closing_def el_manual_ok_def)
  show "el_inv spawn pool s'" if "el_inv spawn pool s" "el_step s s'" for s s'
    using that(2)
  proof cases
    case el_tasks
    then show ?thesis
      using that(1) el_closing_cong [of s s'] by (auto simp: el_inv_def el_manual_ok_def)
  qed (use that(1) el_inv_manual el_inv_dedicated el_inv_close in blast)+
qed

section \<open>Properties\<close>

text \<open>C39: shutting a scheduler down waits for its event loop.  Among any number of calls of \<open>shutdown\<close>, of \<open>process_events\<close> and the dedicated
  thread, one call does the shutdown; when it returns, the dedicated thread has ended, which it does only after the request,
  the shutdown pipe has been written, and the thread pool has been shut down after the loop.  Under the manual strategy at most
  one thread runs the event loop at a time, and it is the one that set \<open>m_io_processing\<close>.\<close>

theorem event_loop_shutdown:
  assumes "reach (el_init spawn pool) el_step s"
  shows "(el_closer s t = Sh_returned True \<longrightarrow> el_io s = (if spawn then Io_ended else Io_none) \<and> el_pipe s \<and> (pool \<longrightarrow> el_pool_stopped s)
      \<and> (\<forall>u. u \<noteq> t \<longrightarrow> el_closer s u \<noteq> Sh_returned True))
    \<and> (el_io s = Io_ended \<longrightarrow> el_shutdown s)
    \<and> (\<not> spawn \<longrightarrow> (\<forall>u v. el_manual s u \<noteq> Mn_idle \<and> el_manual s v \<noteq> Mn_idle \<longrightarrow> u = v \<and> el_processing s))"
proof -
  have i: "el_inv spawn pool s"
    by (rule els.inv_reach [OF assms])
  have "el_io s = (if spawn then Io_ended else Io_none) \<and> el_pipe s \<and> (pool \<longrightarrow> el_pool_stopped s) \<and> (\<forall>u. u \<noteq> t \<longrightarrow> el_closer s u \<noteq> Sh_returned True)"
    if r: "el_closer s t = Sh_returned True"
  proof -
    have "el_shutdown s"
    proof (rule ccontr)
      assume "\<not> el_shutdown s"
      then show False
        using i r by (auto simp: el_inv_def el_closing_def)
    qed
    then obtain w where w: "el_first (el_closer s w) s" "\<forall>u. u \<noteq> w \<longrightarrow> el_closer s u \<in> {Sh_idle, Sh_returned False}"
      using i by (auto simp: el_inv_def el_closing_def)
    then have "w = t"
      using r by (metis insertE shutdown_pc.distinct(7) shutdown_pc.inject singletonD)
    then show ?thesis
      using w r i by (auto simp: el_inv_def)
  qed
  then show ?thesis
    using i by (auto simp: el_inv_def el_manual_ok_def)
qed

lemma el_demo_reach: "reach (el_init True False) el_step el_demo"
proof -
  let ?init = "make_unique True False"
  let ?run = "?init\<lparr>el_processing := True, el_io := Io_test\<rparr>"
  have "reach (el_init True False) el_step ?init"
    by (rule reach_init) (simp add: el_init_def)
  moreover have "el_step ?init ?run"
    by (rule el_dedicated) (simp add: process_events_dedicated_step_def make_unique_def)
  moreover have "el_step ?run el_demo"
    by (rule el_close [of 1]) (simp add: scheduler_shutdown_step_def make_unique_def el_demo_def)
  ultimately show ?thesis
    by (meson reach_step)
qed

lemma el_demo_done_reach: "reach (el_init True False) el_step el_demo_done"
proof -
  let ?written = "el_demo\<lparr>el_pipe := True, el_closer := (\<lambda>_. Sh_idle)(1 := Sh_join)\<rparr>"
  let ?clear = "?written\<lparr>el_io := Io_clear\<rparr>"
  let ?ended = "?written\<lparr>el_processing := False, el_io := Io_ended\<rparr>"
  let ?pool = "?ended\<lparr>el_joined := True, el_closer := (\<lambda>_. Sh_idle)(1 := Sh_pool)\<rparr>"
  note d = el_demo_def make_unique_def
  have "el_step el_demo ?written"
    by (rule el_close [of 1]) (simp add: scheduler_shutdown_step_def d)
  moreover have "el_step ?written ?clear"
    by (rule el_dedicated) (simp add: process_events_dedicated_step_def d)
  moreover have "el_step ?clear ?ended"
    by (rule el_dedicated) (simp add: process_events_dedicated_step_def d)
  moreover have "el_step ?ended ?pool"
    by (rule el_close [of 1]) (simp add: scheduler_shutdown_step_def joinable_def d)
  moreover have "el_step ?pool el_demo_done"
    by (rule el_close [of 1]) (simp add: scheduler_shutdown_step_def el_demo_done_def d)
  ultimately show ?thesis
    using el_demo_reach by (meson reach_step)
qed

theorem event_loop_shutdown_witness:
  "reach (el_init True False) el_step el_demo_done \<and> el_closer el_demo_done 1 = Sh_returned True
   \<and> el_io el_demo_done = Io_ended \<and> el_pipe el_demo_done \<and> el_shutdown el_demo_done"
proof -
  have "el_closer el_demo_done 1 = Sh_returned True"
    by (simp add: el_demo_done_def)
  then show ?thesis
    using el_demo_done_reach event_loop_shutdown [OF el_demo_done_reach, of 1] by simp
qed

text \<open>
  Another call of \<open>shutdown\<close> returns at once, while the event loop is still running: it is not true of it that it returns only when all tasks
  have completed.
\<close>

lemma second_shutdown_does_not_wait:
  "\<exists>s :: el_sys. reach (el_init True False) el_step s \<and> el_closer s 2 = Sh_returned False \<and> el_io s = Io_test"
proof -
  let ?s = "el_demo\<lparr>el_closer := (el_closer el_demo)(2 := Sh_returned False)\<rparr>"
  have "el_step el_demo ?s"
    by (rule el_close [of 2]) (simp add: scheduler_shutdown_step_def el_demo_def)
  then have "reach (el_init True False) el_step ?s"
    using reach_step [of "el_init True False" el_step el_demo, OF el_demo_reach] by blast
  then show ?thesis
    by (rule exI [of _ ?s, OF conjI]) (simp add: el_demo_def)
qed

text \<open>
  With a dedicated thread the flag does not keep other threads out: the thread sets it without looking, so a \<open>process_events\<close> that began
  before runs the event loop at the same time.
\<close>

lemma dedicated_and_manual_overlap:
  "\<exists>s :: el_sys. reach (el_init True False) el_step s \<and> el_io s = Io_execute \<and> el_manual s 1 = Mn_execute"
proof -
  let ?init = "make_unique True False"
  let ?a = "?init\<lparr>el_processing := True, el_manual := (\<lambda>_. Mn_idle)(1 := Mn_execute)\<rparr>"
  let ?b = "?a\<lparr>el_io := Io_test\<rparr>"
  let ?c = "?a\<lparr>el_io := Io_execute\<rparr>"
  have "reach (el_init True False) el_step ?init"
    by (rule reach_init) (simp add: el_init_def)
  moreover have "el_step ?init ?a"
    using el_process [of ?init 1] by (simp add: process_events_manual_step_def make_unique_def compare_exchange_def)
  moreover have "el_step ?a ?b"
    by (rule el_dedicated) (simp add: process_events_dedicated_step_def make_unique_def)
  moreover have "el_step ?b ?c"
    by (rule el_dedicated) (simp add: process_events_dedicated_step_def make_unique_def)
  ultimately have "reach (el_init True False) el_step ?c"
    by (meson reach_step)
  then show ?thesis
    by (rule exI [of _ ?c, OF conjI]) simp
qed

text \<open>
  A task with a time limit, over \<open>when_any\<close> with the task at index 0 and the time-out task at index 1: the result is the value of the task, or the
  time-out if that was first.  An exception of the task is not part of the result: the call then reports a time-out.
\<close>

lemma when_any_returns:
  assumes "reach (an_init n) (an_step n stop c h) s" and "n + 1 < 2 ^ 64" and "an_parent s = Ap_returned r"
  shows "\<exists>w<n. \<exists>v. r = Inr (w, v) \<and> an_outcome s w = Some (Inr v)"
proof -
  have i: "an_inv n c h s"
    by (rule an_reach_inv [OF assms(1,2)])
  show ?thesis
    using an_notified_value [OF i] an_invD(2) [OF i] assms(3) by (auto simp: an_wait_ok_def optional_value_def)
qed

lemma schedule_limited_result:
  assumes "reach (an_init 2) (an_step 2 stop c h) s" and "an_parent s = Ap_returned r"
    and "an_outcome s 0 = None \<or> an_outcome s 0 = Some (map_sum id Inl task)" and "an_outcome s 1 = None \<or> an_outcome s 1 = Some (make_timeout_task after)"
    and "limit_ms timeout > 0"
  shows "schedule_limited timeout plain r = Inr (Inl Timeout) \<or> (\<exists>v. task = Inr v \<and> schedule_limited timeout plain r = Inr (Inr v))"
proof -
  obtain w v where w: "w < 2" "r = Inr (w, v)" "an_outcome s w = Some (Inr v)"
    using when_any_returns [OF assms(1) _ assms(2)] by auto
  then consider "w = 0" | "w = 1"
    by linarith
  then show ?thesis
  proof cases
    case 1
    then show ?thesis
      using w assms(3,5) by (cases task) (auto simp: schedule_limited_def schedule_result_def)
  next
    case 2
    then show ?thesis
      using w assms(4,5) by (cases after) (auto simp: schedule_limited_def schedule_result_def make_timeout_task_def)
  qed
qed

lemma limit_not_positive: "timeout \<le> 0 \<Longrightarrow> limit_ms timeout = 0"
  by (simp add: limit_ms_def max_def pos_imp_zdiv_nonneg_iff)

end
