(* ===== verification/Spec2Isabelle.thy ===== *)
theory Spec2Isabelle
  imports Mutex Event Latch Semaphore Queue RingBuffer SharedMutex ThreadPool TaskGroup IoNotifier Scheduler
    Task WhenAll WhenAny SyncWait ConditionVariable TimedWait Expected Generator Invoke DefaultExecutor
    NetAddress NetSocket NetClient NetTls NetDns EventLoop
begin

text \<open>
  A model of libcoro, a C++20 library of coroutine primitives.  File names are relative to \<open>src/\<close>; \<open>coro/\<close> stands for
  \<open>include/coro/\<close>.

  \<^bold>\<open>The library.\<close>  A \<open>task\<close> is a coroutine that starts when it is awaited and resumes its awaiter when it ends; \<open>generator\<close>, \<open>when_all\<close>,
  \<open>when_any\<close>, \<open>sync_wait\<close> and \<open>invoke\<close> are built from coroutines in the same way.  Synchronisation is done by suspending: a coroutine that has
  to wait puts an awaiter object, which lives in its frame, into a list and returns to its resumer.  The list is a lock-free stack
  (\<open>awaiter_list\<close>) or the state word of the object itself (\<open>mutex\<close>, \<open>event\<close>); \<open>latch\<close> and \<open>task_group\<close> use an event; \<open>semaphore\<close>, \<open>queue\<close>, \<open>ring_buffer\<close>
  and \<open>shared_mutex\<close> keep their data under an internal mutex; \<open>condition_variable\<close> combines the list with a mutex of the user.  Coroutines are resumed on
  a \<open>thread_pool\<close> or by the \<open>scheduler\<close>, which runs an event loop over epoll or kqueue, with timers, polls of descriptors and a pipe through which other
  threads wake it.  The network classes read, write and accept through the poll of the scheduler.

  \<^bold>\<open>The method.\<close>  Sequential code is a function on a record of the members; a raise, an early return and a \<open>std::terminate\<close> are values.
  Addresses and handles are natural numbers and \<open>nullptr\<close> is \<^term>\<open>None\<close>.  Concurrent code is a function that performs one access to
  shared memory of one thread, and an inductive relation that interleaves any number of threads; theorems about it hold in every
  state that \<^const>\<open>reach\<close> gives.  A step that the language leaves undefined (resuming a coroutine that is not suspended,
  following a null pointer, using an object that is gone) has no result, so that theorems which say that a thread can go on
  exclude it.  Compare-exchange may fail spuriously where the code uses the weak form.  Memory is sequentially consistent: the
  acquire and release orders of the source are not weakened.  Counters that can overflow have their width in bits; sizes that count
  existing objects are natural numbers.

  \<^bold>\<open>Theories.\<close>
  \<^item> \<open>Prelude\<close>: types, exceptions, linked lists along \<open>m_next\<close>, sums over threads, and the locale \<open>invariant_system\<close>, which turns an invariant that
    every step keeps into one of every reachable state.  Every transition system below interprets it.
  \<^item> \<open>AwaiterList\<close>: \<open>coro/detail/awaiter_list.hpp\<close>.  With at most one thread that pops, every execution is one of an abstract stack; two
    popping threads can pop an awaiter twice.  The locale \<open>awaiter_stack\<close> is what the components use of it.
  \<^item> \<open>Mutex\<close>: \<open>coro/mutex.hpp\<close>, \<open>src/mutex.cpp\<close>.  The code refines an abstract lock with direct hand-over; mutual exclusion, no lost waiter, no
    stuck call; \<open>scoped_lock\<close>.
  \<^item> \<open>Event\<close>, \<open>Latch\<close>, \<open>TaskGroup\<close>: \<open>coro/event.hpp\<close>, \<open>src/event.cpp\<close>, \<open>coro/latch.hpp\<close>, \<open>coro/task_group.hpp\<close>.  Every suspended
    coroutine is in one list; a latch opens after its count; a group is joined when its tasks have ended.
  \<^item> \<open>Monitor\<close> is the contract of an object whose operations run under an internal mutex, as the locale \<open>monitor\<close> and its extensions with a history
    and with accounts; \<open>Semaphore\<close>, \<open>Queue\<close>, \<open>RingBuffer\<close> and \<open>SharedMutex\<close> (\<open>coro/semaphore.hpp\<close>, \<open>coro/queue.hpp\<close>, \<open>coro/ring_buffer.hpp\<close>,
    \<open>coro/shared_mutex.hpp\<close>) interpret them.  Units are conserved, elements leave in the order in which they came, writers exclude, and nobody waits
    without a reason.
  \<^item> \<open>ThreadPool\<close>: \<open>coro/thread_pool.hpp\<close>, \<open>src/thread_pool.cpp\<close>.  Accepted coroutines are resumed once and in order, none is left behind when all
    threads sleep, and what was queued before a shutdown is run.
  \<^item> \<open>IoNotifier\<close>: \<open>coro/poll.hpp\<close>, \<open>src/poll.cpp\<close>, pipes, poll infos, and the epoll and kqueue notifiers of \<open>src/detail/\<close>: packing of user data
    at 64 bits, timers, and the agreement of the two notifiers.
  \<^item> \<open>Scheduler\<close>, \<open>EventLoop\<close>: \<open>coro/scheduler.hpp\<close>, \<open>src/scheduler.cpp\<close>.  Every sleeping coroutine is accounted for, time-outs are picked exactly when
    due, a scheduled operation wakes the event loop, and a shutdown waits for it.  Tasks with a time limit are \<open>when_any\<close> with a timer.
  \<^item> \<open>Task\<close>, \<open>Generator\<close>, \<open>Invoke\<close>, \<open>WhenAll\<close>, \<open>WhenAny\<close>, \<open>SyncWait\<close>: the headers of these names in \<open>coro/\<close>, and \<open>src/sync_wait.cpp\<close>.  \<open>Task\<close> has a machine
    of coroutine frames with symmetric transfer of control; awaiting tasks computes what calling functions would.
  \<^item> \<open>ConditionVariable\<close>, \<open>TimedWait\<close>: \<open>coro/condition_variable.hpp\<close>, \<open>src/condition_variable.cpp\<close>, without and with time-outs.
  \<^item> \<open>Expected\<close>: \<open>coro/detail/tl_expected.hpp\<close>, the lifetime of the members of the union in every overload, compared with a sum type, with
    and without exceptions.
  \<^item> \<open>DefaultExecutor\<close>: \<open>src/default_executor.cpp\<close>.  One executor is made.
  \<^item> \<open>NetAddress\<close>, \<open>NetSocket\<close>, \<open>NetClient\<close>, \<open>NetTls\<close>, \<open>NetDns\<close>: \<open>coro/net/\<close> and \<open>src/net/\<close>.  Addresses at the bytes of \<open>sockaddr\<close>; sockets as owners
    of descriptors; TCP, UDP and TLS transfer bytes in order and return; the resolver polls every socket that it should.

  \<^bold>\<open>Parameters.\<close>  Code outside the repository is an argument of the definitions that use it: the bodies of user coroutines, the answers of the
  operating system, of OpenSSL and of \<open>c-ares\<close>, and the clock.  \<open>NetClient.os_ok\<close> and \<open>NetTls.tls_ok\<close> collect what is relied on of
  them, with a concrete system that satisfies it; \<open>NetTls.one_way\<close> says that no read has to write.

  \<^bold>\<open>Loops.\<close>  Loops over lists are structural or have a measure.  Loops that might not end are defined with \<open>partial_function (option)\<close>, so that
  \<^term>\<open>None\<close> means no result, and the properties state that there is one: walks over awaiter lists, loops over generators,
  \<open>read_exact\<close> and \<open>write_all\<close>, which end because every round moves bytes or ends the call, and the loops of TLS, which end as long as the library asks
  for the socket finitely often.  No fuel is used.  The bounds \<open>n + 1 < 2 ^ 64\<close> of \<open>when_all\<close> and \<open>when_any\<close> and the \<open>2 ^ 64\<close> elements of a ring buffer
  keep 64-bit counters from wrapping.

  \<^bold>\<open>Grain.\<close>  A section under a \<open>coro::mutex\<close> or a \<open>std::mutex\<close> is one step, which theory \<open>Mutex\<close> justifies for the former.  One pass of the event loop
  and one \<open>poll\<close> are single steps of \<open>Scheduler\<close>; its wake-up protocol and its threads are taken apart.  The condition variable uses the awaiter list
  as an atomic stack; \<open>WhenAny\<close> and \<open>TaskGroup\<close> use the calls of an event, which \<open>Event\<close> takes apart.  A timed wait is modelled for one waiter, with
  other holders of its mutexes as its environment.

  \<^bold>\<open>Not modelled.\<close>
  \<^item> C++ concepts and type traits (\<open>coro/concepts/\<close>, and the parts of \<open>tl_expected.hpp\<close> that select or delete members): they act at compile time.
  \<^item> Reading and writing pipes, messages on \<open>std::cerr\<close>, the texts of system errors and the start and stop functors of threads: input and output, or
    code of the user.
  \<^item> \<open>hostname\<close> and headers that only include or alias (\<open>coro.hpp\<close>, \<open>fd.hpp\<close>, \<open>time.hpp\<close>, \<open>attribute.hpp\<close>, \<open>io_notifier.hpp\<close>): they have no behaviour.
  \<^item> \<open>spawn_joinable\<close>, a task group that is awaited, the destructor of the scheduler, which runs \<open>shutdown\<close> and closes pipes, and the moves of
    self-deleting tasks, which copy a pointer.
  \<^item> Code for other platforms (\<open>_WIN32\<close>, \<open>EMSCRIPTEN\<close>), examples, tests and benchmarks.
\<close>

end
